(* ===== verification/GoPrelude.thy ===== *)
theory GoPrelude
  imports Main "HOL-Library.Word" "HOL-Library.Sublist" "HOL-Library.AList"
begin

unbundle bit_operations_syntax

text \<open>
  What the components share: Go strings (byte strings, modelled as \<open>string\<close>), Go error
  values, the state-and-error monad in which fallible calls with effects are written, Go maps that
  the source iterates over (association lists with an explicit iteration order), bounded channels,
  and the functions of Go's standard library that several components call
  (\<open>strings.HasPrefix\<close>, \<open>strings.TrimPrefix\<close>,
  \<open>subtle.ConstantTimeCompare\<close>).
\<close>

named_theorems go_defs "definitions unfolded by the component proofs"

section \<open>Errors and fallible computations\<close>

text \<open>
  A Go \<open>error\<close>: one made from a message (\<open>errors.New\<close>, or the opaque error of a
  library, known by its text), one that wraps another under a prefix
  (\<open>fmt.Errorf("p: %w", e)\<close>), the sentinel \<open>redis.Nil\<close>, the context's own error,
  and \<open>jwt.ErrSignatureInvalid\<close>.
\<close>

datatype go_error =
    ErrText string
  | Wrap string go_error
  | RedisNil
  | CtxErr
  | ErrSignatureInvalid

text \<open>\<open>errors.Is\<close>: the error itself or one it wraps.\<close>

fun err_is :: "go_error \<Rightarrow> go_error \<Rightarrow> bool" where
  "err_is (Wrap p e) t = (Wrap p e = t \<or> err_is e t)"
| "err_is e t = (e = t)"

text \<open>A call that changes a state and returns a value or an error.\<close>

type_synonym ('s, 'a) go_call = "'s \<Rightarrow> (go_error + 'a) \<times> 's"

definition go_return :: "'a \<Rightarrow> ('s, 'a) go_call" where
  "go_return x s = (Inr x, s)"

definition go_fail :: "go_error \<Rightarrow> ('s, 'a) go_call" where
  "go_fail e s = (Inl e, s)"

text \<open>\<open>v, err := m(); if err != nil \{ return err \}; f(v)\<close>.\<close>

definition go_bind :: "('s, 'a) go_call \<Rightarrow> ('a \<Rightarrow> ('s, 'b) go_call) \<Rightarrow> ('s, 'b) go_call" where
  "go_bind m f s = (case m s of (Inl e, s') \<Rightarrow> (Inl e, s') | (Inr x, s') \<Rightarrow> f x s')"

lemma go_bind_simps [simp]:
  "go_bind (go_return x) f = f x"
  "go_bind (go_fail e) f = go_fail e"
  by (simp_all add: go_bind_def go_return_def go_fail_def fun_eq_iff)

lemma go_bind_assoc: "go_bind (go_bind m f) g = go_bind m (\<lambda>x. go_bind (f x) g)"
  by (auto simp: go_bind_def fun_eq_iff split: prod.split sum.split)

lemma go_bind_cases:
  assumes "go_bind m f s = (r, s')"
  obtains (fail) e where "m s = (Inl e, s')" and "r = Inl e"
    | (step) x t where "m s = (Inr x, t)" and "f x t = (r, s')"
  using assms by (auto simp: go_bind_def split: prod.splits sum.splits)

lemma go_bind_InrE:
  assumes "go_bind m f s = (Inr y, s')"
  obtains x t where "m s = (Inr x, t)" and "f x t = (Inr y, s')"
  using assms by (auto simp: go_bind_def split: prod.splits sum.splits)

lemma go_bind_eqI: "m s = (Inr x, t) \<Longrightarrow> go_bind m f s = f x t"
  by (simp add: go_bind_def)

section \<open>Strings\<close>

text \<open>\<open>strings.HasPrefix\<close> and \<open>strings.TrimPrefix\<close>.\<close>

definition HasPrefix :: "string \<Rightarrow> string \<Rightarrow> bool" where
  "HasPrefix s p \<longleftrightarrow> length p \<le> length s \<and> take (length p) s = p"

definition TrimPrefix :: "string \<Rightarrow> string \<Rightarrow> string" where
  "TrimPrefix s p = (if HasPrefix s p then drop (length p) s else s)"

lemma HasPrefix_append [simp]: "HasPrefix (p @ r) p"
  by (simp add: HasPrefix_def)

lemma TrimPrefix_append [simp]: "TrimPrefix (p @ r) p = r"
  by (simp add: TrimPrefix_def)

lemma HasPrefix_iff: "HasPrefix s p \<longleftrightarrow> (\<exists>r. s = p @ r)"
  by (metis HasPrefix_append HasPrefix_def append_take_drop_id)

lemma HasPrefix_TrimPrefix: "HasPrefix s p \<Longrightarrow> s = p @ TrimPrefix s p"
  by (auto simp: HasPrefix_iff)

text \<open>
  \<open>subtle.ConstantTimeCompare\<close>: 0 for different lengths, else the bytes' differences are
  ORed together and \<open>ConstantTimeByteEq\<close> turns a zero into 1.
\<close>

definition byte_of :: "char \<Rightarrow> 8 word" where
  "byte_of c = word_of_nat (of_char c)"

fun ct_acc :: "string \<Rightarrow> string \<Rightarrow> 8 word \<Rightarrow> 8 word" where
  "ct_acc (x # xs) (y # ys) v = ct_acc xs ys (v OR (byte_of x XOR byte_of y))"
| "ct_acc _ _ v = v"

definition ConstantTimeByteEq :: "8 word \<Rightarrow> 8 word \<Rightarrow> 32 word" where
  "ConstantTimeByteEq x y = drop_bit 31 (ucast (x XOR y) - 1)"

definition ConstantTimeCompare :: "string \<Rightarrow> string \<Rightarrow> 32 word" where
  "ConstantTimeCompare x y =
     (if length x \<noteq> length y then 0 else ConstantTimeByteEq (ct_acc x y 0) 0)"

lemma byte_of_inj: "byte_of c = byte_of d \<longleftrightarrow> c = d"
proof
  assume "byte_of c = byte_of d"
  then have "unat (word_of_nat (of_char c) :: 8 word) = unat (word_of_nat (of_char d) :: 8 word)"
    by (simp add: byte_of_def)
  moreover have "of_char e < (256::nat)" for e
    by simp
  ultimately have "(of_char c :: nat) = of_char d"
    by (simp add: unat_of_nat take_bit_nat_def)
  then show "c = d"
    by simp
qed simp

lemma or_eq_0_word: "(v :: 8 word) OR w = 0 \<longleftrightarrow> v = 0 \<and> w = 0"
  by (auto simp: bit_eq_iff bit_or_iff)

lemma xor_eq_0_word: "(v :: 8 word) XOR w = 0 \<longleftrightarrow> v = w"
  by (auto simp: bit_eq_iff bit_xor_iff)

lemma ct_acc_eq_0: "length x = length y \<Longrightarrow> ct_acc x y v = 0 \<longleftrightarrow> v = 0 \<and> x = y"
  by (induction x y v rule: ct_acc.induct)
    (auto simp: or_eq_0_word xor_eq_0_word byte_of_inj)

lemma ConstantTimeByteEq_0: "ConstantTimeByteEq v 0 = 1 \<longleftrightarrow> v = 0"
proof (cases "v = 0")
  case True
  have "drop_bit 31 (- 1 :: 32 word) = 1"
    by simp
  with True show ?thesis
    by (simp add: ConstantTimeByteEq_def)
next
  case False
  then have "0 < unat v" and "unat v < 256"
    using unsigned_less [of v, where 'a = nat] by (auto simp: unat_gt_0)
  have u: "unat (ucast v :: 32 word) = unat v"
    by transfer simp
  then have "unat (ucast v - 1 :: 32 word) = unat v - 1"
    using \<open>0 < unat v\<close> by (subst unat_sub) (auto simp: word_le_nat_alt)
  then have "unat (drop_bit 31 (ucast v - 1 :: 32 word)) = (unat v - 1) div 2 ^ 31"
    by (simp add: unat_drop_bit_eq drop_bit_nat_def)
  also have "\<dots> = 0"
    using \<open>unat v < 256\<close> by simp
  finally show ?thesis
    using False by (auto simp: ConstantTimeByteEq_def)
qed

lemma ConstantTimeCompare_iff: "ConstantTimeCompare x y = 1 \<longleftrightarrow> x = y"
  by (auto simp: ConstantTimeCompare_def ConstantTimeByteEq_0 ct_acc_eq_0)

section \<open>Maps the source iterates over\<close>

text \<open>
  A Go map that some loop ranges over is an association list with distinct keys. Go leaves the
  order of \<open>range\<close> open: a loop takes the order from an argument, a function that permutes
  the list of keys, and theorems hold for every such function.
\<close>

type_synonym ('k, 'v) go_map = "('k \<times> 'v) list"

abbreviation gm_get :: "('k, 'v) go_map \<Rightarrow> 'k \<Rightarrow> 'v option" where
  "gm_get m k \<equiv> map_of m k"

abbreviation gm_put :: "'k \<Rightarrow> 'v \<Rightarrow> ('k, 'v) go_map \<Rightarrow> ('k, 'v) go_map" where
  "gm_put k v m \<equiv> AList.update k v m"

abbreviation gm_keys :: "('k, 'v) go_map \<Rightarrow> 'k list" where
  "gm_keys m \<equiv> map fst m"

definition gm_inv :: "('k, 'v) go_map \<Rightarrow> bool" where
  "gm_inv m \<longleftrightarrow> distinct (gm_keys m)"

definition range_order :: "('k list \<Rightarrow> 'k list) \<Rightarrow> bool" where
  "range_order it \<longleftrightarrow> (\<forall>ks. distinct ks \<longrightarrow> distinct (it ks) \<and> set (it ks) = set ks)"

lemma gm_inv_Nil [simp, intro]: "gm_inv []"
  by (simp add: gm_inv_def)

lemma gm_inv_put [simp, intro]: "gm_inv m \<Longrightarrow> gm_inv (gm_put k v m)"
  by (simp add: gm_inv_def distinct_update)

lemma gm_get_put: "gm_get (gm_put k v m) = (gm_get m)(k \<mapsto> v)"
  by (rule update_conv')

lemma range_order_id [simp, intro]: "range_order (\<lambda>ks. ks)"
  by (simp add: range_order_def)

lemma range_order_rev [simp, intro]: "range_order rev"
  by (simp add: range_order_def)

lemma range_orderD:
  assumes "range_order it" and "distinct ks"
  shows "distinct (it ks)" and "set (it ks) = set ks"
  using assms by (auto simp: range_order_def)

text \<open>A missing key reads as the zero value of the element type; for strings the empty one.\<close>

definition str_at :: "('k \<rightharpoonup> string) \<Rightarrow> 'k \<Rightarrow> string" where
  "str_at m k = (case m k of Some s \<Rightarrow> s | None \<Rightarrow> [])"

lemma str_at_simps [simp]:
  "m k = Some s \<Longrightarrow> str_at m k = s"
  "m k = None \<Longrightarrow> str_at m k = []"
  by (simp_all add: str_at_def)

lemma option_eqI: "(\<And>s. x = Some s \<longleftrightarrow> y = Some s) \<Longrightarrow> x = y"
  by (cases x; cases y) auto

section \<open>Bounded channels\<close>

text \<open>
  A buffered channel is the list of its elements, oldest first. \<open>select\<close> with a send and a
  \<open>default\<close> branch appends if there is room and drops the value otherwise.
\<close>

definition chan_offer :: "nat \<Rightarrow> 'a \<Rightarrow> 'a list \<Rightarrow> 'a list" where
  "chan_offer cap x buf = (if length buf < cap then buf @ [x] else buf)"

lemma length_chan_offer: "length buf \<le> cap \<Longrightarrow> length (chan_offer cap x buf) \<le> cap"
  by (simp add: chan_offer_def)

lemma chan_offer_room: "length buf < cap \<Longrightarrow> chan_offer cap x buf = buf @ [x]"
  by (simp add: chan_offer_def)

lemma chan_offer_full: "cap \<le> length buf \<Longrightarrow> chan_offer cap x buf = buf"
  by (simp add: chan_offer_def)

lemma subseq_chan_offer: "subseq ys buf' \<Longrightarrow> subseq (chan_offer cap x ys) (buf' @ [x])"
  by (auto simp: chan_offer_def intro: subseq_append_le_same_iff list_emb_append_mono)

section \<open>Lists\<close>

lemma concat_map_filter_Nil: "(\<forall>x \<in> set xs. f x = []) \<Longrightarrow> concat (map f xs) = []"
  by simp

lemma map_of_mapk_SomeI:
  "distinct (map f xs) \<Longrightarrow> x \<in> set xs \<Longrightarrow> map_of (map (\<lambda>y. (f y, g y)) xs) (f x) = Some (g x)"
  by (induction xs) (auto simp: rev_image_eqI)

end
