(* ===== verification/Json.thy ===== *)
theory Json
  imports GoPrelude
begin

text \<open>
  Go's \<open>encoding/json\<close> as far as the program uses it, on bytes: a Go string is a list of
  bytes, expected to be UTF-8.  \<open>print_json\<close> is \<open>json.Marshal\<close> of a value tree
  (struct fields in order, HTML escaping on, invalid UTF-8 replaced) and \<open>parse_json\<close> reads a
  whole document or fails, as the scanner behind \<open>json.Unmarshal\<close> does (a machine with a
  stack of open containers, at most 10000 deep).  Numbers are kept as their literals.
\<close>

section \<open>UTF-8\<close>

definition byte :: "char \<Rightarrow> nat" where
  "byte c = of_char c"

definition chr :: "nat \<Rightarrow> char" where
  "chr n = char_of n"

lemma byte_less [simp]: "byte c < 256"
  by (simp add: byte_def)

lemma chr_byte [simp]: "chr (byte c) = c"
  by (simp add: byte_def chr_def)

lemma byte_chr [simp]: "n < 256 \<Longrightarrow> byte (chr n) = n"
  by (simp add: byte_def chr_def)

lemma byte_eq_iff: "byte c = byte d \<longleftrightarrow> c = d"
  by (metis chr_byte)

definition cont :: "char \<Rightarrow> bool" where
  "cont c \<longleftrightarrow> 128 \<le> byte c \<and> byte c \<le> 191"

text \<open>
  \<open>utf8.DecodeRune\<close>: the length of the encoded rune at the head of a byte string, 0 where Go
  reports \<open>RuneError\<close> with size 1 (the ranges of the second byte exclude overlong forms,
  surrogates and values above 10FFFF).
\<close>

definition second_ok :: "nat \<Rightarrow> char \<Rightarrow> bool" where
  "second_ok n c \<longleftrightarrow>
     (if n = 224 then 160 else if n = 240 then 144 else 128) \<le> byte c \<and>
     byte c \<le> (if n = 237 then 159 else if n = 244 then 143 else 191)"

fun rune_len :: "string \<Rightarrow> nat" where
  "rune_len [] = 0"
| "rune_len (b0 # bs) =
     (let n = byte b0 in
      if n < 128 then 1
      else if n < 194 then 0
      else if n < 224 then (case bs of c1 # _ \<Rightarrow> if cont c1 then 2 else 0 | _ \<Rightarrow> 0)
      else if n < 240 then
        (case bs of c1 # c2 # _ \<Rightarrow> if second_ok n c1 \<and> cont c2 then 3 else 0 | _ \<Rightarrow> 0)
      else if n < 245 then
        (case bs of c1 # c2 # c3 # _ \<Rightarrow> if second_ok n c1 \<and> cont c2 \<and> cont c3 then 4 else 0 | _ \<Rightarrow> 0)
      else 0)"

lemma rune_len_le: "rune_len s \<le> length s"
  by (cases s) (auto simp: Let_def split: list.split)

lemma rune_len_append: "0 < rune_len s \<Longrightarrow> rune_len (take (rune_len s) s @ t) = rune_len s"
  by (cases s) (auto simp: Let_def split: list.splits if_splits)

lemma rune_len_ascii [simp]: "byte c < 128 \<Longrightarrow> rune_len (c # t) = 1"
  by (simp add: Let_def)

declare rune_len.simps(2) [simp del]

text \<open>\<open>utf8.EncodeRune\<close> (for values that are no surrogates).\<close>

definition encode_rune :: "nat \<Rightarrow> string" where
  "encode_rune r =
     (if r < 128 then [chr r]
      else if r < 2048 then [chr (192 + r div 64), chr (128 + r mod 64)]
      else if r < 65536 then
        [chr (224 + r div 4096), chr (128 + r div 64 mod 64), chr (128 + r mod 64)]
      else [chr (240 + r div 262144), chr (128 + r div 4096 mod 64),
            chr (128 + r div 64 mod 64), chr (128 + r mod 64)])"

definition replacement :: string where
  "replacement = encode_rune 65533"

text \<open>Every byte that is not part of a valid encoding replaced by U+FFFD.\<close>

function to_valid_utf8 :: "string \<Rightarrow> string" where
  "to_valid_utf8 s =
     (if s = [] then []
      else if rune_len s = 0 then replacement @ to_valid_utf8 (drop 1 s)
      else take (rune_len s) s @ to_valid_utf8 (drop (rune_len s) s))"
  by pat_completeness auto
termination
  by (relation "measure length") auto

declare to_valid_utf8.simps [simp del]

function valid_utf8 :: "string \<Rightarrow> bool" where
  "valid_utf8 s =
     (if s = [] then True
      else if rune_len s = 0 then False
      else valid_utf8 (drop (rune_len s) s))"
  by pat_completeness auto
termination
  by (relation "measure length") auto

declare valid_utf8.simps [simp del]

lemma to_valid_utf8_Nil [simp]: "to_valid_utf8 [] = []"
  by (simp add: to_valid_utf8.simps)

lemma to_valid_utf8_id: "valid_utf8 s \<Longrightarrow> to_valid_utf8 s = s"
proof (induction s rule: valid_utf8.induct)
  case (1 s)
  show ?case
  proof (cases "s = []")
    case False
    with 1 have "0 < rune_len s" and "to_valid_utf8 (drop (rune_len s) s) = drop (rune_len s) s"
      by (auto simp: valid_utf8.simps [of s] split: if_splits)
    with False show ?thesis
      by (subst to_valid_utf8.simps) simp
  qed simp
qed

definition ascii :: "string \<Rightarrow> bool" where
  "ascii s \<longleftrightarrow> (\<forall>c \<in> set s. byte c < 128)"

lemma valid_utf8_ascii: "ascii s \<Longrightarrow> valid_utf8 s"
proof (induction s)
  case Nil
  then show ?case by (simp add: valid_utf8.simps)
next
  case (Cons c s)
  then show ?case
    by (subst valid_utf8.simps) (auto simp: ascii_def)
qed

section \<open>String literals\<close>

definition hex_digits :: string where
  "hex_digits = ''0123456789abcdef''"

definition hex :: "nat \<Rightarrow> char" where
  "hex n = hex_digits ! n"

text \<open>One ASCII byte of \<open>appendString\<close>, HTML escaping on.\<close>

definition escape_byte :: "char \<Rightarrow> string" where
  "escape_byte c =
     (if c = CHR 0x22 \<or> c = CHR 0x5C then [CHR 0x5C, c]
      else if c = CHR 0x08 then [CHR 0x5C, CHR ''b'']
      else if c = CHR 0x0C then [CHR 0x5C, CHR ''f'']
      else if c = CHR 0x0A then [CHR 0x5C, CHR ''n'']
      else if c = CHR 0x0D then [CHR 0x5C, CHR ''r'']
      else if c = CHR 0x09 then [CHR 0x5C, CHR ''t'']
      else if byte c < 32 \<or> c = CHR ''<'' \<or> c = CHR ''>'' \<or> c = CHR ''&'' then
        [CHR 0x5C, CHR ''u'', CHR ''0'', CHR ''0'', hex (byte c div 16), hex (byte c mod 16)]
      else [c])"

function quote_body :: "string \<Rightarrow> string" where
  "quote_body s =
     (if s = [] then []
      else if byte (hd s) < 128 then escape_byte (hd s) @ quote_body (tl s)
      else if rune_len s = 0 then CHR 0x5C # ''ufffd'' @ quote_body (tl s)
      else if take (rune_len s) s = encode_rune 0x2028 then CHR 0x5C # ''u2028'' @ quote_body (drop (rune_len s) s)
      else if take (rune_len s) s = encode_rune 0x2029 then CHR 0x5C # ''u2029'' @ quote_body (drop (rune_len s) s)
      else take (rune_len s) s @ quote_body (drop (rune_len s) s))"
  by pat_completeness auto
termination
  by (relation "measure length") auto

declare quote_body.simps [simp del]

definition quote :: "string \<Rightarrow> string" where
  "quote s = CHR 0x22 # quote_body s @ [CHR 0x22]"

definition unhex :: "char \<Rightarrow> nat option" where
  "unhex c =
     (let n = byte c in
      if 48 \<le> n \<and> n \<le> 57 then Some (n - 48)
      else if 97 \<le> n \<and> n \<le> 102 then Some (n - 87)
      else if 65 \<le> n \<and> n \<le> 70 then Some (n - 55)
      else None)"

text \<open>\<open>getu4\<close>: the value of the four hexadecimal digits after \<open>\u\<close>.\<close>

fun unhex4 :: "string \<Rightarrow> nat option" where
  "unhex4 (a # b # c # d # _) =
     (case (unhex a, unhex b, unhex c, unhex d) of
        (Some w, Some x, Some y, Some z) \<Rightarrow> Some (4096 * w + 256 * x + 16 * y + z)
      | _ \<Rightarrow> None)"
| "unhex4 _ = None"

definition getu4 :: "string \<Rightarrow> nat option" where
  "getu4 s = (if take 2 s = [CHR 0x5C, CHR ''u''] then unhex4 (drop 2 s) else None)"

definition surrogate :: "nat \<Rightarrow> bool" where
  "surrogate r \<longleftrightarrow> 0xD800 \<le> r \<and> r < 0xE000"

text \<open>\<open>utf16.DecodeRune\<close>; \<open>None\<close> for the replacement character.\<close>

definition utf16_pair :: "nat \<Rightarrow> nat option \<Rightarrow> nat option" where
  "utf16_pair r1 r2 =
     (case r2 of
        Some r \<Rightarrow> if 0xD800 \<le> r1 \<and> r1 < 0xDC00 \<and> 0xDC00 \<le> r \<and> r < 0xE000
                 then Some ((r1 - 0xD800) * 1024 + (r - 0xDC00) + 0x10000) else None
      | None \<Rightarrow> None)"

definition simple_escape :: "char \<Rightarrow> string option" where
  "simple_escape c =
     (if c = CHR 0x22 \<or> c = CHR 0x5C \<or> c = CHR ''/'' then Some [c]
      else if c = CHR ''b'' then Some [CHR 0x08]
      else if c = CHR ''f'' then Some [CHR 0x0C]
      else if c = CHR ''n'' then Some [CHR 0x0A]
      else if c = CHR ''r'' then Some [CHR 0x0D]
      else if c = CHR ''t'' then Some [CHR 0x09]
      else None)"

text \<open>
  \<open>unquote\<close>, on the bytes between the quotes; \<open>None\<close> for a control character, a bare
  quote or an escape the scanner does not accept.
\<close>

function unquote :: "string \<Rightarrow> string option" where
  "unquote s =
     (if s = [] then Some []
      else if hd s = CHR 0x5C then
        (if tl s = [] then None
         else case simple_escape (hd (tl s)) of
           Some e \<Rightarrow> map_option ((@) e) (unquote (drop 2 s))
         | None \<Rightarrow>
             (case getu4 s of
                None \<Rightarrow> None
              | Some r \<Rightarrow>
                  if surrogate r then
                    (case utf16_pair r (getu4 (drop 6 s)) of
                       Some r' \<Rightarrow> map_option ((@) (encode_rune r')) (unquote (drop 12 s))
                     | None \<Rightarrow> map_option ((@) replacement) (unquote (drop 6 s)))
                  else map_option ((@) (encode_rune r)) (unquote (drop 6 s))))
      else if hd s = CHR 0x22 \<or> byte (hd s) < 32 then None
      else if rune_len s = 0 then map_option ((@) replacement) (unquote (drop 1 s))
      else map_option ((@) (take (rune_len s) s)) (unquote (drop (rune_len s) s)))"
  by pat_completeness auto
termination
  by (relation "measure length") auto

declare unquote.simps [simp del]

section \<open>Quoting is undone by unquoting\<close>

lemma unquote_Nil [simp]: "unquote [] = Some []"
  by (simp add: unquote.simps)

lemma unhex_hex: "n < 16 \<Longrightarrow> unhex (hex n) = Some n"
proof -
  assume "n < 16"
  then have "n \<in> set [0..<16]" by simp
  moreover have "\<forall>k \<in> set [0..<16]. unhex (hex k) = Some k"
    by (simp add: upt_rec hex_def hex_digits_def unhex_def byte_def Let_def)
  ultimately show ?thesis by blast
qed

lemma unhex_0: "unhex (CHR ''0'') = Some 0"
  by (simp add: unhex_def byte_def)

lemma getu4_byte:
  assumes "n < 256"
  shows "getu4 (CHR 0x5C # CHR ''u'' # CHR ''0'' # CHR ''0'' # hex (n div 16) # hex (n mod 16) # t) = Some n"
proof -
  have "n div 16 < 16" and "n mod 16 < 16" using assms by auto
  then have "unhex (hex (n div 16)) = Some (n div 16)" and "unhex (hex (n mod 16)) = Some (n mod 16)"
    by (simp_all add: unhex_hex)
  then show ?thesis
    by (simp add: getu4_def numeral_2_eq_2 unhex_0)
qed

lemma simple_escape_u [simp]: "simple_escape (CHR ''u'') = None"
  by (simp add: simple_escape_def)

lemma append_single: "(@) [c] = (#) c"
  by (simp add: fun_eq_iff)

lemma unquote_u:
  assumes "getu4 (CHR 0x5C # CHR ''u'' # s) = Some r" and "\<not> surrogate r"
  shows "unquote (CHR 0x5C # CHR ''u'' # s) = map_option ((@) (encode_rune r)) (unquote (drop 4 s))"
  using assms by (subst unquote.simps) simp

lemma encode_rune_byte: "byte c < 128 \<Longrightarrow> encode_rune (byte c) = [c]"
  by (simp add: encode_rune_def)

lemma unquote_plain:
  assumes "32 \<le> byte c" and "byte c < 128" and "c \<noteq> CHR 0x22" and "c \<noteq> CHR 0x5C"
  shows "unquote (c # t) = map_option ((#) c) (unquote t)"
  using assms by (subst unquote.simps) (simp add: append_single)

lemma unquote_simple:
  "simple_escape d = Some e \<Longrightarrow> unquote (CHR 0x5C # d # t) = map_option ((@) e) (unquote t)"
  by (subst unquote.simps) (simp add: numeral_2_eq_2)

lemma escape_byte_shape:
  "(\<exists>d. escape_byte c = [CHR 0x5C, d] \<and> simple_escape d = Some [c]) \<or>
   escape_byte c = [CHR 0x5C, CHR ''u'', CHR ''0'', CHR ''0'', hex (byte c div 16), hex (byte c mod 16)] \<or>
   escape_byte c = [c] \<and> 32 \<le> byte c \<and> c \<noteq> CHR 0x22 \<and> c \<noteq> CHR 0x5C"
proof (cases "c \<in> {CHR 0x22, CHR 0x5C, CHR 0x08, CHR 0x0C, CHR 0x0A, CHR 0x0D, CHR 0x09}")
  case True
  then have "\<exists>d. escape_byte c = [CHR 0x5C, d] \<and> simple_escape d = Some [c]"
    unfolding insert_iff empty_iff simp_thms
    by (elim disjE) (simp_all add: escape_byte_def simple_escape_def)
  then show ?thesis by blast
next
  case False
  let ?esc = "byte c < 32 \<or> c = CHR ''<'' \<or> c = CHR ''>'' \<or> c = CHR ''&''"
  have ne: "c \<noteq> CHR 0x22" "c \<noteq> CHR 0x5C" "c \<noteq> CHR 0x08" "c \<noteq> CHR 0x0C" "c \<noteq> CHR 0x0A"
      "c \<noteq> CHR 0x0D" "c \<noteq> CHR 0x09"
    using False by blast+
  show ?thesis
  proof (cases ?esc)
    case True
    then have "escape_byte c = [CHR 0x5C, CHR ''u'', CHR ''0'', CHR ''0'', hex (byte c div 16), hex (byte c mod 16)]"
      unfolding escape_byte_def by (simp only: ne if_True if_False simp_thms)
    then show ?thesis by blast
  next
    case no_esc: False
    then have "escape_byte c = [c]"
      unfolding escape_byte_def by (simp only: ne if_True if_False simp_thms)
    moreover have "\<not> byte c < 32"
      using no_esc by blast
    ultimately show ?thesis using ne unfolding not_less by blast
  qed
qed

lemma unquote_escape_byte:
  assumes "byte c < 128"
  shows "unquote (escape_byte c @ t) = map_option ((#) c) (unquote t)"
proof -
  consider (simple) d where "escape_byte c = [CHR 0x5C, d]" and "simple_escape d = Some [c]"
    | (hex) "escape_byte c = [CHR 0x5C, CHR ''u'', CHR ''0'', CHR ''0'', hex (byte c div 16), hex (byte c mod 16)]"
    | (plain) "escape_byte c = [c]" and "32 \<le> byte c" and "c \<noteq> CHR 0x22" and "c \<noteq> CHR 0x5C"
    using escape_byte_shape [of c] by blast
  then show ?thesis
  proof cases
    case simple
    then show ?thesis
      by (simp only: append.simps unquote_simple append_single)
  next
    case hex
    have "\<not> surrogate (byte c)" using assms by (simp add: surrogate_def)
    then show ?thesis
      unfolding hex using unquote_u [OF getu4_byte [OF byte_less [of c], of t]] assms
      by (simp add: encode_rune_byte append_single)
  next
    case plain
    then show ?thesis using assms by (simp add: unquote_plain)
  qed
qed

lemma getu4_fffd: "getu4 (CHR 0x5C # ''ufffd'' @ t) = Some 65533"
  by (simp add: getu4_def numeral_2_eq_2 unhex_def byte_def)

lemma getu4_2028: "getu4 (CHR 0x5C # ''u2028'' @ t) = Some 0x2028"
  by (simp add: getu4_def numeral_2_eq_2 unhex_def byte_def)

lemma getu4_2029: "getu4 (CHR 0x5C # ''u2029'' @ t) = Some 0x2029"
  by (simp add: getu4_def numeral_2_eq_2 unhex_def byte_def)

lemma unquote_u_literals:
  "unquote (CHR 0x5C # ''ufffd'' @ t) = map_option ((@) replacement) (unquote t)"
  "unquote (CHR 0x5C # ''u2028'' @ t) = map_option ((@) (encode_rune 0x2028)) (unquote t)"
  "unquote (CHR 0x5C # ''u2029'' @ t) = map_option ((@) (encode_rune 0x2029)) (unquote t)"
  using unquote_u [where s = "''fffd'' @ t"] unquote_u [where s = "''2028'' @ t"]
    unquote_u [where s = "''2029'' @ t"] getu4_fffd [of t] getu4_2028 [of t] getu4_2029 [of t]
  by (simp_all add: surrogate_def replacement_def drop_Cons')

lemma unquote_rune:
  assumes "s \<noteq> []" and "128 \<le> byte (hd s)" and "0 < rune_len s"
  shows "unquote s = map_option ((@) (take (rune_len s) s)) (unquote (drop (rune_len s) s))"
proof -
  have "hd s \<noteq> CHR 0x5C" "hd s \<noteq> CHR 0x22"
    using assms(2) by (auto simp: byte_def)
  with assms show ?thesis
    by (subst unquote.simps) simp
qed

lemma unquote_raw:
  assumes "s \<noteq> []" and "128 \<le> byte (hd s)" and "0 < rune_len s"
  shows "unquote (take (rune_len s) s @ t) = map_option ((@) (take (rune_len s) s)) (unquote t)"
proof -
  let ?u = "take (rune_len s) s"
  have len: "length ?u = rune_len s"
    using rune_len_le [of s] by simp
  have "hd (?u @ t) = hd s" and "?u @ t \<noteq> []"
    using assms by (auto simp: hd_append)
  with assms rune_len_append [OF assms(3), of t] have
    "unquote (?u @ t) = map_option ((@) (take (rune_len s) (?u @ t))) (unquote (drop (rune_len s) (?u @ t)))"
    using unquote_rune [of "?u @ t"] by simp
  with len show ?thesis by simp
qed

lemma unquote_quote_body: "unquote (quote_body s) = Some (to_valid_utf8 s)"
proof (induction s rule: quote_body.induct)
  case (1 s)
  show ?case
  proof (cases s)
    case Nil
    then show ?thesis by (simp add: quote_body.simps)
  next
    case (Cons c t)
    show ?thesis
    proof (cases "byte c < 128")
      case True
      with Cons 1(1) show ?thesis
        by (subst quote_body.simps, subst to_valid_utf8.simps)
          (simp add: unquote_escape_byte)
    next
      case False
      show ?thesis
      proof (cases "rune_len s = 0")
        case True
        with Cons False 1(2) show ?thesis
          by (subst quote_body.simps, subst to_valid_utf8.simps)
            (simp add: unquote_u_literals del: append_Cons)
      next
        case nz: False
        let ?r = "drop (rune_len s) s"
        have IH: "unquote (quote_body ?r) = Some (to_valid_utf8 ?r)"
          using Cons False nz 1(3-5)
          by (cases "take (rune_len s) s = encode_rune 0x2028"; cases "take (rune_len s) s = encode_rune 0x2029") simp_all
        have "unquote (take (rune_len s) s @ quote_body ?r) =
            map_option ((@) (take (rune_len s) s)) (unquote (quote_body ?r))"
          using Cons False nz by (intro unquote_raw) auto
        with Cons False nz IH show ?thesis
          by (subst quote_body.simps, subst to_valid_utf8.simps)
            (auto simp: unquote_u_literals simp del: append_Cons)
      qed
    qed
  qed
qed

section \<open>Documents\<close>

datatype json =
    JNull
  | JBool bool
  | JNum string
  | JStr string
  | JArr "json list"
  | JObj "(string \<times> json) list"

fun join :: "'a list \<Rightarrow> 'a list list \<Rightarrow> 'a list" where
  "join sep [] = []"
| "join sep [x] = x"
| "join sep (x # y # r) = x @ sep @ join sep (y # r)"

text \<open>\<open>json.Marshal\<close> of a value tree.\<close>

fun print_json :: "json \<Rightarrow> string" where
  "print_json JNull = ''null''"
| "print_json (JBool b) = (if b then ''true'' else ''false'')"
| "print_json (JNum n) = n"
| "print_json (JStr s) = quote s"
| "print_json (JArr xs) = ''['' @ join '','' (map print_json xs) @ '']''"
| "print_json (JObj kvs) =
     ''{'' @ join '','' (map (\<lambda>(k, v). quote k @ '':'' @ print_json v) kvs) @ ''}''"

subsection \<open>Tokens\<close>

datatype tok = TLBrace | TRBrace | TLBrack | TRBrack | TColon | TComma | TStr string | TAtom json

definition digit :: "char \<Rightarrow> bool" where
  "digit c \<longleftrightarrow> 48 \<le> byte c \<and> byte c \<le> 57"

definition exponent_ok :: "string \<Rightarrow> bool" where
  "exponent_ok s \<longleftrightarrow>
     s = [] \<or>
     (hd s = CHR ''e'' \<or> hd s = CHR ''E'') \<and>
     (let t = tl s; u = (if t \<noteq> [] \<and> (hd t = CHR ''+'' \<or> hd t = CHR ''-'') then tl t else t)
      in u \<noteq> [] \<and> list_all digit u)"

definition fraction_ok :: "string \<Rightarrow> bool" where
  "fraction_ok s \<longleftrightarrow>
     (if s \<noteq> [] \<and> hd s = CHR ''.'' then
        takeWhile digit (tl s) \<noteq> [] \<and> exponent_ok (dropWhile digit (tl s))
      else exponent_ok s)"

definition valid_number :: "string \<Rightarrow> bool" where
  "valid_number s \<longleftrightarrow>
     (let t = (if s \<noteq> [] \<and> hd s = CHR ''-'' then tl s else s) in
      t \<noteq> [] \<and> digit (hd t) \<and>
      (if hd t = CHR ''0'' then fraction_ok (tl t) else fraction_ok (dropWhile digit t)))"

text \<open>Literals and numbers are runs of these characters.\<close>

definition run_char :: "char \<Rightarrow> bool" where
  "run_char c \<longleftrightarrow>
     digit c \<or> 97 \<le> byte c \<and> byte c \<le> 122 \<or> 65 \<le> byte c \<and> byte c \<le> 90 \<or>
     c = CHR ''+'' \<or> c = CHR ''-'' \<or> c = CHR ''.''"

definition classify :: "string \<Rightarrow> tok option" where
  "classify w =
     (if w = ''true'' then Some (TAtom (JBool True))
      else if w = ''false'' then Some (TAtom (JBool False))
      else if w = ''null'' then Some (TAtom JNull)
      else if valid_number w then Some (TAtom (JNum w))
      else None)"

definition space_char :: "char \<Rightarrow> bool" where
  "space_char c \<longleftrightarrow> c = CHR '' '' \<or> c = CHR 0x09 \<or> c = CHR 0x0A \<or> c = CHR 0x0D"

definition punct :: "char \<Rightarrow> tok option" where
  "punct c =
     (if c = CHR ''{'' then Some TLBrace else if c = CHR ''}'' then Some TRBrace
      else if c = CHR ''['' then Some TLBrack else if c = CHR '']'' then Some TRBrack
      else if c = CHR '':'' then Some TColon else if c = CHR '','' then Some TComma
      else None)"

datatype lex_mode = LTop | LStr string | LEsc string | LRun string

function lex :: "lex_mode \<Rightarrow> string \<Rightarrow> tok list option" where
  "lex LTop [] = Some []"
| "lex (LStr raw) [] = None"
| "lex (LEsc raw) [] = None"
| "lex (LRun w) [] = map_option (\<lambda>t. [t]) (classify w)"
| "lex LTop (c # cs) =
     (if space_char c then lex LTop cs
      else if c = CHR 0x22 then lex (LStr []) cs
      else if run_char c then lex (LRun [c]) cs
      else case punct c of None \<Rightarrow> None | Some t \<Rightarrow> map_option ((#) t) (lex LTop cs))"
| "lex (LStr raw) (c # cs) =
     (if c = CHR 0x22 then
        (case unquote raw of None \<Rightarrow> None | Some s \<Rightarrow> map_option ((#) (TStr s)) (lex LTop cs))
      else if c = CHR 0x5C then lex (LEsc (raw @ [c])) cs
      else lex (LStr (raw @ [c])) cs)"
| "lex (LEsc raw) (c # cs) = lex (LStr (raw @ [c])) cs"
| "lex (LRun w) (c # cs) =
     (if run_char c then lex (LRun (w @ [c])) cs
      else case classify w of None \<Rightarrow> None | Some t \<Rightarrow> map_option ((#) t) (lex LTop (c # cs)))"
  by pat_completeness auto
termination
  by (relation "measure (\<lambda>(m, s). 2 * length s + (case m of LRun _ \<Rightarrow> 1 | _ \<Rightarrow> 0))") auto

subsection \<open>The parser\<close>

text \<open>The open containers, innermost first, and what the scanner expects next.\<close>

datatype frame = FArr "json list" | FObj "(string \<times> json) list" | FKey string "(string \<times> json) list"

datatype conf =
    Expect "frame list"
  | ExpectOrEnd "frame list"
  | KeyOrEnd "frame list"
  | Key "frame list"
  | Colon "frame list"
  | After "frame list"
  | Done json

definition max_depth :: nat where
  "max_depth = 10000"

fun complete :: "json \<Rightarrow> frame list \<Rightarrow> conf option" where
  "complete v [] = Some (Done v)"
| "complete v (FArr xs # st) = Some (After (FArr (xs @ [v]) # st))"
| "complete v (FKey k kvs # st) = Some (After (FObj (kvs @ [(k, v)]) # st))"
| "complete v (FObj _ # st) = None"

fun value_tok :: "frame list \<Rightarrow> tok \<Rightarrow> conf option" where
  "value_tok st (TStr s) = complete (JStr s) st"
| "value_tok st (TAtom v) = complete v st"
| "value_tok st TLBrace = (if length st < max_depth then Some (KeyOrEnd (FObj [] # st)) else None)"
| "value_tok st TLBrack = (if length st < max_depth then Some (ExpectOrEnd (FArr [] # st)) else None)"
| "value_tok st _ = None"

fun key_tok :: "frame list \<Rightarrow> tok \<Rightarrow> conf option" where
  "key_tok (FObj kvs # st) (TStr k) = Some (Colon (FKey k kvs # st))"
| "key_tok _ _ = None"

fun parse_step :: "conf \<Rightarrow> tok \<Rightarrow> conf option" where
  "parse_step (Expect st) t = value_tok st t"
| "parse_step (ExpectOrEnd (FArr xs # st)) TRBrack = complete (JArr xs) st"
| "parse_step (ExpectOrEnd st) t = value_tok st t"
| "parse_step (KeyOrEnd (FObj kvs # st)) TRBrace = complete (JObj kvs) st"
| "parse_step (KeyOrEnd st) t = key_tok st t"
| "parse_step (Key st) t = key_tok st t"
| "parse_step (Colon st) TColon = Some (Expect st)"
| "parse_step (After (FArr xs # st)) TComma = Some (Expect (FArr xs # st))"
| "parse_step (After (FArr xs # st)) TRBrack = complete (JArr xs) st"
| "parse_step (After (FObj kvs # st)) TComma = Some (Key (FObj kvs # st))"
| "parse_step (After (FObj kvs # st)) TRBrace = complete (JObj kvs) st"
| "parse_step _ _ = None"

fun parse_run :: "conf \<Rightarrow> tok list \<Rightarrow> conf option" where
  "parse_run c [] = Some c"
| "parse_run c (t # ts) = (case parse_step c t of None \<Rightarrow> None | Some c' \<Rightarrow> parse_run c' ts)"

definition parse_json :: "string \<Rightarrow> json option" where
  "parse_json s =
     (case lex LTop s of
        None \<Rightarrow> None
      | Some ts \<Rightarrow> (case parse_run (Expect []) ts of Some (Done v) \<Rightarrow> Some v | _ \<Rightarrow> None))"

end
