(* ===== verification/JsonRoundtrip.thy ===== *)
theory JsonRoundtrip
  imports Json
begin

text \<open>
  Reading what \<open>print_json\<close> wrote gives the value back: quoted strings are lexed as one
  token, a printed document as the tokens of its value, and the parser rebuilds the value from
  them.  Invalid UTF-8 comes back replaced (\<open>valid_json\<close>), so valid strings come back as
  they were.  A printed document also holds no control character, hence no newline: one document
  per line is a framing that cannot break.
\<close>

section \<open>Lexing a quoted string\<close>

definition str_closed :: "string \<Rightarrow> bool" where
  "str_closed b \<longleftrightarrow> (\<forall>acc rest. lex (LStr acc) (b @ rest) = lex (LStr (acc @ b)) rest)"

lemma str_closed_Nil [simp]: "str_closed []"
  by (simp add: str_closed_def)

lemma str_closed_append: "str_closed a \<Longrightarrow> str_closed b \<Longrightarrow> str_closed (a @ b)"
  by (simp add: str_closed_def)

lemma str_closed_single: "c \<noteq> CHR 0x22 \<Longrightarrow> c \<noteq> CHR 0x5C \<Longrightarrow> str_closed [c]"
  by (simp add: str_closed_def)

lemma str_closed_esc: "str_closed [CHR 0x5C, d]"
  by (simp add: str_closed_def)

lemma str_closed_plain: "(\<forall>c \<in> set b. c \<noteq> CHR 0x22 \<and> c \<noteq> CHR 0x5C) \<Longrightarrow> str_closed b"
proof (induction b)
  case (Cons c b)
  then have "str_closed ([c] @ b)"
    by (intro str_closed_append str_closed_single) auto
  then show ?case by simp
qed simp

lemma hex_plain: "n < 16 \<Longrightarrow> hex n \<noteq> CHR 0x22 \<and> hex n \<noteq> CHR 0x5C \<and> 32 \<le> byte (hex n)"
proof -
  assume "n < 16"
  then have "n \<in> set [0..<16]" by simp
  moreover have "\<forall>k \<in> set [0..<16]. hex k \<noteq> CHR 0x22 \<and> hex k \<noteq> CHR 0x5C \<and> 32 \<le> byte (hex k)"
    by (simp add: upt_rec hex_def hex_digits_def byte_def)
  ultimately show ?thesis by blast
qed

lemma byte_hex_nibbles: "byte c div 16 < 16" "byte c mod 16 < 16"
  using byte_less [of c] by (simp_all add: div_less_iff_less_mult del: byte_less)

lemma str_closed_escape_byte: "str_closed (escape_byte c)"
  using escape_byte_shape [of c]
proof (elim disjE exE conjE)
  assume e: "escape_byte c = [CHR 0x5C, CHR ''u'', CHR ''0'', CHR ''0'', hex (byte c div 16), hex (byte c mod 16)]"
  have "str_closed ([CHR 0x5C, CHR ''u''] @ [CHR ''0'', CHR ''0'', hex (byte c div 16), hex (byte c mod 16)])"
    using hex_plain [OF byte_hex_nibbles(1)] hex_plain [OF byte_hex_nibbles(2)]
    by (intro str_closed_append str_closed_esc str_closed_plain) auto
  then show ?thesis by (simp add: e)
qed (simp_all add: str_closed_esc str_closed_single)

lemma rune_bytes_all:
  assumes "128 \<le> byte b"
  shows "list_all (\<lambda>c. 128 \<le> byte c) (take (rune_len (b # bs)) (b # bs))"
proof -
  have ok: "second_ok n c \<Longrightarrow> 128 \<le> byte c" for n c
    by (simp add: second_ok_def split: if_splits)
  consider "byte b < 194" | "194 \<le> byte b" "byte b < 224" | "224 \<le> byte b" "byte b < 240"
    | "240 \<le> byte b" "byte b < 245" | "245 \<le> byte b"
    by linarith
  then show ?thesis
  proof cases
    case 2
    with assms show ?thesis
      by (cases bs) (simp_all add: rune_len.simps(2) Let_def cont_def)
  next
    case 3
    with assms ok [of "byte b"] show ?thesis
      by (cases bs; cases "tl bs") (simp_all add: rune_len.simps(2) Let_def cont_def)
  next
    case 4
    with assms ok [of "byte b"] show ?thesis
      by (cases bs; cases "tl bs"; cases "tl (tl bs)") (simp_all add: rune_len.simps(2) Let_def cont_def)
  qed (use assms in \<open>simp_all add: rune_len.simps(2) Let_def\<close>)
qed

lemma rune_bytes:
  assumes "128 \<le> byte (hd s)" and "c \<in> set (take (rune_len s) s)"
  shows "128 \<le> byte c"
proof (cases s)
  case (Cons b bs)
  with assms rune_bytes_all [of b bs] show ?thesis by (simp add: list_all_iff)
qed (use assms in simp)

lemma not_special: "32 \<le> byte c \<Longrightarrow> 128 \<le> byte c \<Longrightarrow> c \<noteq> CHR 0x22 \<and> c \<noteq> CHR 0x5C"
  by (auto simp: byte_def)

lemma quote_body_induct [case_names Nil Ascii Bad Rune]:
  assumes "P []"
    and "\<And>c s. byte c < 128 \<Longrightarrow> P s \<Longrightarrow> P (c # s)"
    and "\<And>c s. 128 \<le> byte c \<Longrightarrow> rune_len (c # s) = 0 \<Longrightarrow> P s \<Longrightarrow> P (c # s)"
    and "\<And>s. s \<noteq> [] \<Longrightarrow> 128 \<le> byte (hd s) \<Longrightarrow> 0 < rune_len s \<Longrightarrow> P (drop (rune_len s) s) \<Longrightarrow> P s"
  shows "P s"
proof (induction s rule: length_induct)
  case (1 s)
  show ?case
  proof (cases s)
    case Nil
    then show ?thesis using assms(1) by simp
  next
    case (Cons c t)
    consider "byte c < 128" | "128 \<le> byte c" "rune_len s = 0" | "128 \<le> byte c" "0 < rune_len s"
      by linarith
    then show ?thesis
      by cases (use 1 Cons assms(2-4) in \<open>auto\<close>)
  qed
qed

lemma quote_body_simps:
  "quote_body [] = []"
  "byte c < 128 \<Longrightarrow> quote_body (c # s) = escape_byte c @ quote_body s"
  "128 \<le> byte c \<Longrightarrow> rune_len (c # s) = 0 \<Longrightarrow> quote_body (c # s) = CHR 0x5C # ''ufffd'' @ quote_body s"
  by (subst quote_body.simps; simp)+

lemma quote_body_rune:
  assumes "s \<noteq> []" and "128 \<le> byte (hd s)" and "0 < rune_len s"
  shows "quote_body s =
    (if take (rune_len s) s = encode_rune 0x2028 then CHR 0x5C # ''u2028''
     else if take (rune_len s) s = encode_rune 0x2029 then CHR 0x5C # ''u2029''
     else take (rune_len s) s) @ quote_body (drop (rune_len s) s)"
  using assms by (subst quote_body.simps) simp

lemma str_closed_u: "str_closed (CHR 0x5C # ''ufffd'')" "str_closed (CHR 0x5C # ''u2028'')"
  "str_closed (CHR 0x5C # ''u2029'')"
  using str_closed_append [OF str_closed_esc [of "CHR ''u''"] str_closed_plain] by force+

lemma str_closed_quote_body: "str_closed (quote_body s)"
proof (induction s rule: quote_body_induct)
  case Nil
  then show ?case by (simp add: quote_body_simps)
next
  case (Ascii c s)
  then show ?case by (simp add: quote_body_simps str_closed_append str_closed_escape_byte)
next
  case (Bad c s)
  then show ?case
    using str_closed_append [OF str_closed_u(1)] by (simp add: quote_body_simps)
next
  case (Rune s)
  have "c \<noteq> CHR 0x22 \<and> c \<noteq> CHR 0x5C" if "c \<in> set (take (rune_len s) s)" for c
    using rune_bytes [OF Rune(2) that] not_special [of c] by simp
  then have "str_closed (take (rune_len s) s)"
    by (intro str_closed_plain) blast
  then show ?case
    unfolding quote_body_rune [OF Rune(1-3)]
    using str_closed_u(2,3) by (intro str_closed_append Rune.IH) simp
qed

lemma lex_quote:
  "lex LTop (quote s @ rest) = map_option ((#) (TStr (to_valid_utf8 s))) (lex LTop rest)"
proof -
  have "lex LTop (quote s @ rest) = lex (LStr []) (quote_body s @ CHR 0x22 # rest)"
    by (simp add: quote_def space_char_def)
  also have "\<dots> = lex (LStr (quote_body s)) (CHR 0x22 # rest)"
    using str_closed_quote_body [of s] unfolding str_closed_def by (metis append_Nil)
  finally show ?thesis
    by (simp add: unquote_quote_body)
qed

section \<open>Printed documents have no control characters\<close>

definition printable :: "string \<Rightarrow> bool" where
  "printable s \<longleftrightarrow> (\<forall>c \<in> set s. 32 \<le> byte c)"

lemma printable_simps [simp]:
  "printable []"
  "printable (c # s) \<longleftrightarrow> 32 \<le> byte c \<and> printable s"
  "printable (s @ t) \<longleftrightarrow> printable s \<and> printable t"
  by (auto simp: printable_def)

lemma printable_escape_byte: "printable (escape_byte c)"
  using escape_byte_shape [of c]
proof (elim disjE exE conjE)
  fix d
  assume "escape_byte c = [CHR 0x5C, d]" and d: "simple_escape d = Some [c]"
  moreover have "32 \<le> byte d"
    using d by (auto simp: simple_escape_def byte_def split: if_splits)
  ultimately show ?thesis by (simp add: byte_def)
qed (simp_all add: byte_def [of "CHR ''0''"] byte_def [of "CHR ''u''"] byte_def [of "CHR 0x5C"]
      hex_plain byte_hex_nibbles)

lemma printable_quote: "printable (quote s)"
proof -
  have "printable (quote_body s)"
  proof (induction s rule: quote_body_induct)
    case (Rune s)
    have "printable (take (rune_len s) s)"
      using rune_bytes [OF Rune(2)] by (fastforce simp: printable_def)
    with Rune show ?case
      unfolding quote_body_rune [OF Rune(1-3)] by (simp add: byte_def)
  qed (simp_all add: quote_body_simps printable_escape_byte byte_def [of "CHR ''u''"]
      byte_def [of "CHR 0x5C"] byte_def [of "CHR ''f''"] byte_def [of "CHR ''d''"])
  then show ?thesis by (simp add: quote_def byte_def)
qed

lemma printable_join: "printable sep \<Longrightarrow> \<forall>x \<in> set xs. printable x \<Longrightarrow> printable (join sep xs)"
  by (induction sep xs rule: join.induct) auto

text \<open>Number literals are valid ones everywhere in the value.\<close>

fun num_ok :: "json \<Rightarrow> bool" where
  "num_ok (JNum n) \<longleftrightarrow> valid_number n \<and> list_all run_char n"
| "num_ok (JArr xs) \<longleftrightarrow> list_all num_ok xs"
| "num_ok (JObj kvs) \<longleftrightarrow> list_all (\<lambda>(k, v). num_ok v) kvs"
| "num_ok _ \<longleftrightarrow> True"

lemma printable_run: "list_all run_char n \<Longrightarrow> printable n"
  by (induction n) (auto simp: run_char_def digit_def byte_def)

lemma printable_json: "num_ok j \<Longrightarrow> printable (print_json j)"
proof (induction j rule: print_json.induct)
  case (5 xs)
  then show ?case
    by (auto simp: list_all_iff byte_def intro!: printable_join)
next
  case (6 kvs)
  then show ?case
    by (force simp: list_all_iff byte_def printable_quote intro!: printable_join)
qed (auto simp: printable_quote printable_run byte_def)

section \<open>Lexing a printed document\<close>

fun toks :: "json \<Rightarrow> tok list" where
  "toks (JStr s) = [TStr (to_valid_utf8 s)]"
| "toks (JArr xs) = TLBrack # join [TComma] (map toks xs) @ [TRBrack]"
| "toks (JObj kvs) =
     TLBrace # join [TComma] (map (\<lambda>(k, v). [TStr (to_valid_utf8 k), TColon] @ toks v) kvs) @ [TRBrace]"
| "toks j = [TAtom j]"

definition delim :: "string \<Rightarrow> bool" where
  "delim s \<longleftrightarrow> s = [] \<or> \<not> run_char (hd s)"

lemma delim_simps [simp]:
  "delim []" "delim (CHR '','' # s)" "delim (CHR '']'' # s)" "delim (CHR ''}'' # s)" "delim (CHR 0x0A # s)"
  by (simp_all add: delim_def run_char_def digit_def byte_def)

definition lexes :: "string \<Rightarrow> tok list \<Rightarrow> bool" where
  "lexes s ts \<longleftrightarrow> (\<forall>rest. delim rest \<longrightarrow> lex LTop (s @ rest) = map_option ((@) ts) (lex LTop rest))"

lemma run_char_plain: "run_char c \<Longrightarrow> \<not> space_char c \<and> c \<noteq> CHR 0x22"
proof -
  assume r: "run_char c"
  have "c \<noteq> d" if "\<not> run_char d" for d
    using r that by blast
  then show ?thesis
    unfolding space_char_def by (simp add: run_char_def digit_def byte_def)
qed

lemma append_funs: "(@) (a # b) = (\<lambda>x. a # b @ x)" "(@) (p @ q) = (\<lambda>x. p @ q @ x)"
  "(@) [] = (\<lambda>x. x)"
  by (simp_all add: fun_eq_iff)

lemma lex_run:
  "list_all run_char w \<Longrightarrow> delim rest \<Longrightarrow> lex (LRun a) (w @ rest) =
     (case classify (a @ w) of None \<Rightarrow> None | Some t \<Rightarrow> map_option ((#) t) (lex LTop rest))"
proof (induction w arbitrary: a)
  case Nil
  then show ?case
    by (cases rest) (auto simp: delim_def split: option.split)
qed simp

lemma lexes_run:
  assumes "list_all run_char w" and "classify w = Some t"
  shows "lexes w [t]"
proof -
  have "w \<noteq> []"
    using assms(2) by (intro notI) (simp add: classify_def valid_number_def)
  then obtain c w' where w: "w = c # w'" by (cases w) blast+
  then have c: "run_char c" and w': "list_all run_char w'"
    using assms(1) by simp_all
  have top: "lex LTop (c # cs) = lex (LRun [c]) cs" for cs
    using c run_char_plain [OF c] by simp
  have "lex LTop (w @ rest) = map_option ((@) [t]) (lex LTop rest)" if "delim rest" for rest
    using lex_run [OF w' that, of "[c]"] assms(2)
    by (simp only: w append_Cons append_Nil top option.case append_funs)
  then show ?thesis unfolding lexes_def by blast
qed

lemma lexes_quote: "lexes (quote s) [TStr (to_valid_utf8 s)]"
  by (simp only: lexes_def lex_quote append_funs append_Nil simp_thms)

lemma lexes_punct:
  assumes "punct c = Some t"
  shows "lex LTop (c # rest) = map_option ((#) t) (lex LTop rest)"
proof -
  have "c \<in> {CHR ''{'', CHR ''}'', CHR ''['', CHR '']'', CHR '':'', CHR '',''}"
    using assms unfolding punct_def insert_iff empty_iff simp_thms by (rule contrapos_pp) simp
  then have "\<not> space_char c \<and> c \<noteq> CHR 0x22 \<and> \<not> run_char c"
    unfolding insert_iff empty_iff simp_thms
    by (elim disjE; hypsubst) (simp_all add: space_char_def run_char_def digit_def byte_def)
  with assms show ?thesis by simp
qed

lemma punct_simps [simp]:
  "punct (CHR ''{'') = Some TLBrace" "punct (CHR ''}'') = Some TRBrace"
  "punct (CHR ''['') = Some TLBrack" "punct (CHR '']'') = Some TRBrack"
  "punct (CHR '':'') = Some TColon" "punct (CHR '','') = Some TComma"
  by (simp_all add: punct_def)

lemma lexes_join:
  assumes "\<forall>x \<in> set xs. lexes (p x) (t x)"
  shows "lexes (join '','' (map p xs)) (join [TComma] (map t xs))"
  using assms
proof (induction xs rule: induct_list012)
  case (3 x y r)
  have x: "lexes (p x) (t x)" and r: "lexes (join '','' (map p (y # r))) (join [TComma] (map t (y # r)))"
    using 3 by simp_all
  show ?case
    unfolding lexes_def
  proof (intro allI impI)
    fix rest assume "delim rest"
    with x r show "lex LTop (join '','' (map p (x # y # r)) @ rest) =
        map_option ((@) (join [TComma] (map t (x # y # r)))) (lex LTop rest)"
      by (simp add: lexes_def lexes_punct option.map_comp comp_def append_funs del: lex.simps)
  qed
qed (simp_all add: lexes_def append_funs option.map_ident)

lemma lexes_bracket:
  assumes "punct a = Some ta" and "punct b = Some tb" and "lexes s ts" and "\<not> run_char b"
  shows "lexes (a # s @ [b]) (ta # ts @ [tb])"
  using assms(3,4) lexes_punct [OF assms(1)] lexes_punct [OF assms(2)]
  by (simp add: lexes_def delim_def option.map_comp comp_def append_funs del: lex.simps)

lemma lexes_member:
  assumes "lexes v ts"
  shows "lexes (quote k @ '':'' @ v) ([TStr (to_valid_utf8 k), TColon] @ ts)"
  using assms
  by (simp add: lexes_def lex_quote lexes_punct option.map_comp comp_def append_funs del: lex.simps)

lemma classify_num: "valid_number n \<Longrightarrow> classify n = Some (TAtom (JNum n))"
  by (auto simp: classify_def valid_number_def digit_def byte_def)

lemma lexes_print: "num_ok j \<Longrightarrow> lexes (print_json j) (toks j)"
proof (induction j rule: print_json.induct)
  case 1
  then show ?case
    by (simp add: lexes_run run_char_def digit_def byte_def classify_def)
next
  case (2 b)
  then show ?case
    by (simp add: lexes_run run_char_def digit_def byte_def classify_def)
next
  case (3 n)
  then show ?case by (simp add: lexes_run classify_num)
next
  case (4 s)
  then show ?case by (simp add: lexes_quote)
next
  case (5 xs)
  have "lexes (join '','' (map print_json xs)) (join [TComma] (map toks xs))"
    using 5 by (intro lexes_join) (simp add: list_all_iff)
  from lexes_bracket [OF punct_simps(3,4) this] show ?case
    by (simp add: run_char_def digit_def byte_def)
next
  case (6 kvs)
  have "lexes (join '','' (map (\<lambda>(k, v). quote k @ '':'' @ print_json v) kvs))
      (join [TComma] (map (\<lambda>(k, v). [TStr (to_valid_utf8 k), TColon] @ toks v) kvs))"
  proof (intro lexes_join ballI)
    fix m assume m: "m \<in> set kvs"
    obtain k v where kv: "m = (k, v)" by (cases m)
    with 6 m have "lexes (print_json v) (toks v)" by (auto simp: list_all_iff)
    from lexes_member [OF this] show "lexes (case m of (k, v) \<Rightarrow> quote k @ '':'' @ print_json v)
        (case m of (k, v) \<Rightarrow> [TStr (to_valid_utf8 k), TColon] @ toks v)"
      by (simp add: kv)
  qed
  from lexes_bracket [OF punct_simps(1,2) this] show ?case
    by (simp add: run_char_def digit_def byte_def)
qed

section \<open>Parsing the tokens of a value\<close>

fun utf8_json :: "json \<Rightarrow> json" where
  "utf8_json (JStr s) = JStr (to_valid_utf8 s)"
| "utf8_json (JArr xs) = JArr (map utf8_json xs)"
| "utf8_json (JObj kvs) = JObj (map (\<lambda>(k, v). (to_valid_utf8 k, utf8_json v)) kvs)"
| "utf8_json j = j"

fun depth :: "json \<Rightarrow> nat" where
  "depth (JArr xs) = Suc (foldr max (map depth xs) 0)"
| "depth (JObj kvs) = Suc (foldr max (map (\<lambda>(k, v). depth v) kvs) 0)"
| "depth _ = 0"

lemma foldr_max_ge: "x \<in> set xs \<Longrightarrow> f x \<le> foldr max (map f xs) (0 :: nat)"
  by (induction xs) auto

definition run_from :: "conf option \<Rightarrow> tok list \<Rightarrow> conf option" where
  "run_from c ts = (case c of None \<Rightarrow> None | Some c' \<Rightarrow> parse_run c' ts)"

lemma parse_run_Cons: "parse_run c (t # ts) = run_from (parse_step c t) ts"
  by (simp add: run_from_def)

lemma run_from_Some [simp]: "run_from (Some c) ts = parse_run c ts"
  by (simp add: run_from_def)

definition parses :: "frame list \<Rightarrow> tok list \<Rightarrow> json \<Rightarrow> bool" where
  "parses st ts v \<longleftrightarrow>
     (\<forall>rest. parse_run (Expect st) (ts @ rest) = run_from (complete v st) rest)"

lemma parse_elements:
  assumes "\<forall>x \<in> set xs. \<forall>ys. parses (FArr ys # st) (t x) (f x)" and "xs \<noteq> []"
  shows "parse_run (Expect (FArr ys # st)) (join [TComma] (map t xs) @ TRBrack # rest) =
    run_from (complete (JArr (ys @ map f xs)) st) rest"
  using assms
proof (induction xs arbitrary: ys rule: induct_list012)
  case (2 x)
  then show ?case by (simp add: parses_def parse_run_Cons del: parse_run.simps)
next
  case (3 x y r)
  have "parses (FArr ys # st) (t x) (f x)" using 3 by simp
  then have "parse_run (Expect (FArr ys # st)) (join [TComma] (map t (x # y # r)) @ TRBrack # rest) =
    parse_run (Expect (FArr (ys @ [f x]) # st)) (join [TComma] (map t (y # r)) @ TRBrack # rest)"
    by (simp add: parses_def parse_run_Cons del: parse_run.simps)
  also have "\<dots> = run_from (complete (JArr ((ys @ [f x]) @ map f (y # r))) st) rest"
    using 3 by (intro "3.IH") simp_all
  finally show ?case by simp
qed simp

lemma parse_members:
  assumes "\<forall>(k, v) \<in> set kvs. \<forall>ms. parses (FKey (to_valid_utf8 k) ms # st) (t v) (f v)" and "kvs \<noteq> []"
  shows "parse_run (Key (FObj ms # st))
      (join [TComma] (map (\<lambda>(k, v). [TStr (to_valid_utf8 k), TColon] @ t v) kvs) @ TRBrace # rest) =
    run_from (complete (JObj (ms @ map (\<lambda>(k, v). (to_valid_utf8 k, f v)) kvs)) st) rest"
  using assms
proof (induction kvs arbitrary: ms rule: induct_list012)
  case (2 m)
  then show ?case
    by (cases m) (simp add: parses_def parse_run_Cons del: parse_run.simps)
next
  case (3 m m' r)
  let ?t = "\<lambda>(k, v). [TStr (to_valid_utf8 k), TColon] @ t v"
  let ?f = "\<lambda>(k, v). (to_valid_utf8 k, f v)"
  obtain k v where m: "m = (k, v)" by (cases m)
  have "parses (FKey (to_valid_utf8 k) ms # st) (t v) (f v)" using 3 m by simp
  then have "parse_run (Key (FObj ms # st)) (join [TComma] (map ?t (m # m' # r)) @ TRBrace # rest) =
    parse_run (Key (FObj (ms @ [?f m]) # st)) (join [TComma] (map ?t (m' # r)) @ TRBrace # rest)"
    by (simp add: m parses_def parse_run_Cons del: parse_run.simps)
  also have "\<dots> = run_from (complete (JObj ((ms @ [?f m]) @ map ?f (m' # r))) st) rest"
    using 3 by (intro "3.IH") simp_all
  finally show ?case by simp
qed simp

lemma toks_nonempty_join: "kvs \<noteq> [] \<Longrightarrow>
    parse_run (KeyOrEnd (FObj [] # st)) (join [TComma] (map (\<lambda>(k, v). [TStr (g k), TColon] @ t v) kvs) @ ts) =
    parse_run (Key (FObj [] # st)) (join [TComma] (map (\<lambda>(k, v). [TStr (g k), TColon] @ t v) kvs) @ ts)"
  by (induction kvs rule: induct_list012) auto

lemma toks_hd: "\<exists>a r. toks j = a # r \<and> a \<noteq> TRBrack"
  by (cases j) auto

lemma expect_or_end: "a \<noteq> TRBrack \<Longrightarrow> parse_step (ExpectOrEnd st) a = parse_step (Expect st) a"
  by (cases a; cases "(ExpectOrEnd st, a)" rule: parse_step.cases) auto

lemma parses_array:
  assumes "length st < max_depth" and "\<forall>x \<in> set xs. \<forall>ys. parses (FArr ys # st) (toks x) (utf8_json x)"
  shows "parses st (toks (JArr xs)) (utf8_json (JArr xs))"
proof (cases xs)
  case Nil
  with assms show ?thesis
    by (simp add: parses_def parse_run_Cons del: parse_run.simps)
next
  case (Cons x r)
  obtain a r' where a: "toks x = a # r'" "a \<noteq> TRBrack" using toks_hd by blast
  have el: "join [TComma] (map toks xs) = a # tl (join [TComma] (map toks xs))"
    using Cons a by (cases r) simp_all
  have "parse_run (ExpectOrEnd (FArr [] # st)) (join [TComma] (map toks xs) @ ts) =
      parse_run (Expect (FArr [] # st)) (join [TComma] (map toks xs) @ ts)" for ts
    by (subst (1 2) el) (simp only: append_Cons parse_run_Cons expect_or_end [OF a(2)])
  moreover have "parse_step (Expect st) TLBrack = Some (ExpectOrEnd (FArr [] # st))"
    using assms(1) by simp
  moreover have "xs \<noteq> []" using Cons by simp
  ultimately show ?thesis
    using parse_elements [OF assms(2), of "[]"]
    by (simp only: parses_def toks.simps utf8_json.simps append_Cons append_Nil append_assoc
        parse_run_Cons run_from_Some simp_thms)
qed

lemma parses_object:
  assumes "length st < max_depth"
    and "\<forall>(k, v) \<in> set kvs. \<forall>ms. parses (FKey (to_valid_utf8 k) ms # st) (toks v) (utf8_json v)"
  shows "parses st (toks (JObj kvs)) (utf8_json (JObj kvs))"
proof (cases "kvs = []")
  case True
  with assms show ?thesis
    by (simp add: parses_def parse_run_Cons del: parse_run.simps)
next
  case False
  then show ?thesis
    using assms(1) parse_members [OF assms(2) False, of "[]"] toks_nonempty_join [OF False, of st to_valid_utf8 toks]
    by (simp add: parses_def parse_run_Cons del: parse_run.simps)
qed

lemma parse_toks:
  "length st + depth j \<le> max_depth \<Longrightarrow> parses st (toks j) (utf8_json j)"
proof (induction j arbitrary: st rule: toks.induct)
  case (1 s)
  then show ?case by (simp add: parses_def parse_run_Cons del: parse_run.simps)
next
  case (2 xs)
  have "parses (FArr ys # st) (toks x) (utf8_json x)" if x: "x \<in> set xs" for x ys
  proof (rule "2.IH" [OF x])
    show "length (FArr ys # st) + depth x \<le> max_depth"
      using foldr_max_ge [OF x, of depth] "2.prems" by simp
  qed
  moreover have "length st < max_depth" using "2.prems" by simp
  ultimately show ?case by (intro parses_array) blast+
next
  case (3 kvs)
  have "parses (FKey k' ms # st) (toks v) (utf8_json v)" if m: "(k, v) \<in> set kvs" for k v ms k'
  proof (rule "3.IH" [OF m refl])
    show "length (FKey k' ms # st) + depth v \<le> max_depth"
      using foldr_max_ge [OF m, of "\<lambda>(k, v). depth v"] "3.prems" by simp
  qed
  moreover have "length st < max_depth" using "3.prems" by simp
  ultimately show ?case by (intro parses_object) blast+
qed (simp_all add: parses_def parse_run_Cons del: parse_run.simps)

text \<open>Reading back what was written, whatever the value, up to the scanner's nesting limit.\<close>

lemma parse_print_json:
  assumes "num_ok j" and "depth j \<le> max_depth"
  shows "parse_json (print_json j) = Some (utf8_json j)"
proof -
  have "lex LTop (print_json j) = Some (toks j)"
    using lexes_print [OF assms(1)] unfolding lexes_def
    by (metis append_Nil2 delim_simps(1) lex.simps(1) option.simps(9))
  moreover have "parse_run (Expect []) (toks j) = Some (Done (utf8_json j))"
    using parse_toks [of "[]" j] assms(2) unfolding parses_def
    by (metis add.left_neutral append_Nil2 complete.simps(1) list.size(3) parse_run.simps(1) run_from_Some)
  ultimately show ?thesis by (simp add: parse_json_def)
qed

end
