(* ===== verification/Entities.thy ===== *)
theory Entities
  imports GoPrelude
begin

text \<open>
  The data every component exchanges: the entities of \<open>internal/entity\<close>, the events of
  \<open>shared/schema.go\<close>, the token of \<open>internal/usecase/boundary.go\<close>, the row model
  of \<open>internal/adapter/gateway/store/message_model.go\<close> with its two conversions, and the
  response shape of \<open>internal/adapter/presenter/http\<close>.  Strings are byte strings;
  the request's \<open>float64\<close> timestamp is kept as the JSON number it is written as (no code
  computes with it).
\<close>

section \<open>Entities\<close>

text \<open>\<open>MessageRole\<close> is a Go string type: its two constants are named, any string is allowed.\<close>

type_synonym MessageRole = string

definition RoleUser :: MessageRole where
  "RoleUser = ''user''"

definition RoleAssistant :: MessageRole where
  "RoleAssistant = ''assistant''"

lemma Role_distinct [simp]: "RoleUser \<noteq> RoleAssistant" "RoleAssistant \<noteq> RoleUser"
  by (simp_all add: RoleUser_def RoleAssistant_def)

record Message =
  msg_SessionID :: string
  msg_RequestID :: string
  msg_Role :: MessageRole
  msg_Content :: string

section \<open>Events on Kafka and on the token stream\<close>

record ChatRequest =
  cr_RequestID :: string
  cr_SessionID :: string
  cr_Content :: string
  cr_Timestamp :: string

record TokenEvent =
  te_RequestID :: string
  te_SessionID :: string
  te_UserMessage :: string
  te_Delta :: string
  te_Done :: bool

text \<open>The reply types of \<open>shared/schema.go\<close>: \<open>FinishReason\<close> is a pointer, \<open>Messages\<close> a slice
  that may be nil.\<close>

record ChatResponse =
  cs_RequestID :: string
  cs_SessionID :: string
  cs_Delta :: string
  cs_FinishReason :: "string option"

record ChatCompletedMessage =
  cm_Role :: string
  cm_Content :: string

record ChatCompleted =
  cc_SessionID :: string
  cc_RequestID :: string
  cc_Messages :: "ChatCompletedMessage list option"

text \<open>\<open>NewChatRequest\<close>, with the fresh id and the clock reading (as a literal) given.\<close>

definition NewChatRequest :: "string \<Rightarrow> string \<Rightarrow> string \<Rightarrow> string \<Rightarrow> ChatRequest" where
  "NewChatRequest uuid now sessionID content =
     \<lparr>cr_RequestID = uuid, cr_SessionID = sessionID, cr_Content = content, cr_Timestamp = now\<rparr>"

record PubSubToken =
  pt_RequestID :: string
  pt_Delta :: string
  pt_Done :: bool

section \<open>Database rows\<close>

record SessionModel =
  sm_SessionID :: string

record MessageModel =
  mm_ID :: "64 word"
  mm_SessionID :: string
  mm_RequestID :: string
  mm_Role :: string
  mm_Content :: string

definition ToEntity :: "MessageModel \<Rightarrow> Message" where
  "ToEntity m =
     \<lparr>msg_SessionID = mm_SessionID m, msg_RequestID = mm_RequestID m,
      msg_Role = mm_Role m, msg_Content = mm_Content m\<rparr>"

definition messageFromEntity :: "Message \<Rightarrow> MessageModel" where
  "messageFromEntity msg =
     \<lparr>mm_ID = 0, mm_SessionID = msg_SessionID msg, mm_RequestID = msg_RequestID msg,
      mm_Role = msg_Role msg, mm_Content = msg_Content msg\<rparr>"

lemma messageFromEntity_sel [simp]:
  "mm_ID (messageFromEntity m) = 0"
  "mm_SessionID (messageFromEntity m) = msg_SessionID m"
  "mm_RequestID (messageFromEntity m) = msg_RequestID m"
  "mm_Role (messageFromEntity m) = msg_Role m"
  "mm_Content (messageFromEntity m) = msg_Content m"
  by (simp_all add: messageFromEntity_def)

lemma ToEntity_sel [simp]:
  "msg_SessionID (ToEntity r) = mm_SessionID r"
  "msg_RequestID (ToEntity r) = mm_RequestID r"
  "msg_Role (ToEntity r) = mm_Role r"
  "msg_Content (ToEntity r) = mm_Content r"
  by (simp_all add: ToEntity_def)

lemma ToEntity_messageFromEntity [simp]: "ToEntity (messageFromEntity m) = m"
  by (simp add: ToEntity_def messageFromEntity_def)

lemma map_ToEntity_messageFromEntity [simp]: "map (ToEntity \<circ> messageFromEntity) ms = ms"
  by (simp add: comp_def)

section \<open>HTTP response shape\<close>

record MessageDTO =
  dto_Role :: string
  dto_Content :: string
  dto_RequestID :: string

text \<open>\<open>GetHistoryPresenter\<close>: what \<open>PresentMessages\<close> and \<open>PresentError\<close> leave in it.\<close>

record GetHistoryPresenter =
  ghp_Messages :: "MessageDTO list"
  ghp_Err :: "go_error option"

definition new_GetHistoryPresenter :: GetHistoryPresenter where
  "new_GetHistoryPresenter = \<lparr>ghp_Messages = [], ghp_Err = None\<rparr>"

definition message_dto :: "Message \<Rightarrow> MessageDTO" where
  "message_dto m = \<lparr>dto_Role = msg_Role m, dto_Content = msg_Content m, dto_RequestID = msg_RequestID m\<rparr>"

definition PresentMessages :: "Message list \<Rightarrow> GetHistoryPresenter \<Rightarrow> GetHistoryPresenter" where
  "PresentMessages ms p = p\<lparr>ghp_Messages := map message_dto ms\<rparr>"

definition PresentError :: "go_error \<Rightarrow> GetHistoryPresenter \<Rightarrow> GetHistoryPresenter" where
  "PresentError e p = p\<lparr>ghp_Err := Some e\<rparr>"

end
