(* ===== verification/Wire.thy ===== *)
theory Wire
  imports JsonRoundtrip Entities
begin

text \<open>
  The program's messages on the wire: \<open>json.Unmarshal\<close> into a struct (members matched by
  exact name, then case-insensitively; null leaves a field alone; unknown members are skipped; a
  member of the wrong type is an error) and the marshalled form of every struct the services
  exchange: \<open>shared.ChatRequest\<close> and \<open>shared.TokenEvent\<close> on Kafka,
  \<open>tokenChunk\<close> as a line of the NDJSON response, \<open>messageRecord\<close> in the Redis
  history, the pub/sub payload.  Reading what was written gives the message back, with invalid
  UTF-8 replaced.
\<close>

section \<open>Unmarshalling into a struct\<close>

text \<open>
  \<open>appendFoldedName\<close>: ASCII letters in upper case; of the other runes only U+017F and
  U+212A fold to ASCII letters (S and K), and only those can make a key match a field name.
\<close>

definition upper :: "char \<Rightarrow> char" where
  "upper c = (if 97 \<le> byte c \<and> byte c \<le> 122 then chr (byte c - 32) else c)"

function fold_key :: "string \<Rightarrow> string" where
  "fold_key s =
     (if s = [] then []
      else if take 2 s = [CHR 0xC5, CHR 0xBF] then CHR ''S'' # fold_key (drop 2 s)
      else if take 3 s = [CHR 0xE2, CHR 0x84, CHR 0xAA] then CHR ''K'' # fold_key (drop 3 s)
      else upper (hd s) # fold_key (tl s))"
  by pat_completeness auto
termination
  by (relation "measure length") auto

declare fold_key.simps [simp del]

lemma fold_key_ascii: "ascii s \<Longrightarrow> fold_key s = map upper s"
proof (induction s)
  case (Cons c s)
  then have "c \<noteq> CHR 0xC5" and "c \<noteq> CHR 0xE2"
    by (auto simp: ascii_def byte_def)
  with Cons show ?case
    by (subst fold_key.simps) (simp add: ascii_def)
qed (simp add: fold_key.simps)

text \<open>A struct's fields: the name in its tag, and how a JSON value is stored into the field.\<close>

type_synonym 's field = "string \<times> (json \<Rightarrow> 's \<Rightarrow> 's option)"

definition find_field :: "'s field list \<Rightarrow> string \<Rightarrow> (json \<Rightarrow> 's \<Rightarrow> 's option) option" where
  "find_field fs k =
     (case map_of fs k of
        Some f \<Rightarrow> Some f
      | None \<Rightarrow> map_of (map (\<lambda>(n, f). (fold_key n, f)) fs) (fold_key k))"

fun set_fields :: "'s field list \<Rightarrow> (string \<times> json) list \<Rightarrow> 's \<Rightarrow> 's option" where
  "set_fields fs [] x = Some x"
| "set_fields fs ((k, v) # kvs) x =
     (case find_field fs k of
        None \<Rightarrow> set_fields fs kvs x
      | Some f \<Rightarrow> (case f v x of None \<Rightarrow> None | Some y \<Rightarrow> set_fields fs kvs y))"

fun store_value :: "'s field list \<Rightarrow> 's \<Rightarrow> json \<Rightarrow> 's option" where
  "store_value fs x (JObj kvs) = set_fields fs kvs x"
| "store_value fs x JNull = Some x"
| "store_value fs x _ = None"

definition Unmarshal :: "'s field list \<Rightarrow> 's \<Rightarrow> string \<Rightarrow> 's option" where
  "Unmarshal fs x s = (case parse_json s of None \<Rightarrow> None | Some j \<Rightarrow> store_value fs x j)"

fun field_string :: "((string \<Rightarrow> string) \<Rightarrow> 's \<Rightarrow> 's) \<Rightarrow> json \<Rightarrow> 's \<Rightarrow> 's option" where
  "field_string upd (JStr s) x = Some (upd (\<lambda>_. s) x)"
| "field_string upd JNull x = Some x"
| "field_string upd _ x = None"

fun field_bool :: "((bool \<Rightarrow> bool) \<Rightarrow> 's \<Rightarrow> 's) \<Rightarrow> json \<Rightarrow> 's \<Rightarrow> 's option" where
  "field_bool upd (JBool b) x = Some (upd (\<lambda>_. b) x)"
| "field_bool upd JNull x = Some x"
| "field_bool upd _ x = None"

text \<open>
  A \<open>float64\<close> field takes a number literal unless \<open>strconv.ParseFloat\<close> reports it out
  of range: its magnitude rounds to infinity, from (2^54 - 1) * 2^970 on.
\<close>

definition digits_value :: "string \<Rightarrow> nat" where
  "digits_value ds = foldl (\<lambda>v d. 10 * v + (byte d - 48)) 0 ds"

definition exponent_value :: "string \<Rightarrow> int" where
  "exponent_value s =
     (if s = [] then 0
      else if hd s = CHR ''-'' then - int (digits_value (tl s))
      else if hd s = CHR ''+'' then int (digits_value (tl s))
      else int (digits_value s))"

definition float_in_range :: "string \<Rightarrow> bool" where
  "float_in_range n =
     (let s = (if n \<noteq> [] \<and> hd n = CHR ''-'' then tl n else n);
          ip = takeWhile digit s; r = dropWhile digit s;
          fp = (if r \<noteq> [] \<and> hd r = CHR ''.'' then takeWhile digit (tl r) else []);
          r' = (if r \<noteq> [] \<and> hd r = CHR ''.'' then dropWhile digit (tl r) else r);
          e = exponent_value (tl r') - int (length fp);
          m = digits_value (ip @ fp); lim = (2 ^ 54 - 1) * 2 ^ 970
      in m = 0 \<or> (if 0 \<le> e then m * 10 ^ nat e < lim else m < lim * 10 ^ nat (- e)))"

fun field_float :: "((string \<Rightarrow> string) \<Rightarrow> 's \<Rightarrow> 's) \<Rightarrow> json \<Rightarrow> 's \<Rightarrow> 's option" where
  "field_float upd (JNum n) x = (if float_in_range n then Some (upd (\<lambda>_. n) x) else None)"
| "field_float upd JNull x = Some x"
| "field_float upd _ x = None"

text \<open>
  \<open>json.Unmarshal\<close> into a \<open>map[string]string\<close>: the members in order, later ones
  replacing earlier ones; a null member is the empty string; null leaves the map nil.
\<close>

fun map_member :: "string \<times> json \<Rightarrow> (string \<times> string) option" where
  "map_member (k, JStr s) = Some (k, s)"
| "map_member (k, JNull) = Some (k, [])"
| "map_member _ = None"

fun map_members :: "(string \<times> json) list \<Rightarrow> (string \<rightharpoonup> string) \<Rightarrow> (string \<rightharpoonup> string) option" where
  "map_members [] m = Some m"
| "map_members (kv # kvs) m =
     (case map_member kv of None \<Rightarrow> None | Some (k, s) \<Rightarrow> map_members kvs (m(k \<mapsto> s)))"

definition Unmarshal_map :: "string \<Rightarrow> (string \<rightharpoonup> string) option" where
  "Unmarshal_map s =
     (case parse_json s of
        Some (JObj kvs) \<Rightarrow> map_members kvs Map.empty
      | Some JNull \<Rightarrow> Some Map.empty
      | _ \<Rightarrow> None)"

text \<open>
  gin's \<open>ShouldBindJSON\<close> decodes with \<open>json.Decoder\<close>, which takes the first value of
  the body and never looks at what follows it.  Objects and null end at their last byte, so the
  first value is the one of the shortest prefix that is a document; where a longer number literal
  would be taken the struct is refused either way.
\<close>

definition first_value :: "string \<Rightarrow> json option" where
  "first_value s =
     (case dropWhile (\<lambda>n. parse_json (take n s) = None) [0..<Suc (length s)] of
        [] \<Rightarrow> None
      | n # _ \<Rightarrow> parse_json (take n s))"

definition ShouldBindJSON :: "'s field list \<Rightarrow> 's \<Rightarrow> string \<Rightarrow> 's option" where
  "ShouldBindJSON fs x body = (case first_value body of None \<Rightarrow> None | Some j \<Rightarrow> store_value fs x j)"

section \<open>The structs\<close>

subsection \<open>\<open>shared.TokenEvent\<close>\<close>

definition token_event_json :: "TokenEvent \<Rightarrow> json" where
  "token_event_json t = JObj
     [(''request_id'', JStr (te_RequestID t)), (''session_id'', JStr (te_SessionID t)),
      (''user_message'', JStr (te_UserMessage t)), (''delta'', JStr (te_Delta t)),
      (''done'', JBool (te_Done t))]"

definition zero_TokenEvent :: TokenEvent where
  "zero_TokenEvent =
     \<lparr>te_RequestID = [], te_SessionID = [], te_UserMessage = [], te_Delta = [], te_Done = False\<rparr>"

definition token_event_fields :: "TokenEvent field list" where
  "token_event_fields =
     [(''request_id'', field_string te_RequestID_update), (''session_id'', field_string te_SessionID_update),
      (''user_message'', field_string te_UserMessage_update), (''delta'', field_string te_Delta_update),
      (''done'', field_bool te_Done_update)]"

definition marshal_TokenEvent :: "TokenEvent \<Rightarrow> string" where
  "marshal_TokenEvent t = print_json (token_event_json t)"

definition unmarshal_TokenEvent :: "string \<Rightarrow> TokenEvent option" where
  "unmarshal_TokenEvent = Unmarshal token_event_fields zero_TokenEvent"

subsection \<open>\<open>shared.ChatRequest\<close>\<close>

definition chat_request_json :: "ChatRequest \<Rightarrow> json" where
  "chat_request_json r = JObj
     [(''request_id'', JStr (cr_RequestID r)), (''session_id'', JStr (cr_SessionID r)),
      (''content'', JStr (cr_Content r)), (''timestamp'', JNum (cr_Timestamp r))]"

definition zero_ChatRequest :: ChatRequest where
  "zero_ChatRequest = \<lparr>cr_RequestID = [], cr_SessionID = [], cr_Content = [], cr_Timestamp = ''0''\<rparr>"

definition chat_request_fields :: "ChatRequest field list" where
  "chat_request_fields =
     [(''request_id'', field_string cr_RequestID_update), (''session_id'', field_string cr_SessionID_update),
      (''content'', field_string cr_Content_update), (''timestamp'', field_float cr_Timestamp_update)]"

definition marshal_ChatRequest :: "ChatRequest \<Rightarrow> string" where
  "marshal_ChatRequest r = print_json (chat_request_json r)"

definition unmarshal_ChatRequest :: "string \<Rightarrow> ChatRequest option" where
  "unmarshal_ChatRequest = Unmarshal chat_request_fields zero_ChatRequest"

subsection \<open>\<open>shared.ChatResponse\<close> and \<open>shared.ChatCompleted\<close>\<close>

definition chat_response_json :: "ChatResponse \<Rightarrow> json" where
  "chat_response_json r = JObj
     [(''request_id'', JStr (cs_RequestID r)), (''session_id'', JStr (cs_SessionID r)),
      (''delta'', JStr (cs_Delta r)),
      (''finish_reason'', case cs_FinishReason r of None \<Rightarrow> JNull | Some f \<Rightarrow> JStr f)]"

definition completed_message_json :: "ChatCompletedMessage \<Rightarrow> json" where
  "completed_message_json m = JObj [(''role'', JStr (cm_Role m)), (''content'', JStr (cm_Content m))]"

definition chat_completed_json :: "ChatCompleted \<Rightarrow> json" where
  "chat_completed_json c = JObj
     [(''session_id'', JStr (cc_SessionID c)), (''request_id'', JStr (cc_RequestID c)),
      (''messages'',
       case cc_Messages c of None \<Rightarrow> JNull | Some ms \<Rightarrow> JArr (map completed_message_json ms))]"

definition marshal_ChatCompleted :: "ChatCompleted \<Rightarrow> string" where
  "marshal_ChatCompleted c = print_json (chat_completed_json c)"

subsection \<open>\<open>tokenChunk\<close>, a line of the streamed response\<close>

record tokenChunk =
  tc_RequestID :: string
  tc_Delta :: string
  tc_Done :: bool

definition chunk_of :: "PubSubToken \<Rightarrow> tokenChunk" where
  "chunk_of t = \<lparr>tc_RequestID = pt_RequestID t, tc_Delta = pt_Delta t, tc_Done = pt_Done t\<rparr>"

definition token_chunk_json :: "tokenChunk \<Rightarrow> json" where
  "token_chunk_json c = JObj
     [(''request_id'', JStr (tc_RequestID c)), (''delta'', JStr (tc_Delta c)), (''done'', JBool (tc_Done c))]"

text \<open>\<open>json.Encoder.Encode\<close> ends each value with a newline.\<close>

definition encode_tokenChunk :: "tokenChunk \<Rightarrow> string" where
  "encode_tokenChunk c = print_json (token_chunk_json c) @ [CHR 0x0A]"

definition zero_tokenChunk :: tokenChunk where
  "zero_tokenChunk = \<lparr>tc_RequestID = [], tc_Delta = [], tc_Done = False\<rparr>"

text \<open>What a client reads off the line.\<close>

definition read_tokenChunk :: "string \<Rightarrow> tokenChunk option" where
  "read_tokenChunk = Unmarshal
     [(''request_id'', field_string tc_RequestID_update), (''delta'', field_string tc_Delta_update),
      (''done'', field_bool tc_Done_update)] zero_tokenChunk"

subsection \<open>\<open>usecase.PubSubToken\<close>, which has no field tags\<close>

definition zero_PubSubToken :: PubSubToken where
  "zero_PubSubToken = \<lparr>pt_RequestID = [], pt_Delta = [], pt_Done = False\<rparr>"

definition pubsub_token_fields :: "PubSubToken field list" where
  "pubsub_token_fields =
     [(''RequestID'', field_string pt_RequestID_update), (''Delta'', field_string pt_Delta_update),
      (''Done'', field_bool pt_Done_update)]"

subsection \<open>\<open>messageRecord\<close> in the conversation cache\<close>

record messageRecord =
  mr_Role :: string
  mr_Content :: string
  mr_RequestID :: string

definition message_record_json :: "messageRecord \<Rightarrow> json" where
  "message_record_json r = JObj
     [(''role'', JStr (mr_Role r)), (''content'', JStr (mr_Content r)),
      (''request_id'', JStr (mr_RequestID r))]"

definition zero_messageRecord :: messageRecord where
  "zero_messageRecord = \<lparr>mr_Role = [], mr_Content = [], mr_RequestID = []\<rparr>"

definition marshal_messageRecord :: "messageRecord \<Rightarrow> string" where
  "marshal_messageRecord r = print_json (message_record_json r)"

definition unmarshal_messageRecord :: "string \<Rightarrow> messageRecord option" where
  "unmarshal_messageRecord = Unmarshal
     [(''role'', field_string mr_Role_update), (''content'', field_string mr_Content_update),
      (''request_id'', field_string mr_RequestID_update)] zero_messageRecord"

section \<open>Round trips\<close>

named_theorems wire_json "the value trees of the structs"

lemmas [wire_json] = token_event_json_def chat_request_json_def chat_completed_json_def
  completed_message_json_def token_chunk_json_def message_record_json_def

lemma max_depth_pos [simp]: "Suc 0 \<le> max_depth" "Suc (Suc 0) \<le> max_depth"
  by (simp_all add: max_depth_def)

lemma Unmarshal_print:
  "num_ok j \<Longrightarrow> depth j \<le> max_depth \<Longrightarrow> Unmarshal fs x (print_json j) = store_value fs x (utf8_json j)"
  by (simp add: Unmarshal_def parse_print_json)

lemma to_valid_utf8_ascii: "ascii s \<Longrightarrow> to_valid_utf8 s = s"
  by (simp add: to_valid_utf8_id valid_utf8_ascii)

text \<open>The member names are ASCII.\<close>

lemma member_names [simp]:
  "to_valid_utf8 ''request_id'' = ''request_id''" "to_valid_utf8 ''session_id'' = ''session_id''"
  "to_valid_utf8 ''user_message'' = ''user_message''" "to_valid_utf8 ''delta'' = ''delta''"
  "to_valid_utf8 ''done'' = ''done''" "to_valid_utf8 ''content'' = ''content''"
  "to_valid_utf8 ''timestamp'' = ''timestamp''" "to_valid_utf8 ''role'' = ''role''"
  by (simp_all add: to_valid_utf8_ascii ascii_def byte_def)

definition utf8_TokenEvent :: "TokenEvent \<Rightarrow> TokenEvent" where
  "utf8_TokenEvent t =
     \<lparr>te_RequestID = to_valid_utf8 (te_RequestID t), te_SessionID = to_valid_utf8 (te_SessionID t),
      te_UserMessage = to_valid_utf8 (te_UserMessage t), te_Delta = to_valid_utf8 (te_Delta t),
      te_Done = te_Done t\<rparr>"

lemma token_event_read_back [simp]:
  "unmarshal_TokenEvent (marshal_TokenEvent t) = Some (utf8_TokenEvent t)"
  by (simp add: unmarshal_TokenEvent_def marshal_TokenEvent_def Unmarshal_print wire_json
      token_event_fields_def find_field_def zero_TokenEvent_def utf8_TokenEvent_def
      del: print_json.simps)

definition utf8_ChatRequest :: "ChatRequest \<Rightarrow> ChatRequest" where
  "utf8_ChatRequest r =
     \<lparr>cr_RequestID = to_valid_utf8 (cr_RequestID r), cr_SessionID = to_valid_utf8 (cr_SessionID r),
      cr_Content = to_valid_utf8 (cr_Content r), cr_Timestamp = cr_Timestamp r\<rparr>"

text \<open>The literals a \<open>float64\<close> is written as.\<close>

definition float_literal :: "string \<Rightarrow> bool" where
  "float_literal n \<longleftrightarrow> valid_number n \<and> list_all run_char n \<and> float_in_range n"

lemma float_literal_0 [simp]: "float_literal ''0''"
proof -
  have "float_in_range ''0''"
    by (simp add: float_in_range_def digit_def byte_def digits_value_def Let_def)
  then show ?thesis
    by (simp add: float_literal_def valid_number_def fraction_ok_def exponent_ok_def
        digit_def byte_def run_char_def)
qed

lemma chat_request_read_back:
  assumes "float_literal (cr_Timestamp r)"
  shows "unmarshal_ChatRequest (marshal_ChatRequest r) = Some (utf8_ChatRequest r)"
  using assms
  by (simp add: unmarshal_ChatRequest_def marshal_ChatRequest_def Unmarshal_print wire_json
      chat_request_fields_def find_field_def zero_ChatRequest_def utf8_ChatRequest_def
      float_literal_def del: print_json.simps)

definition utf8_messageRecord :: "messageRecord \<Rightarrow> messageRecord" where
  "utf8_messageRecord r =
     \<lparr>mr_Role = to_valid_utf8 (mr_Role r), mr_Content = to_valid_utf8 (mr_Content r),
      mr_RequestID = to_valid_utf8 (mr_RequestID r)\<rparr>"

lemma message_record_read_back:
  "unmarshal_messageRecord (marshal_messageRecord r) = Some (utf8_messageRecord r)"
  by (simp add: unmarshal_messageRecord_def marshal_messageRecord_def Unmarshal_print wire_json
      find_field_def zero_messageRecord_def utf8_messageRecord_def del: print_json.simps)

section \<open>The response body, one document per line\<close>

definition utf8_tokenChunk :: "tokenChunk \<Rightarrow> tokenChunk" where
  "utf8_tokenChunk c =
     \<lparr>tc_RequestID = to_valid_utf8 (tc_RequestID c), tc_Delta = to_valid_utf8 (tc_Delta c),
      tc_Done = tc_Done c\<rparr>"

text \<open>A body cut at its newlines, as \<open>bufio.Scanner\<close> does; an unfinished line is kept.\<close>

fun split_lines :: "string \<Rightarrow> string list" where
  "split_lines [] = []"
| "split_lines (c # s) =
     (if c = CHR 0x0A then [] # split_lines s
      else case split_lines s of [] \<Rightarrow> [[c]] | l # ls \<Rightarrow> (c # l) # ls)"

lemma split_lines_line:
  "CHR 0x0A \<notin> set l \<Longrightarrow> split_lines (l @ CHR 0x0A # s) = l # split_lines s"
  by (induction l) auto

lemma printable_no_newline: "printable s \<Longrightarrow> CHR 0x0A \<notin> set s"
  by (auto simp: printable_def byte_def)

lemma encode_tokenChunk_line:
  "split_lines (encode_tokenChunk c @ s) = print_json (token_chunk_json c) # split_lines s"
proof -
  have "printable (print_json (token_chunk_json c))"
    by (rule printable_json) (simp add: wire_json)
  then show ?thesis
    by (simp add: encode_tokenChunk_def split_lines_line printable_no_newline del: print_json.simps)
qed

lemma read_tokenChunk_line:
  "read_tokenChunk (print_json (token_chunk_json c)) = Some (utf8_tokenChunk c)"
  by (simp add: read_tokenChunk_def Unmarshal_print wire_json find_field_def zero_tokenChunk_def
      utf8_tokenChunk_def del: print_json.simps)


text \<open>
  A token event written to Kafka (\<open>json.Marshal\<close> in \<open>PublishToken\<close>) is read back by
  the consumers (\<open>json.Unmarshal\<close>) as the same event, for all byte strings whatever they hold
  (quotes, newlines, control characters, HTML characters), with bytes that are not UTF-8 replaced;
  an event of valid UTF-8 comes back as it was.
\<close>

theorem token_event_roundtrip:
  "unmarshal_TokenEvent (marshal_TokenEvent t) = Some (utf8_TokenEvent t) \<and>
   (valid_utf8 (te_RequestID t) \<longrightarrow> valid_utf8 (te_SessionID t) \<longrightarrow>
    valid_utf8 (te_UserMessage t) \<longrightarrow> valid_utf8 (te_Delta t) \<longrightarrow>
    unmarshal_TokenEvent (marshal_TokenEvent t) = Some t)"
  by (simp add: utf8_TokenEvent_def to_valid_utf8_id)

definition quoting_event :: TokenEvent where
  "quoting_event =
     \<lparr>te_RequestID = ''r1'', te_SessionID = ''s1'', te_UserMessage = ''<b>'',
      te_Delta = [CHR 0x22, CHR 0x0A, CHR 0x5C], te_Done = False\<rparr>"

theorem token_event_roundtrip_witness:
  "unmarshal_TokenEvent (marshal_TokenEvent quoting_event) = Some quoting_event"
proof -
  have "valid_utf8 (te_RequestID quoting_event)" "valid_utf8 (te_SessionID quoting_event)"
    "valid_utf8 (te_UserMessage quoting_event)" "valid_utf8 (te_Delta quoting_event)"
    by (simp_all add: valid_utf8_ascii ascii_def byte_def quoting_event_def)
  with token_event_roundtrip [of quoting_event] show ?thesis by blast
qed

end
