(* ===== verification/RedisStores.thy ===== *)
theory RedisStores
  imports Wire
begin

text \<open>
  The three key-value gateways of \<open>internal/adapter/gateway/cache\<close>: \<open>session_owner.go\<close>
  (with its Lua script), \<open>callback_store.go\<close> and \<open>conversation_cache.go\<close>.

  The Redis server and its client are not code of the repository: a command is a value of
  \<open>redis_cmd\<close>, and running it is a parameter \<open>run\<close>.  \<open>redis_documented\<close> states the
  documented effect of each command on the keys, their values and their expiry times, at the time the
  server executes it; an error answer leaves open whether the command was executed.
\<close>

section \<open>Commands and replies\<close>

text \<open>The script is sent whole; \<open>EvalClaimOwner\<close> runs it on its key, user and ttl.\<close>

datatype redis_cmd =
    RGet string
  | RSetEX string string int
  | EvalClaimOwner string string int
  | RZAdd string int string
  | RExpire string int
  | RZRange string int int
  | RDel string

datatype redis_reply = ROk | RNil | RInt int | RString string | RStrings "string list"

type_synonym 'd redis = "redis_cmd \<Rightarrow> ('d, redis_reply) go_call"

section \<open>The gateways\<close>

subsection \<open>Session owners\<close>

text \<open>
  \<open>claimOwnerScript\<close>, over what \<open>redis.call('GET', key)\<close> returned: the reply, and
  whether \<open>redis.call('SET', key, user, 'EX', ttl)\<close> is called.
\<close>

definition claimOwnerScript :: "string option \<Rightarrow> string \<Rightarrow> int \<times> bool" where
  "claimOwnerScript existing user =
     (case existing of
        None \<Rightarrow> (1, True)
      | Some e \<Rightarrow> if e = user then (1, False) else (0, False))"

definition owner_key :: "string \<Rightarrow> string" where
  "owner_key sessionID = ''session_owner:'' @ sessionID"

text \<open>24 hours, in seconds.\<close>

definition owner_ttl :: int where
  "owner_ttl = 24 * 60 * 60"

text \<open>\<open>Cmd.Int()\<close> and \<open>StringCmd.Result()\<close>: another type of reply is an error, nil is \<open>redis.Nil\<close>.\<close>

fun reply_int :: "redis_reply \<Rightarrow> ('d, int) go_call" where
  "reply_int (RInt n) = go_return n"
| "reply_int RNil = go_fail RedisNil"
| "reply_int _ = go_fail (ErrText ''redis: unexpected type'')"

fun reply_string :: "redis_reply \<Rightarrow> ('d, string) go_call" where
  "reply_string (RString s) = go_return s"
| "reply_string RNil = go_fail RedisNil"
| "reply_string _ = go_fail (ErrText ''redis: unexpected type'')"

fun reply_strings :: "redis_reply \<Rightarrow> ('d, string list) go_call" where
  "reply_strings (RStrings ss) = go_return ss"
| "reply_strings RNil = go_fail RedisNil"
| "reply_strings _ = go_fail (ErrText ''redis: unexpected type'')"

definition ClaimOwner :: "'d redis \<Rightarrow> string \<Rightarrow> string \<Rightarrow> ('d, bool) go_call" where
  "ClaimOwner run sessionID userID =
     go_bind (run (EvalClaimOwner (owner_key sessionID) userID owner_ttl)) (\<lambda>reply.
     go_bind (reply_int reply) (\<lambda>result.
     go_return (result = 1)))"

definition GetOwner :: "'d redis \<Rightarrow> string \<Rightarrow> ('d, string) go_call" where
  "GetOwner run sessionID = go_bind (run (RGet (owner_key sessionID))) reply_string"

subsection \<open>Callback addresses\<close>

definition callbackKey :: "string \<Rightarrow> string" where
  "callbackKey requestID = ''stream:callback:'' @ requestID"

definition callbackTTL :: int where
  "callbackTTL = 5 * 60"

definition SetCallback :: "'d redis \<Rightarrow> string \<Rightarrow> string \<Rightarrow> ('d, unit) go_call" where
  "SetCallback run requestID grpcAddr =
     go_bind (run (RSetEX (callbackKey requestID) grpcAddr callbackTTL)) (\<lambda>_. go_return ())"

definition GetCallback :: "'d redis \<Rightarrow> string \<Rightarrow> ('d, string) go_call" where
  "GetCallback run requestID = go_bind (run (RGet (callbackKey requestID))) reply_string"

subsection \<open>The conversation cache\<close>

record ConversationCache =
  cc_ttl :: int

definition conversation_key :: "string \<Rightarrow> string" where
  "conversation_key sessionID = ''conversation:'' @ sessionID"

definition record_of :: "Message \<Rightarrow> messageRecord" where
  "record_of msg =
     \<lparr>mr_Role = msg_Role msg, mr_Content = msg_Content msg, mr_RequestID = msg_RequestID msg\<rparr>"

text \<open>
  \<open>score\<close> is the \<open>float64\<close> of the clock reading, as a number of the same order.
\<close>

definition cache_SaveMessage ::
  "'d redis \<Rightarrow> ConversationCache \<Rightarrow> int \<Rightarrow> Message \<Rightarrow> ('d, unit) go_call" where
  "cache_SaveMessage run c score msg =
     go_bind (run (RZAdd (conversation_key (msg_SessionID msg)) score (marshal_messageRecord (record_of msg)))) (\<lambda>_.
     go_bind (run (RExpire (conversation_key (msg_SessionID msg)) (cc_ttl c))) (\<lambda>_.
     go_return ()))"

definition cache_DeleteSession :: "'d redis \<Rightarrow> string \<Rightarrow> ('d, unit) go_call" where
  "cache_DeleteSession run sessionID =
     go_bind (run (RDel (conversation_key sessionID))) (\<lambda>_. go_return ())"

fun history_messages :: "string \<Rightarrow> string list \<Rightarrow> Message list" where
  "history_messages sessionID [] = []"
| "history_messages sessionID (r # raw) =
     (case unmarshal_messageRecord r of
        None \<Rightarrow> history_messages sessionID raw
      | Some rec \<Rightarrow>
          \<lparr>msg_SessionID = sessionID, msg_RequestID = mr_RequestID rec, msg_Role = mr_Role rec,
           msg_Content = mr_Content rec\<rparr> # history_messages sessionID raw)"

definition cache_GetHistory :: "'d redis \<Rightarrow> string \<Rightarrow> ('d, Message list) go_call" where
  "cache_GetHistory run sessionID =
     go_bind (run (RZRange (conversation_key sessionID) (-20) (-1))) (\<lambda>reply.
     go_bind (reply_strings reply) (\<lambda>raw.
     go_return (history_messages sessionID raw)))"

section \<open>What Redis documents\<close>

text \<open>Values with their expiry time, if any, in seconds of the server's clock.\<close>

datatype redis_value = VString string | VZSet "(int \<times> string) list"

record redis_view =
  rv_now :: int
  rv_keys :: "string \<rightharpoonup> redis_value \<times> int option"

definition alive :: "int \<Rightarrow> int option \<Rightarrow> bool" where
  "alive now dl \<longleftrightarrow> (case dl of None \<Rightarrow> True | Some t \<Rightarrow> now < t)"

definition lookup :: "redis_view \<Rightarrow> string \<Rightarrow> (redis_value \<times> int option) option" where
  "lookup v k =
     (case rv_keys v k of None \<Rightarrow> None | Some (x, dl) \<Rightarrow> if alive (rv_now v) dl then Some (x, dl) else None)"

definition live_string :: "redis_view \<Rightarrow> string \<Rightarrow> string option" where
  "live_string v k = (case lookup v k of Some (VString s, _) \<Rightarrow> Some s | _ \<Rightarrow> None)"

text \<open>Members of a sorted set are ordered by score, then by their bytes; a member occurs once.\<close>

fun bytes_less :: "string \<Rightarrow> string \<Rightarrow> bool" where
  "bytes_less _ [] = False"
| "bytes_less [] (y # ys) = True"
| "bytes_less (x # xs) (y # ys) = (byte x < byte y \<or> x = y \<and> bytes_less xs ys)"

fun zinsert :: "int \<Rightarrow> string \<Rightarrow> (int \<times> string) list \<Rightarrow> (int \<times> string) list" where
  "zinsert s m [] = [(s, m)]"
| "zinsert s m ((s', m') # z) =
     (if s < s' \<or> s = s' \<and> bytes_less m m' then (s, m) # (s', m') # z
      else (s', m') # zinsert s m z)"

definition zadd :: "int \<Rightarrow> string \<Rightarrow> (int \<times> string) list \<Rightarrow> (int \<times> string) list" where
  "zadd s m z = zinsert s m (filter (\<lambda>(s', m'). m' \<noteq> m) z)"

text \<open>\<open>ZRANGE\<close>: negative positions count from the end; positions out of range are cut off.\<close>

definition zrange :: "int \<Rightarrow> int \<Rightarrow> 'a list \<Rightarrow> 'a list" where
  "zrange a b xs =
     (let n = int (length xs); a' = max 0 (if a < 0 then n + a else a); b' = (if b < 0 then n + b else b)
      in drop (nat a') (take (nat (b' + 1)) xs))"

definition set_key :: "string \<Rightarrow> redis_value \<Rightarrow> int option \<Rightarrow> redis_view \<Rightarrow> redis_view" where
  "set_key k x dl v = v\<lparr>rv_keys := (rv_keys v)(k \<mapsto> (x, dl))\<rparr>"

definition del_key :: "string \<Rightarrow> redis_view \<Rightarrow> redis_view" where
  "del_key k v = v\<lparr>rv_keys := (rv_keys v)(k := None)\<rparr>"

text \<open>The reply and the effect of a command; \<open>None\<close> where the server answers \<open>WRONGTYPE\<close>.\<close>

fun redis_effect :: "redis_cmd \<Rightarrow> redis_view \<Rightarrow> (redis_reply \<times> redis_view) option" where
  "redis_effect (RGet k) v =
     (case lookup v k of
        None \<Rightarrow> Some (RNil, v)
      | Some (VString s, _) \<Rightarrow> Some (RString s, v)
      | Some (VZSet _, _) \<Rightarrow> None)"
| "redis_effect (RSetEX k s ttl) v = Some (ROk, set_key k (VString s) (Some (rv_now v + ttl)) v)"
| "redis_effect (EvalClaimOwner k user ttl) v =
     (case lookup v k of
        Some (VZSet _, _) \<Rightarrow> None
      | _ \<Rightarrow> (case claimOwnerScript (live_string v k) user of
                (n, store) \<Rightarrow>
                  Some (RInt n, if store then set_key k (VString user) (Some (rv_now v + ttl)) v else v)))"
| "redis_effect (RZAdd k s m) v =
     (case lookup v k of
        None \<Rightarrow> Some (RInt 1, set_key k (VZSet [(s, m)]) None v)
      | Some (VZSet z, dl) \<Rightarrow> Some (RInt (if m \<in> snd ` set z then 0 else 1), set_key k (VZSet (zadd s m z)) dl v)
      | Some (VString _, _) \<Rightarrow> None)"
| "redis_effect (RExpire k ttl) v =
     (case lookup v k of
        None \<Rightarrow> Some (RInt 0, v)
      | Some (x, dl) \<Rightarrow>
          Some (RInt 1, if ttl \<le> 0 then del_key k v else set_key k x (Some (rv_now v + ttl)) v))"
| "redis_effect (RZRange k a b) v =
     (case lookup v k of
        None \<Rightarrow> Some (RStrings [], v)
      | Some (VZSet z, _) \<Rightarrow> Some (RStrings (map snd (zrange a b z)), v)
      | Some (VString _, _) \<Rightarrow> None)"
| "redis_effect (RDel k) v = Some (RInt (if lookup v k = None then 0 else 1), del_key k v)"

definition at_time :: "int \<Rightarrow> redis_view \<Rightarrow> redis_view" where
  "at_time t v = v\<lparr>rv_now := t\<rparr>"

definition redis_documented :: "'d redis \<Rightarrow> ('d \<Rightarrow> redis_view) \<Rightarrow> bool" where
  "redis_documented run view \<longleftrightarrow>
     (\<forall>c d reply d'. run c d = (Inr reply, d') \<longrightarrow>
        rv_now (view d) \<le> rv_now (view d') \<and>
        redis_effect c (at_time (rv_now (view d')) (view d)) = Some (reply, view d')) \<and>
     (\<forall>c d e d'. run c d = (Inl e, d') \<longrightarrow>
        rv_now (view d) \<le> rv_now (view d') \<and>
        (view d' = at_time (rv_now (view d')) (view d) \<or>
         (\<exists>reply. redis_effect c (at_time (rv_now (view d')) (view d)) = Some (reply, view d'))))"

text \<open>The owner a session has now, and its callback address.\<close>

definition session_owner :: "redis_view \<Rightarrow> string \<Rightarrow> string option" where
  "session_owner v sid = live_string v (owner_key sid)"

definition callback_addr :: "redis_view \<Rightarrow> string \<Rightarrow> string option" where
  "callback_addr v rid = live_string v (callbackKey rid)"

section \<open>Views under commands\<close>

lemma redis_documentedD:
  assumes "redis_documented run view" and "run c d = (Inr reply, d')"
  shows "rv_now (view d) \<le> rv_now (view d')"
    and "redis_effect c (at_time (rv_now (view d')) (view d)) = Some (reply, view d')"
  using assms unfolding redis_documented_def by blast+

lemma redis_documented_errD:
  assumes "redis_documented run view" and "run c d = (Inl e, d')"
  shows "rv_now (view d) \<le> rv_now (view d')"
    and "view d' = at_time (rv_now (view d')) (view d) \<or>
      (\<exists>reply. redis_effect c (at_time (rv_now (view d')) (view d)) = Some (reply, view d'))"
  using assms unfolding redis_documented_def by blast+

lemma view_simps [simp]:
  "rv_now (at_time t v) = t" "rv_keys (at_time t v) = rv_keys v"
  "rv_now (set_key k x dl v) = rv_now v" "rv_now (del_key k v) = rv_now v"
  by (simp_all add: at_time_def set_key_def del_key_def)

lemma lookup_set_key:
  "lookup (set_key k x dl v) k' =
     (if k' = k then (if alive (rv_now v) dl then Some (x, dl) else None) else lookup v k')"
  by (auto simp: lookup_def set_key_def split: option.split)

lemma lookup_del_key: "lookup (del_key k v) k' = (if k' = k then None else lookup v k')"
  by (auto simp: lookup_def del_key_def split: option.split)

lemma live_string_set_key:
  "live_string (set_key k x dl v) k' =
     (if k' = k then (case x of VString s \<Rightarrow> if alive (rv_now v) dl then Some s else None | _ \<Rightarrow> None)
      else live_string v k')"
  by (simp add: live_string_def lookup_set_key split: redis_value.split)

lemma live_string_del_key: "live_string (del_key k v) k' = (if k' = k then None else live_string v k')"
  by (simp add: live_string_def lookup_del_key)

lemma alive_before: "t \<le> t' \<Longrightarrow> alive t' dl \<Longrightarrow> alive t dl"
  by (auto simp: alive_def split: option.splits)

text \<open>Time alone only removes keys.\<close>

lemma lookup_at_time:
  "rv_now v \<le> t \<Longrightarrow> lookup (at_time t v) k = Some x \<Longrightarrow> lookup v k = Some x"
  by (auto simp: lookup_def split: option.splits if_splits dest: alive_before)

lemma live_string_at_time:
  "rv_now v \<le> t \<Longrightarrow> live_string (at_time t v) k = Some s \<Longrightarrow> live_string v k = Some s"
  by (auto simp: live_string_def split: option.splits redis_value.splits dest: lookup_at_time)

lemma keys_distinct [simp]:
  "owner_key s \<noteq> callbackKey r" "callbackKey r \<noteq> owner_key s"
  "owner_key s \<noteq> conversation_key c" "conversation_key c \<noteq> owner_key s"
  "callbackKey r \<noteq> conversation_key c" "conversation_key c \<noteq> callbackKey r"
  "owner_key s = owner_key s' \<longleftrightarrow> s = s'" "callbackKey r = callbackKey r' \<longleftrightarrow> r = r'"
  "conversation_key c = conversation_key c' \<longleftrightarrow> c = c'"
  by (simp_all add: owner_key_def callbackKey_def conversation_key_def)

section \<open>The contract of ISessionOwnerStore\<close>

type_synonym owner_view = "string \<Rightarrow> (string \<times> int option) option"

text \<open>What is left of the owners at a time.\<close>

definition still :: "int \<Rightarrow> owner_view \<Rightarrow> owner_view" where
  "still t ow sid =
     (case ow sid of None \<Rightarrow> None | Some (w, dl) \<Rightarrow> if alive t dl then Some (w, dl) else None)"

text \<open>An unowned session gets the caller as its owner for \<open>ttl\<close>; an owned one stays as it is.\<close>

definition claimed :: "int \<Rightarrow> int \<Rightarrow> string \<Rightarrow> string \<Rightarrow> owner_view \<Rightarrow> owner_view" where
  "claimed ttl t sid u ow =
     (if still t ow sid = None then (still t ow)(sid \<mapsto> (u, Some (t + ttl))) else still t ow)"

lemma still_alive: "ow sid = Some (w, dl) \<Longrightarrow> alive t dl \<Longrightarrow> still t ow sid = Some (w, dl)"
  by (simp add: still_def)

lemma claimed_alive:
  "ow sid = Some (w, dl) \<Longrightarrow> alive t dl \<Longrightarrow> claimed ttl t sid' u ow sid = Some (w, dl)"
  by (auto simp: claimed_def still_def)

locale session_owner_store =
  fixes good :: "'e \<Rightarrow> bool"
    and claim :: "'e \<Rightarrow> string \<Rightarrow> string \<Rightarrow> ('d, bool) go_call"
    and getowner :: "'e \<Rightarrow> string \<Rightarrow> ('d, string) go_call"
    and now :: "'e \<Rightarrow> 'd \<Rightarrow> int"
    and owners :: "'e \<Rightarrow> 'd \<Rightarrow> owner_view"
    and ttl :: int
  assumes ttl_pos: "0 < ttl"
    and claim_ok: "good e \<Longrightarrow> claim e sid u d = (Inr b, d') \<Longrightarrow>
        now e d \<le> now e d' \<and> owners e d' = claimed ttl (now e d') sid u (owners e d) \<and>
        b = (\<exists>dl. owners e d' sid = Some (u, dl))"
    and claim_fail: "good e \<Longrightarrow> claim e sid u d = (Inl x, d') \<Longrightarrow>
        now e d \<le> now e d' \<and>
        (owners e d' = still (now e d') (owners e d) \<or>
         owners e d' = claimed ttl (now e d') sid u (owners e d))"
    and getowner_ok: "good e \<Longrightarrow> getowner e sid d = (Inr w, d') \<Longrightarrow>
        now e d \<le> now e d' \<and> owners e d' = still (now e d') (owners e d) \<and>
        (\<exists>dl. owners e d' sid = Some (w, dl))"
begin

text \<open>Calls of many clients, one after the other, whatever they return.\<close>

definition after_claims :: "'e \<Rightarrow> (string \<times> string) list \<Rightarrow> 'd \<Rightarrow> 'd" where
  "after_claims e cs d = fold (\<lambda>(sid, u) d. snd (claim e sid u d)) cs d"

lemma claim_step:
  assumes "good e"
  shows "now e d \<le> now e (snd (claim e sid u d)) \<and>
    (owners e d sid' = Some (w, dl) \<longrightarrow> alive (now e (snd (claim e sid u d))) dl \<longrightarrow>
     owners e (snd (claim e sid u d)) sid' = Some (w, dl))"
proof (cases "claim e sid u d")
  case (Pair r d')
  show ?thesis
  proof (cases r)
    case (Inl x)
    with Pair claim_fail [OF assms, of sid u d x d'] show ?thesis
      by (auto simp: still_alive claimed_alive)
  next
    case (Inr b)
    with Pair claim_ok [OF assms, of sid u d b d'] show ?thesis
      by (auto simp: claimed_alive)
  qed
qed

lemma after_claims_keeps:
  assumes "good e"
  shows "now e d \<le> now e (after_claims e cs d) \<and>
    (owners e d sid = Some (w, dl) \<longrightarrow> alive (now e (after_claims e cs d)) dl \<longrightarrow>
     owners e (after_claims e cs d) sid = Some (w, dl))"
proof (induction cs arbitrary: d)
  case (Cons c cs)
  obtain s u where c: "c = (s, u)" by (cases c)
  let ?d1 = "snd (claim e s u d)"
  have "after_claims e (c # cs) d = after_claims e cs ?d1"
    by (simp add: after_claims_def c)
  with Cons [of ?d1] claim_step [OF assms, of d s u sid w dl] alive_before show ?case
    by fastforce
qed (simp add: after_claims_def)

text \<open>While an ownership lasts, exactly its owner's claims succeed.\<close>

lemma claim_exclusive:
  assumes "good e" and "claim e sid u d = (Inr True, d1)" and "owners e d1 sid = Some (u, dl)"
    and "claim e sid w (after_claims e cs d1) = (Inr b, d2)" and "alive (now e d2) dl"
  shows "b \<longleftrightarrow> w = u"
proof -
  let ?d = "after_claims e cs d1"
  note c = claim_ok [OF assms(1,4)]
  have "alive (now e ?d) dl"
    using alive_before [OF _ assms(5)] c by blast
  then have "owners e ?d sid = Some (u, dl)"
    using after_claims_keeps [OF assms(1), of d1 cs sid u dl] assms(3) by blast
  then have "owners e d2 sid = Some (u, dl)"
    using c assms(5) by (simp add: claimed_alive)
  with c show ?thesis by auto
qed

lemma first_claim:
  assumes "good e" and "claim e sid u d = (Inr b, d1)" and "owners e d sid = None"
  shows "b" and "owners e d1 sid = Some (u, Some (now e d1 + ttl))"
  using claim_ok [OF assms(1,2)] assms(3) by (auto simp: claimed_def still_def)

end

text \<open>The Redis gateway provides it.\<close>

definition owner_entries :: "redis_view \<Rightarrow> owner_view" where
  "owner_entries v sid = (case lookup v (owner_key sid) of Some (VString w, dl) \<Rightarrow> Some (w, dl) | _ \<Rightarrow> None)"

lemma owner_entries_at_time:
  "rv_now v \<le> t \<Longrightarrow> owner_entries (at_time t v) = still t (owner_entries v)"
  by (rule ext) (auto simp: owner_entries_def still_def lookup_def dest: alive_before
      split: option.split redis_value.split)

lemma session_owner_entries: "session_owner v sid = map_option fst (owner_entries v sid)"
  by (simp add: session_owner_def owner_entries_def live_string_def
      split: option.split redis_value.split)

lemma claim_effect:
  assumes "redis_effect (EvalClaimOwner (owner_key sid) u ttl) v = Some (reply, v')" and "0 < ttl"
  shows "rv_now v' = rv_now v"
    and "owner_entries v' =
      (if owner_entries v sid = None then (owner_entries v)(sid \<mapsto> (u, Some (rv_now v + ttl))) else owner_entries v)"
    and "reply = RInt (if \<exists>dl. owner_entries v' sid = Some (u, dl) then 1 else 0)"
proof -
  consider (fresh) "lookup v (owner_key sid) = None"
    | (owned) w dl where "lookup v (owner_key sid) = Some (VString w, dl)"
    using assms(1) by (auto split: option.splits redis_value.splits)
  then have "rv_now v' = rv_now v \<and> owner_entries v' =
      (if owner_entries v sid = None then (owner_entries v)(sid \<mapsto> (u, Some (rv_now v + ttl))) else owner_entries v) \<and>
      reply = RInt (if \<exists>dl. owner_entries v' sid = Some (u, dl) then 1 else 0)"
  proof cases
    case fresh
    then have "v' = set_key (owner_key sid) (VString u) (Some (rv_now v + ttl)) v" and "reply = RInt 1"
      using assms(1) by (auto simp: claimOwnerScript_def live_string_def)
    then show ?thesis
      using assms(2) fresh by (auto simp: owner_entries_def lookup_set_key alive_def fun_eq_iff)
  next
    case owned
    then have "v' = v" and "reply = RInt (if w = u then 1 else 0)"
      using assms(1) by (auto simp: claimOwnerScript_def live_string_def split: if_splits)
    then show ?thesis
      using owned by (auto simp: owner_entries_def)
  qed
  then show "rv_now v' = rv_now v" and "owner_entries v' =
      (if owner_entries v sid = None then (owner_entries v)(sid \<mapsto> (u, Some (rv_now v + ttl))) else owner_entries v)"
    and "reply = RInt (if \<exists>dl. owner_entries v' sid = Some (u, dl) then 1 else 0)"
    by blast+
qed

lemma claim_effect_at:
  assumes "redis_effect (EvalClaimOwner (owner_key sid) u ttl) (at_time t v) = Some (reply, v')"
    and "0 < ttl" and "rv_now v \<le> t"
  shows "owner_entries v' = claimed ttl t sid u (owner_entries v)"
  using claim_effect(2) [OF assms(1,2)] assms(3) by (simp add: claimed_def owner_entries_at_time)

lemma ClaimOwner_Inr:
  assumes "redis_documented run view" and "ClaimOwner run sid u d = (Inr b, d')"
  shows "rv_now (view d) \<le> rv_now (view d') \<and>
    owner_entries (view d') = claimed owner_ttl (rv_now (view d')) sid u (owner_entries (view d)) \<and>
    b = (\<exists>dl. owner_entries (view d') sid = Some (u, dl))"
proof -
  obtain reply d1 where r: "run (EvalClaimOwner (owner_key sid) u owner_ttl) d = (Inr reply, d1)"
    and i: "go_bind (reply_int reply) (\<lambda>result. go_return (result = 1)) d1 = (Inr b, d')"
    using assms(2) unfolding ClaimOwner_def by (rule go_bind_cases) auto
  note e = redis_documentedD [OF assms(1) r]
  have pos: "0 < owner_ttl" by (simp add: owner_ttl_def)
  have reply: "reply = RInt (if \<exists>dl. owner_entries (view d1) sid = Some (u, dl) then 1 else 0)"
    using claim_effect(3) [OF e(2) pos] .
  then have "d1 = d'" and "b = (\<exists>dl. owner_entries (view d1) sid = Some (u, dl))"
    using i by (auto simp: go_return_def split: if_splits)
  with e(1) claim_effect_at [OF e(2) pos e(1)] show ?thesis by simp
qed

lemma ClaimOwner_Inl:
  assumes "redis_documented run view" and "ClaimOwner run sid u d = (Inl x, d')"
  shows "rv_now (view d) \<le> rv_now (view d') \<and>
    (owner_entries (view d') = still (rv_now (view d')) (owner_entries (view d)) \<or>
     owner_entries (view d') = claimed owner_ttl (rv_now (view d')) sid u (owner_entries (view d)))"
  using assms(2) unfolding ClaimOwner_def
proof (cases rule: go_bind_cases)
  case (fail y)
  note e = redis_documented_errD [OF assms(1) fail(1)]
  have pos: "0 < owner_ttl" by (simp add: owner_ttl_def)
  from e(2) show ?thesis
  proof
    assume "view d' = at_time (rv_now (view d')) (view d)"
    with e(1) show ?thesis using owner_entries_at_time by metis
  next
    assume "\<exists>reply. redis_effect (EvalClaimOwner (owner_key sid) u owner_ttl)
        (at_time (rv_now (view d')) (view d)) = Some (reply, view d')"
    with e(1) pos show ?thesis using claim_effect_at by blast
  qed
next
  case (step reply d1)
  have "reply = RInt (if \<exists>dl. owner_entries (view d1) sid = Some (u, dl) then 1 else 0)"
    using claim_effect(3) redis_documentedD(2) [OF assms(1) step(1)] by (simp add: owner_ttl_def)
  with step(2) show ?thesis by (auto simp: go_return_def split: if_splits)
qed

lemma RGet_effect:
  assumes "redis_documented run view" and "go_bind (run (RGet k)) reply_string d = (Inr s, d')"
  shows "rv_now (view d) \<le> rv_now (view d')" and "view d' = at_time (rv_now (view d')) (view d)"
    and "live_string (view d') k = Some s"
proof -
  obtain reply d1 where r: "run (RGet k) d = (Inr reply, d1)" and i: "reply_string reply d1 = (Inr s, d')"
    using assms(2) by (auto elim!: go_bind_cases)
  note e = redis_documentedD [OF assms(1) r]
  have "d1 = d'" and reply: "reply = RString s"
    using i by (cases reply; simp add: go_return_def go_fail_def)+
  with e show "rv_now (view d) \<le> rv_now (view d')" and "view d' = at_time (rv_now (view d')) (view d)"
    and "live_string (view d') k = Some s"
    by (auto simp: live_string_def split: option.splits redis_value.splits)
qed

interpretation owner: session_owner_store
  "\<lambda>(run, view). redis_documented run view" "\<lambda>(run, view). ClaimOwner run"
  "\<lambda>(run, view). GetOwner run" "\<lambda>(run, view) d. rv_now (view d)"
  "\<lambda>(run, view) d. owner_entries (view d)" owner_ttl
proof (unfold_locales, goal_cases)
  case 1
  show ?case by (simp add: owner_ttl_def)
next
  case (2 e sid u d b d')
  obtain run view where e: "e = (run, view)" by (cases e)
  from ClaimOwner_Inr [OF 2 [unfolded e split]] show ?case unfolding e split .
next
  case (3 e sid u d x d')
  obtain run view where e: "e = (run, view)" by (cases e)
  from ClaimOwner_Inl [OF 3 [unfolded e split]] show ?case unfolding e split .
next
  case (4 e sid d w d')
  obtain run view where e: "e = (run, view)" by (cases e)
  have doc: "redis_documented run view" and g: "go_bind (run (RGet (owner_key sid))) reply_string d = (Inr w, d')"
    using 4 by (simp_all add: e GetOwner_def)
  note r = RGet_effect [OF doc g]
  have "\<exists>dl. owner_entries (view d') sid = Some (w, dl)"
    using r(3) by (auto simp: live_string_def owner_entries_def split: option.splits redis_value.splits)
  then show ?case
    using r(1,2) owner_entries_at_time [OF r(1)] by (auto simp: e)
qed

section \<open>The contract of ICallbackStore\<close>

locale callback_store =
  fixes good :: "'e \<Rightarrow> bool"
    and setcb :: "'e \<Rightarrow> string \<Rightarrow> string \<Rightarrow> ('d, unit) go_call"
    and getcb :: "'e \<Rightarrow> string \<Rightarrow> ('d, string) go_call"
    and now :: "'e \<Rightarrow> 'd \<Rightarrow> int"
    and addrs :: "'e \<Rightarrow> 'd \<Rightarrow> owner_view"
    and ttl :: int
  assumes set_ok: "good e \<Longrightarrow> setcb e rid a d = (Inr (), d') \<Longrightarrow>
        now e d \<le> now e d' \<and> addrs e d' = (still (now e d') (addrs e d))(rid \<mapsto> (a, Some (now e d' + ttl)))"
    and get_ok: "good e \<Longrightarrow> getcb e rid d = (Inr a, d') \<Longrightarrow>
        now e d \<le> now e d' \<and> addrs e d' = still (now e d') (addrs e d) \<and>
        (\<exists>dl. addrs e d' rid = Some (a, dl))"
begin

text \<open>Within the time to live a lookup that answers gives the last address that was set.\<close>

lemma get_after_set:
  assumes "good e" and "setcb e rid a d = (Inr (), d1)" and "getcb e rid d1 = (Inr b, d2)"
    and "now e d2 < now e d1 + ttl"
  shows "b = a"
  using set_ok [OF assms(1,2)] get_ok [OF assms(1,3)] assms(4)
  by (auto simp: still_def alive_def)

text \<open>Setting the address of one request keeps the addresses of the others.\<close>

lemma get_other:
  assumes "good e" and "setcb e rid a d = (Inr (), d1)" and "getcb e rid' d1 = (Inr b, d2)" and "rid' \<noteq> rid"
  shows "\<exists>dl. addrs e d rid' = Some (b, dl)"
  using set_ok [OF assms(1,2)] get_ok [OF assms(1,3)] assms(4)
  by (auto simp: still_def split: option.splits if_splits)

end

definition callback_entries :: "redis_view \<Rightarrow> owner_view" where
  "callback_entries v rid = (case lookup v (callbackKey rid) of Some (VString a, dl) \<Rightarrow> Some (a, dl) | _ \<Rightarrow> None)"

lemma callback_entries_at_time:
  "rv_now v \<le> t \<Longrightarrow> callback_entries (at_time t v) = still t (callback_entries v)"
  by (rule ext) (auto simp: callback_entries_def still_def lookup_def dest: alive_before
      split: option.split redis_value.split)

interpretation callback: callback_store
  "\<lambda>(run, view). redis_documented run view" "\<lambda>(run, view). SetCallback run"
  "\<lambda>(run, view). GetCallback run" "\<lambda>(run, view) d. rv_now (view d)"
  "\<lambda>(run, view) d. callback_entries (view d)" callbackTTL
proof (unfold_locales, goal_cases)
  case (1 e rid a d d')
  obtain run view where e: "e = (run, view)" by (cases e)
  obtain reply where r: "run (RSetEX (callbackKey rid) a callbackTTL) d = (Inr reply, d')"
    using 1 by (auto simp: e SetCallback_def go_return_def elim!: go_bind_cases)
  note ef = redis_documentedD [OF 1(1) [unfolded e split] r]
  have v': "view d' = set_key (callbackKey rid) (VString a) (Some (rv_now (view d') + callbackTTL))
      (at_time (rv_now (view d')) (view d))"
    using ef(2) by simp
  have "callback_entries (set_key (callbackKey rid) (VString a) (Some (t + callbackTTL)) (at_time t v)) =
      (callback_entries (at_time t v))(rid \<mapsto> (a, Some (t + callbackTTL)))" for t v
    by (auto simp: callback_entries_def lookup_set_key alive_def callbackTTL_def fun_eq_iff)
  then have "callback_entries (view d') = (callback_entries (at_time (rv_now (view d')) (view d)))
      (rid \<mapsto> (a, Some (rv_now (view d') + callbackTTL)))"
    using v' by metis
  then show ?case
    using ef(1) by (simp add: e callback_entries_at_time)
next
  case (2 e rid d a d')
  obtain run view where e: "e = (run, view)" by (cases e)
  have doc: "redis_documented run view" and g: "go_bind (run (RGet (callbackKey rid))) reply_string d = (Inr a, d')"
    using 2 by (simp_all add: e GetCallback_def)
  note r = RGet_effect [OF doc g]
  have "\<exists>dl. callback_entries (view d') rid = Some (a, dl)"
    using r(3) by (auto simp: live_string_def callback_entries_def split: option.splits redis_value.splits)
  then show ?case
    using r(1,2) callback_entries_at_time [OF r(1)] by (auto simp: e)
qed

section \<open>The conversation history\<close>

text \<open>The sorted set under a key until a time \<open>h\<close> (no key for the empty set).\<close>

definition zset_until :: "int \<Rightarrow> redis_view \<Rightarrow> string \<Rightarrow> (int \<times> string) list \<Rightarrow> bool" where
  "zset_until h v k z \<longleftrightarrow> (\<forall>t. rv_now v \<le> t \<longrightarrow> t < h \<longrightarrow>
     (if z = [] then lookup (at_time t v) k = None
      else \<exists>dl. lookup (at_time t v) k = Some (VZSet z, dl)))"

lemma at_time_at_time [simp]: "at_time t (at_time t' v) = at_time t v"
  by (simp add: at_time_def)

lemma at_time_now [simp]: "at_time (rv_now v) v = v"
  by (simp add: at_time_def)

lemma lookup_set_key_at:
  "lookup (at_time t (set_key k x dl v)) k = (if alive t dl then Some (x, dl) else None)"
  by (simp add: lookup_def set_key_def at_time_def)

lemma zinsert_last: "(\<forall>(s', m') \<in> set z. s' < s) \<Longrightarrow> zinsert s m z = z @ [(s, m)]"
  by (induction s m z rule: zinsert.induct) auto

lemma zadd_last: "(\<forall>(s', m') \<in> set z. s' < s \<and> m' \<noteq> m) \<Longrightarrow> zadd s m z = z @ [(s, m)]"
  unfolding zadd_def by (subst filter_True) (auto intro: zinsert_last)

lemma zrange_last_20: "zrange (-20) (-1) xs = drop (length xs - 20) xs"
proof (cases "length xs \<le> 20")
  case True
  then show ?thesis by (simp add: zrange_def Let_def)
next
  case False
  then have "nat (int (length xs) - 20) = length xs - 20" by simp
  with False show ?thesis by (simp add: zrange_def Let_def)
qed

lemma save_step:
  assumes "redis_documented run view" and "cache_SaveMessage run c s msg d = (Inr (), d')"
    and "zset_until h (view d) (conversation_key (msg_SessionID msg)) z"
    and "h \<le> rv_now (view d) + cc_ttl c" and "0 < cc_ttl c" and "rv_now (view d') < h"
    and "\<forall>(s', m') \<in> set z. s' < s \<and> m' \<noteq> marshal_messageRecord (record_of msg)"
  shows "rv_now (view d) \<le> rv_now (view d')"
    and "zset_until h (view d') (conversation_key (msg_SessionID msg))
           (z @ [(s, marshal_messageRecord (record_of msg))])"
proof -
  let ?k = "conversation_key (msg_SessionID msg)" and ?m = "marshal_messageRecord (record_of msg)"
  obtain reply d1 reply' where 1: "run (RZAdd ?k s ?m) d = (Inr reply, d1)"
    and 2: "run (RExpire ?k (cc_ttl c)) d1 = (Inr reply', d')"
    using assms(2) unfolding cache_SaveMessage_def
    by (rule go_bind_cases) (auto simp: go_return_def elim!: go_bind_cases)
  note e1 = redis_documentedD [OF assms(1) 1] and e2 = redis_documentedD [OF assms(1) 2]
  show "rv_now (view d) \<le> rv_now (view d')" using e1(1) e2(1) by simp
  have t1: "rv_now (view d1) < h" using e2(1) assms(6) by simp
  obtain dl where v1: "view d1 = set_key ?k (VZSet (z @ [(s, ?m)])) dl (at_time (rv_now (view d1)) (view d))"
    and dl: "z = [] \<longrightarrow> dl = None"
      "z \<noteq> [] \<longrightarrow> (\<forall>t. rv_now (view d) \<le> t \<longrightarrow> t < h \<longrightarrow> alive t dl)"
  proof (cases "z = []")
    case True
    then have "lookup (at_time (rv_now (view d1)) (view d)) ?k = None"
      using assms(3) e1(1) t1 by (simp add: zset_until_def)
    with e1(2) True that [of None] show ?thesis by simp
  next
    case False
    then have l: "\<exists>dl. lookup (at_time t (view d)) ?k = Some (VZSet z, dl)"
      if "rv_now (view d) \<le> t" "t < h" for t
      using assms(3) that by (simp add: zset_until_def)
    obtain dl where dl: "lookup (at_time (rv_now (view d1)) (view d)) ?k = Some (VZSet z, dl)"
      using l [OF e1(1) t1] by blast
    then have raw: "rv_keys (view d) ?k = Some (VZSet z, dl)"
      by (auto simp: lookup_def split: option.splits if_splits)
    have "alive t dl" if "rv_now (view d) \<le> t" "t < h" for t
      using l [OF that] raw by (auto simp: lookup_def split: if_splits)
    with e1(2) dl False zadd_last [OF assms(7)] that [of dl] show ?thesis by simp
  qed
  have "alive (rv_now (view d')) dl"
    using dl e1(1) e2(1) assms(6) by (cases "z = []") (auto simp: alive_def)
  moreover have "lookup (at_time t (view d1)) ?k = (if alive t dl then Some (VZSet (z @ [(s, ?m)]), dl) else None)" for t
    by (subst v1) (rule lookup_set_key_at)
  ultimately have "lookup (at_time (rv_now (view d')) (view d1)) ?k = Some (VZSet (z @ [(s, ?m)]), dl)"
    by simp
  then have "redis_effect (RExpire ?k (cc_ttl c)) (at_time (rv_now (view d')) (view d1)) =
      Some (RInt 1, set_key ?k (VZSet (z @ [(s, ?m)])) (Some (rv_now (view d') + cc_ttl c))
        (at_time (rv_now (view d')) (view d1)))"
    using assms(5) by simp
  then have v2: "view d' = set_key ?k (VZSet (z @ [(s, ?m)]))
      (Some (rv_now (view d') + cc_ttl c)) (at_time (rv_now (view d')) (view d1))"
    using e2(2) by (simp only: option.inject prod.inject)
  have "rv_now (view d) \<le> rv_now (view d')" using e1(1) e2(1) by simp
  show "zset_until h (view d') ?k (z @ [(s, ?m)])"
    unfolding zset_until_def
  proof (intro allI impI)
    fix t assume t: "rv_now (view d') \<le> t" "t < h"
    have "alive t (Some (rv_now (view d') + cc_ttl c))"
      using t(2) assms(4) \<open>rv_now (view d) \<le> rv_now (view d')\<close> by (simp add: alive_def)
    moreover have "lookup (at_time t (view d')) ?k = lookup (at_time t (set_key ?k (VZSet (z @ [(s, ?m)]))
        (Some (rv_now (view d') + cc_ttl c)) (at_time (rv_now (view d')) (view d1)))) ?k"
      by (rule arg_cong [OF v2])
    ultimately show "if z @ [(s, ?m)] = [] then lookup (at_time t (view d')) ?k = None
        else \<exists>dl. lookup (at_time t (view d')) ?k = Some (VZSet (z @ [(s, ?m)]), dl)"
      by (simp add: lookup_set_key_at)
  qed
qed

fun cache_saves :: "'d redis \<Rightarrow> ConversationCache \<Rightarrow> (int \<times> Message) list \<Rightarrow> ('d, unit) go_call" where
  "cache_saves run c [] = go_return ()"
| "cache_saves run c ((s, msg) # ps) = go_bind (cache_SaveMessage run c s msg) (\<lambda>_. cache_saves run c ps)"

abbreviation zentry :: "int \<times> Message \<Rightarrow> int \<times> string" where
  "zentry p \<equiv> (fst p, marshal_messageRecord (record_of (snd p)))"

lemma saves_run:
  assumes "redis_documented run view" and "0 < cc_ttl c" and "h \<le> rv_now (view d) + cc_ttl c"
    and "\<forall>p \<in> set ps. msg_SessionID (snd p) = sid"
    and "zset_until h (view d) (conversation_key sid) z"
    and "cache_saves run c ps d = (Inr (), d')" and "rv_now (view d') < h"
    and "sorted_wrt (<) (map fst (z @ map zentry ps))" and "distinct (map snd (z @ map zentry ps))"
  shows "rv_now (view d) \<le> rv_now (view d') \<and> zset_until h (view d') (conversation_key sid) (z @ map zentry ps)"
  using assms(3-)
proof (induction ps arbitrary: d z)
  case Nil
  then show ?case by (simp add: go_return_def)
next
  case (Cons p ps)
  obtain s msg where p: "p = (s, msg)" by (cases p)
  obtain d1 where st: "cache_SaveMessage run c s msg d = (Inr (), d1)"
    and rest: "cache_saves run c ps d1 = (Inr (), d')"
    using Cons.prems(4) by (auto simp: p elim!: go_bind_cases)
  have sid: "msg_SessionID msg = sid" using Cons.prems(2) by (simp add: p)
  have "\<forall>x \<in> fst ` set z. x < s" and "marshal_messageRecord (record_of msg) \<notin> snd ` set z"
    using Cons.prems(6,7) by (simp_all add: p sorted_wrt_append)
  then have fresh: "\<forall>(s', m') \<in> set z. s' < s \<and> m' \<noteq> marshal_messageRecord (record_of msg)"
    by force
  have mono: "rv_now (view x) \<le> rv_now (view x')" if "cache_saves run c qs x = (Inr (), x')" for qs x x'
    using that
  proof (induction qs arbitrary: x)
    case (Cons q qs)
    then obtain x1 x2 r r' where "run (RZAdd (conversation_key (msg_SessionID (snd q))) (fst q)
          (marshal_messageRecord (record_of (snd q)))) x = (Inr r, x1)"
      "run (RExpire (conversation_key (msg_SessionID (snd q))) (cc_ttl c)) x1 = (Inr r', x2)"
      "cache_saves run c qs x2 = (Inr (), x')"
      by (cases q) (auto simp: cache_SaveMessage_def go_return_def elim!: go_bind_cases)
    with Cons.IH redis_documentedD(1) [OF assms(1)] show ?case by (meson order_trans)
  qed (simp add: go_return_def)
  have h1: "rv_now (view d1) < h"
    using mono [OF rest] Cons.prems(5) by simp
  note s1 = save_step [OF assms(1) st _ Cons.prems(1) assms(2) h1 fresh, unfolded sid, OF Cons.prems(3)]
  have "h \<le> rv_now (view d1) + cc_ttl c" using s1(1) Cons.prems(1) by simp
  with Cons.IH [of d1 "z @ [(s, marshal_messageRecord (record_of msg))]"] s1 rest Cons.prems(2,5,6,7)
  show ?case by (auto simp: p)
qed

definition utf8_Message :: "Message \<Rightarrow> Message" where
  "utf8_Message m =
     \<lparr>msg_SessionID = msg_SessionID m, msg_RequestID = to_valid_utf8 (msg_RequestID m),
      msg_Role = to_valid_utf8 (msg_Role m), msg_Content = to_valid_utf8 (msg_Content m)\<rparr>"

lemma history_messages_records:
  "\<forall>m \<in> set ms. msg_SessionID m = sid \<Longrightarrow>
     history_messages sid (map (\<lambda>m. marshal_messageRecord (record_of m)) ms) = map utf8_Message ms"
  by (induction ms)
    (simp_all add: message_record_read_back utf8_messageRecord_def record_of_def utf8_Message_def)

section \<open>Properties\<close>

text \<open>A server that answers at once and whose clock stands still between commands.\<close>

definition ref_redis :: "redis_view redis" where
  "ref_redis c v =
     (case redis_effect c v of
        None \<Rightarrow> (Inl (ErrText ''WRONGTYPE''), v)
      | Some (reply, v') \<Rightarrow> (Inr reply, v'))"

lemma redis_effect_now: "redis_effect c v = Some (reply, v') \<Longrightarrow> rv_now v' = rv_now v"
  by (cases c) (auto split: option.splits redis_value.splits prod.splits if_splits)

lemma ref_redis_documented: "redis_documented ref_redis (\<lambda>v. v)"
  unfolding redis_documented_def ref_redis_def
  by (auto simp: redis_effect_now split: option.splits)

definition empty_redis :: redis_view where
  "empty_redis = \<lparr>rv_now = 0, rv_keys = Map.empty\<rparr>"

lemma ClaimOwner_ref:
  "lookup v (owner_key sid) = None \<Longrightarrow> ClaimOwner ref_redis sid u v =
     (Inr True, set_key (owner_key sid) (VString u) (Some (rv_now v + 86400)) v)"
  "lookup v (owner_key sid) = Some (VString w, dl) \<Longrightarrow> ClaimOwner ref_redis sid u v = (Inr (w = u), v)"
  by (simp_all add: ClaimOwner_def go_bind_def ref_redis_def claimOwnerScript_def live_string_def
      go_return_def owner_ttl_def)

lemma empty_redis_simps [simp]: "lookup empty_redis k = None" "rv_now empty_redis = 0"
  by (simp_all add: lookup_def empty_redis_def)

definition claim_all :: "'d redis \<Rightarrow> (string \<times> string) list \<Rightarrow> 'd \<Rightarrow> 'd" where
  "claim_all run cs d = fold (\<lambda>(sid, u) d. snd (ClaimOwner run sid u d)) cs d"

lemma claim_all_after: "claim_all run cs d = owner.after_claims (run, view) cs d"
  by (simp add: claim_all_def owner.after_claims_def)

text \<open>
  (C15) A session belongs to the first user who claims it, for 24 hours: whatever claims any users
  make on any sessions in between (some may fail), a claim of that session that answers before the
  24 hours are over succeeds for that user and for nobody else.
\<close>

theorem owner_exclusive:
  assumes "redis_documented run view" and "session_owner (view d) sid = None"
    and "ClaimOwner run sid u d = (Inr b, d1)"
    and "ClaimOwner run sid w (claim_all run cs d1) = (Inr b', d2)"
    and "rv_now (view d2) < rv_now (view d1) + 24 * 60 * 60"
  shows "b \<and> (b' \<longleftrightarrow> w = u)"
proof -
  let ?e = "(run, view)"
  have none: "owner_entries (view d) sid = None"
    using assms(2) by (simp add: session_owner_entries)
  note f = owner.first_claim [of ?e sid u d b d1]
  have b: "b" and dl: "owner_entries (view d1) sid = Some (u, Some (rv_now (view d1) + owner_ttl))"
    using f assms(1,3) none by simp_all
  have "alive (rv_now (view d2)) (Some (rv_now (view d1) + owner_ttl))"
    using assms(5) by (simp add: alive_def owner_ttl_def)
  then have "b' \<longleftrightarrow> w = u"
    using owner.claim_exclusive [of ?e sid u d d1 "Some (rv_now (view d1) + owner_ttl)" w cs b' d2]
      assms(1,3,4) dl b by (simp add: claim_all_after [of run cs d1 view])
  with b show ?thesis by simp
qed

theorem owner_exclusive_witness:
  "\<exists>d1 d2. ClaimOwner ref_redis ''s'' ''ann'' empty_redis = (Inr True, d1) \<and>
     ClaimOwner ref_redis ''s'' ''bob'' (claim_all ref_redis [(''t'', ''bob''), (''s'', ''ann'')] d1) = (Inr False, d2)"
proof -
  let ?d1 = "set_key (owner_key ''s'') (VString ''ann'') (Some 86400) empty_redis"
  have 1: "ClaimOwner ref_redis ''s'' ''ann'' empty_redis = (Inr True, ?d1)"
    by (simp add: ClaimOwner_ref)
  obtain b' d2 where 2: "ClaimOwner ref_redis ''s'' ''bob'' (claim_all ref_redis [(''t'', ''bob''), (''s'', ''ann'')] ?d1) = (Inr b', d2)"
    and n2: "rv_now d2 = 0"
    by (simp add: claim_all_def ClaimOwner_ref lookup_set_key alive_def) blast
  have "session_owner empty_redis ''s'' = None"
    by (simp add: session_owner_def live_string_def lookup_def empty_redis_def)
  from owner_exclusive [OF ref_redis_documented this 1 2] n2 have "\<not> b'" by simp
  with 1 2 show ?thesis by simp
qed

text \<open>
  Using a session does not extend its ownership: however often the owner claims it again
  within the 24 hours, the ownership ends 24 hours after the first claim, and the first other user
  who claims the session then becomes its owner.
\<close>

theorem owner_not_renewed:
  assumes "redis_documented run view" and "session_owner (view d) sid = None"
    and "ClaimOwner run sid u d = (Inr b, d1)"
    and "rv_now (view (claim_all run cs d1)) < rv_now (view d1) + 24 * 60 * 60"
    and "ClaimOwner run sid w (claim_all run cs d1) = (Inr b', d2)"
    and "rv_now (view d1) + 24 * 60 * 60 \<le> rv_now (view d2)"
  shows "b' \<and> session_owner (view d2) sid = Some w"
proof -
  let ?e = "(run, view)" and ?dl = "Some (rv_now (view d1) + owner_ttl)"
  have none: "owner_entries (view d) sid = None"
    using assms(2) by (simp add: session_owner_entries)
  have dl: "owner_entries (view d1) sid = Some (u, ?dl)"
    using owner.first_claim(2) [of ?e sid u d b d1] assms(1,3) none by simp
  have "alive (rv_now (view (claim_all run cs d1))) ?dl"
    using assms(4) by (simp add: alive_def owner_ttl_def)
  then have "owner_entries (view (claim_all run cs d1)) sid = Some (u, ?dl)"
    using owner.after_claims_keeps [of ?e d1 cs sid u ?dl] assms(1) dl
    by (simp add: claim_all_after [of run cs d1 view])
  then have "still (rv_now (view d2)) (owner_entries (view (claim_all run cs d1))) sid = None"
    using assms(6) by (simp add: still_def alive_def owner_ttl_def)
  then show ?thesis
    using owner.claim_ok [of ?e sid w "claim_all run cs d1" b' d2] assms(1,5)
    by (simp add: claimed_def session_owner_entries)
qed

text \<open>A server whose clock advances by twelve hours with every command.\<close>

definition slow_redis :: "redis_view redis" where
  "slow_redis c v = ref_redis c (at_time (rv_now v + 43200) v)"

lemma slow_redis_documented: "redis_documented slow_redis (\<lambda>v. v)"
  unfolding redis_documented_def
proof (intro conjI allI impI)
  fix c d reply d'
  assume "slow_redis c d = (Inr reply, d')"
  then have e: "redis_effect c (at_time (rv_now d + 43200) d) = Some (reply, d')"
    by (auto simp: slow_redis_def ref_redis_def split: option.splits)
  from redis_effect_now [OF e] have "rv_now d' = rv_now d + 43200" by simp
  with e show "rv_now d \<le> rv_now d'" and "redis_effect c (at_time (rv_now d') d) = Some (reply, d')"
    by simp_all
qed (auto simp: slow_redis_def ref_redis_def split: option.splits)

theorem owner_not_renewed_witness:
  "\<exists>d1 d2. ClaimOwner slow_redis ''s'' ''ann'' empty_redis = (Inr True, d1) \<and>
     ClaimOwner slow_redis ''s'' ''bob'' (claim_all slow_redis [(''s'', ''ann'')] d1) = (Inr True, d2) \<and>
     session_owner d2 ''s'' = Some ''bob''"
proof -
  obtain d1 where 1: "ClaimOwner slow_redis ''s'' ''ann'' empty_redis = (Inr True, d1)"
    and d1: "d1 = set_key (owner_key ''s'') (VString ''ann'') (Some 129600) (at_time 43200 empty_redis)"
    by (simp add: ClaimOwner_def go_bind_def slow_redis_def ref_redis_def lookup_def empty_redis_def
        claimOwnerScript_def live_string_def go_return_def owner_ttl_def)
  have c: "claim_all slow_redis [(''s'', ''ann'')] d1 = at_time 86400 d1"
    by (simp add: d1 claim_all_def ClaimOwner_def go_bind_def slow_redis_def ref_redis_def
        live_string_def lookup_set_key_at alive_def claimOwnerScript_def go_return_def)
  obtain b' d2 where 2: "ClaimOwner slow_redis ''s'' ''bob'' (claim_all slow_redis [(''s'', ''ann'')] d1) = (Inr b', d2)"
    and n2: "rv_now d2 = 129600"
    by (simp add: c) (simp add: d1 ClaimOwner_def go_bind_def slow_redis_def ref_redis_def live_string_def
        lookup_set_key_at alive_def claimOwnerScript_def go_return_def)
  have "session_owner empty_redis ''s'' = None"
    by (simp add: session_owner_def live_string_def lookup_def empty_redis_def)
  from owner_not_renewed [OF slow_redis_documented this 1 _ 2] n2
  have "b' \<and> session_owner d2 ''s'' = Some ''bob''"
    by (simp add: c) (simp add: d1)
  with 1 2 show ?thesis by simp
qed

text \<open>
  The callback address a handler stores for its request is the one the streaming worker reads
  back for it, if the read answers within five minutes; afterwards the read cannot return it.
\<close>

theorem callback_roundtrip:
  assumes "redis_documented run view" and "SetCallback run rid a d = (Inr (), d1)"
    and "GetCallback run rid d1 = (Inr b, d2)"
  shows "rv_now (view d2) < rv_now (view d1) + 5 * 60 \<and> b = a"
proof -
  let ?e = "(run, view)"
  have 1: "callback_entries (view d1) rid = Some (a, Some (rv_now (view d1) + callbackTTL))"
    using callback.set_ok [of ?e rid a d d1] assms(1,2) by simp
  have "\<exists>dl. still (rv_now (view d2)) (callback_entries (view d1)) rid = Some (b, dl)"
    using callback.get_ok [of ?e rid d1 b d2] assms(1,3) by auto
  with 1 show ?thesis
    by (auto simp: still_def alive_def callbackTTL_def split: if_splits)
qed

theorem callback_roundtrip_witness:
  "\<exists>d1 d2. SetCallback ref_redis ''r'' ''api:1'' empty_redis = (Inr (), d1) \<and>
     GetCallback ref_redis ''r'' d1 = (Inr ''api:1'', d2)"
proof -
  obtain d1 where 1: "SetCallback ref_redis ''r'' ''api:1'' empty_redis = (Inr (), d1)"
    and d1: "d1 = set_key (callbackKey ''r'') (VString ''api:1'') (Some 300) empty_redis"
    by (simp add: SetCallback_def go_bind_def ref_redis_def go_return_def empty_redis_def callbackTTL_def)
  obtain b d2 where 2: "GetCallback ref_redis ''r'' d1 = (Inr b, d2)"
    by (simp add: d1 GetCallback_def go_bind_def ref_redis_def lookup_set_key alive_def go_return_def
        empty_redis_def)
  from callback_roundtrip [OF ref_redis_documented 1 2] 1 2 show ?thesis by simp
qed

text \<open>
  The conversation cache returns the last 20 messages in the order they were saved: messages
  saved to an empty session with increasing scores and pairwise different texts come back, the last
  20 of them, with role, content and request id (invalid UTF-8 replaced) and the session's id, as
  long as the time to live has not passed since the first was saved.
\<close>

theorem cache_history_last_20:
  assumes "redis_documented run view" and "0 < cc_ttl c"
    and "lookup (view d) (conversation_key sid) = None"
    and "\<forall>p \<in> set ps. msg_SessionID (snd p) = sid" and "sorted_wrt (<) (map fst ps)"
    and "distinct (map (marshal_messageRecord \<circ> record_of \<circ> snd) ps)"
    and "cache_saves run c ps d = (Inr (), d1)" and "cache_GetHistory run sid d1 = (Inr ms, d2)"
    and "rv_now (view d2) < rv_now (view d) + cc_ttl c"
  shows "ms = drop (length ps - 20) (map (utf8_Message \<circ> snd) ps)"
proof -
  let ?k = "conversation_key sid" and ?h = "rv_now (view d) + cc_ttl c"
  let ?recs = "map (\<lambda>p. marshal_messageRecord (record_of (snd p))) ps"
  obtain reply where g: "run (RZRange ?k (-20) (-1)) d1 = (Inr reply, d2)"
    and rd: "go_bind (reply_strings reply) (\<lambda>raw. go_return (history_messages sid raw)) d2 = (Inr ms, d2)"
  proof -
    from assms(8) obtain reply t where 1: "run (RZRange ?k (-20) (-1)) d1 = (Inr reply, t)"
      and 2: "go_bind (reply_strings reply) (\<lambda>raw. go_return (history_messages sid raw)) t = (Inr ms, d2)"
      unfolding cache_GetHistory_def by (rule go_bind_cases) auto
    from 2 have "t = d2"
      by (cases reply) (auto simp: go_return_def go_fail_def)
    with 1 2 that show thesis by simp
  qed
  note e = redis_documentedD [OF assms(1) g]
  have z0: "zset_until ?h (view d) ?k []"
    unfolding zset_until_def
    using assms(3) lookup_at_time [of "view d" _ ?k] by (metis option.exhaust)
  have "map (fst \<circ> zentry) ps = map fst ps" and "map (snd \<circ> zentry) ps = ?recs"
    by (simp_all add: comp_def)
  then have z: "zset_until ?h (view d1) ?k (map zentry ps)" and "rv_now (view d1) < ?h"
    using saves_run [OF assms(1,2) order_refl assms(4) z0 assms(7)] assms(5,6,9) e(1)
    by (simp_all add: comp_def)
  then have "reply = RStrings (map snd (zrange (-20) (-1) (map zentry ps)))"
    using z e assms(9) unfolding zset_until_def
    by (cases "ps = []") (auto simp: zrange_def split: if_splits)
  also have "map snd (zrange (-20) (-1) (map zentry ps)) = drop (length ps - 20) ?recs"
    by (simp add: zrange_last_20 drop_map comp_def)
  finally have reply: "reply = RStrings (drop (length ps - 20) ?recs)" .
  have "ms = history_messages sid (drop (length ps - 20) ?recs)"
    using rd by (simp add: reply go_return_def)
  also have "drop (length ps - 20) ?recs =
      map (\<lambda>m. marshal_messageRecord (record_of m)) (map snd (drop (length ps - 20) ps))"
    by (simp add: drop_map comp_def)
  also have "history_messages sid \<dots> = map utf8_Message (map snd (drop (length ps - 20) ps))"
    using assms(4) by (intro history_messages_records) (auto dest: in_set_dropD)
  finally show ?thesis by (simp add: drop_map)
qed

lemma cache_SaveMessage_ref:
  assumes "lookup v (conversation_key (msg_SessionID m)) =
      (if z = [] then None else Some (VZSet z, dl))"
    and "z \<noteq> [] \<longrightarrow> zadd s (marshal_messageRecord (record_of m)) z = z @ [(s, marshal_messageRecord (record_of m))]"
    and "0 < cc_ttl c"
  shows "\<exists>v'. cache_SaveMessage ref_redis c s m v = (Inr (), v') \<and> rv_now v' = rv_now v \<and>
    lookup v' (conversation_key (msg_SessionID m)) =
      Some (VZSet (z @ [(s, marshal_messageRecord (record_of m))]), Some (rv_now v + cc_ttl c))"
proof -
  have "alive (rv_now v) dl" if "z \<noteq> []"
    using assms(1) that by (auto simp: lookup_def split: option.splits if_splits)
  with assms show ?thesis
    by (cases "z = []")
      (simp_all add: cache_SaveMessage_def go_bind_def ref_redis_def lookup_set_key alive_def go_return_def)
qed

definition demo_message :: "string \<Rightarrow> Message" where
  "demo_message c =
     \<lparr>msg_SessionID = ''s1'', msg_RequestID = ''r1'', msg_Role = RoleUser, msg_Content = c\<rparr>"

theorem cache_history_last_20_witness:
  "\<exists>d1 d2. cache_saves ref_redis \<lparr>cc_ttl = 60\<rparr> [(1, demo_message ''a''), (2, demo_message ''b'')] empty_redis = (Inr (), d1) \<and>
     cache_GetHistory ref_redis ''s1'' d1 = (Inr [demo_message ''a'', demo_message ''b''], d2)"
proof -
  let ?c = "\<lparr>cc_ttl = 60\<rparr>" and ?ps = "[(1 :: int, demo_message ''a''), (2, demo_message ''b'')]"
  let ?k = "conversation_key ''s1''"
  have sid [simp]: "msg_SessionID (demo_message x) = ''s1''" for x by (simp add: demo_message_def)
  have u: "utf8_Message (demo_message x) = demo_message x" if "ascii x" for x
    using that by (simp add: utf8_Message_def demo_message_def RoleUser_def to_valid_utf8_ascii ascii_def byte_def)
  have ne: "marshal_messageRecord (record_of (demo_message ''a'')) \<noteq> marshal_messageRecord (record_of (demo_message ''b''))"
  proof
    assume "marshal_messageRecord (record_of (demo_message ''a'')) = marshal_messageRecord (record_of (demo_message ''b''))"
    then have "history_messages ''s1'' (map (\<lambda>m. marshal_messageRecord (record_of m)) [demo_message ''a'']) =
      history_messages ''s1'' (map (\<lambda>m. marshal_messageRecord (record_of m)) [demo_message ''b''])"
      by simp
    then show False
      by (subst (asm) (1 2) history_messages_records)
        (simp_all add: u ascii_def byte_def, simp add: demo_message_def)
  qed
  obtain v1 where v1: "cache_SaveMessage ref_redis ?c 1 (demo_message ''a'') empty_redis = (Inr (), v1)"
    and n1: "rv_now v1 = 0"
    and l1: "lookup v1 ?k = Some (VZSet [(1, marshal_messageRecord (record_of (demo_message ''a'')))], Some 60)"
    using cache_SaveMessage_ref [of empty_redis "demo_message ''a''" "[]" None 1 ?c] by auto
  obtain v2 where v2: "cache_SaveMessage ref_redis ?c 2 (demo_message ''b'') v1 = (Inr (), v2)"
    and n2: "rv_now v2 = 0"
    and l2: "\<exists>z dl. lookup v2 ?k = Some (VZSet z, dl)"
    using cache_SaveMessage_ref [of v1 "demo_message ''b''" "[(1, marshal_messageRecord (record_of (demo_message ''a'')))]" "Some 60" 2 ?c]
      l1 n1 ne by (auto simp: zadd_def)
  have saves: "cache_saves ref_redis ?c ?ps empty_redis = (Inr (), v2)"
    by (simp add: go_bind_def v1 v2 go_return_def)
  obtain ms where g: "cache_GetHistory ref_redis ''s1'' v2 = (Inr ms, v2)"
    using l2 by (auto simp: cache_GetHistory_def go_bind_def ref_redis_def go_return_def)
  have "ms = drop (length ?ps - 20) (map (utf8_Message \<circ> snd) ?ps)"
    by (rule cache_history_last_20 [OF ref_redis_documented _ _ _ _ _ saves g])
      (use ne n2 in simp_all)
  with saves g show ?thesis by (simp add: u ascii_def byte_def)
qed

end
