(* ===== verification/Decoded.thy ===== *)
theory Decoded
  imports Wire
begin

text \<open>
  What decoding gives: every string in a value that \<open>json.Unmarshal\<close> reads is valid UTF-8, whatever
  bytes the document has, and so is every text of a decoded message.  The events a worker publishes
  for a decoded request are therefore read back as they are.
\<close>

section \<open>Valid UTF-8\<close>

lemma valid_utf8_Nil [simp]: "valid_utf8 []"
  by (simp add: valid_utf8.simps)

lemma valid_utf8_single: "0 < rune_len s \<Longrightarrow> valid_utf8 (take (rune_len s) s)"
  using rune_len_append [of s "[]"] by (subst valid_utf8.simps) auto

lemma valid_utf8_append: "valid_utf8 x \<Longrightarrow> valid_utf8 y \<Longrightarrow> valid_utf8 (x @ y)"
proof (induction x rule: valid_utf8.induct)
  case (1 x)
  show ?case
  proof (cases "x = []")
    case False
    with 1(2) have l: "0 < rune_len x" and v: "valid_utf8 (drop (rune_len x) x)"
      by (auto simp: valid_utf8.simps [of x] split: if_splits)
    have "rune_len (x @ y) = rune_len x"
      using rune_len_append [OF l, of "drop (rune_len x) x @ y"] by (metis append.assoc append_take_drop_id)
    moreover have "valid_utf8 (drop (rune_len x) x @ y)"
      using 1 False l v by simp
    ultimately show ?thesis
      using False l rune_len_le [of x] by (subst valid_utf8.simps) simp
  qed (use 1 in simp)
qed

lemma valid_utf8_rune: "rune_len s = length s \<Longrightarrow> valid_utf8 s"
  by (subst valid_utf8.simps) simp

lemmas div_bounds = div_less_iff_less_mult less_eq_div_iff_mult_less_eq

lemma second_byte_3:
  assumes "2048 \<le> r" and "r < 65536" and "\<not> surrogate r"
  shows "second_ok (224 + r div 4096) (chr (128 + r div 64 mod 64))"
proof -
  have m: "r div 64 mod 64 = r div 64 - 64 * (r div 4096)"
    by (simp add: minus_mult_div_eq_mod [symmetric] div_mult2_eq [of r 64 64, simplified])
  have "160 \<le> 128 + r div 64 mod 64" if "r div 4096 = 0"
    using assms(1) that unfolding m by (simp add: div_bounds)
  moreover have "128 + r div 64 mod 64 \<le> 159" if "r div 4096 = 13"
  proof -
    have "4096 * 13 \<le> r" "r < 4096 * 14"
      using that div_mult_mod_eq [of r 4096] mod_less_divisor [of 4096 r] by linarith+
    with assms(3) have "r < 55296" by (simp add: surrogate_def)
    then have "r div 64 < 864" by (simp add: div_bounds)
    then show ?thesis unfolding m using that by simp
  qed
  moreover have "128 + r div 64 mod 64 \<le> 191" "128 \<le> 128 + r div 64 mod 64" using mod_less_divisor [of 64 "r div 64"] by linarith+
  moreover have "224 + r div 4096 \<noteq> 240"
    using assms(2) div_bounds(1) [of 4096 r 16] by simp
  moreover have "byte (chr (128 + r div 64 mod 64)) = 128 + r div 64 mod 64"
    using calculation(3) by (intro byte_chr) simp
  ultimately show ?thesis
    using assms(2) div_bounds(1) [of 4096 r 16] unfolding second_ok_def by (auto simp del: byte_chr)
qed

lemma second_byte_4:
  assumes "65536 \<le> r" and "r < 0x110000"
  shows "second_ok (240 + r div 262144) (chr (128 + r div 4096 mod 64))"
proof -
  have m: "r div 4096 mod 64 = r div 4096 - 64 * (r div 262144)"
    by (simp add: minus_mult_div_eq_mod [symmetric] div_mult2_eq [of r 4096 64, simplified])
  have "144 \<le> 128 + r div 4096 mod 64" if "r div 262144 = 0"
    using assms(1) that unfolding m by (simp add: div_bounds)
  moreover have "128 + r div 4096 mod 64 \<le> 143" if "r div 262144 = 4"
    using assms(2) that div_bounds(1) [of 4096 r 272] unfolding m by simp
  moreover have "128 + r div 4096 mod 64 \<le> 191" "128 \<le> 128 + r div 4096 mod 64"
    using mod_less_divisor [of 64 "r div 4096"] by linarith+
  moreover have "byte (chr (128 + r div 4096 mod 64)) = 128 + r div 4096 mod 64"
    using calculation(3) by (intro byte_chr) simp
  ultimately show ?thesis
    unfolding second_ok_def by (auto simp del: byte_chr)
qed

lemma cont_chr: "cont (chr (128 + n mod 64))"
proof -
  have "128 + n mod 64 < 256" "128 + n mod 64 \<le> 191"
    using mod_less_divisor [of 64 n] by linarith+
  then show ?thesis by (simp add: cont_def)
qed

lemma valid_encode_rune:
  assumes "r < 0x110000" and "\<not> surrogate r"
  shows "valid_utf8 (encode_rune r)"
proof (rule valid_utf8_rune)
  consider "r < 128" | "128 \<le> r" "r < 2048" | "2048 \<le> r" "r < 65536" | "65536 \<le> r"
    by linarith
  then show "rune_len (encode_rune r) = length (encode_rune r)"
  proof cases
    case 1
    then show ?thesis by (simp add: encode_rune_def)
  next
    case 2
    then have "192 + r div 64 < 224" "194 \<le> 192 + r div 64" by (simp_all add: div_bounds)
    with 2 cont_chr [of r] show ?thesis by (simp add: encode_rune_def rune_len.simps(2) Let_def)
  next
    case 3
    then have "224 + r div 4096 < 240" by (simp add: div_bounds)
    with 3 second_byte_3 [OF 3 assms(2)] cont_chr [of r] show ?thesis
      by (simp add: encode_rune_def rune_len.simps(2) Let_def)
  next
    case 4
    then have "240 + r div 262144 < 245" using assms(1) by (simp add: div_bounds)
    with 4 second_byte_4 [OF 4 assms(1)] cont_chr [of r] cont_chr [of "r div 64"] show ?thesis
      by (simp add: encode_rune_def rune_len.simps(2) Let_def)
  qed
qed

lemma valid_replacement [simp]: "valid_utf8 replacement"
  by (simp add: replacement_def valid_encode_rune surrogate_def)

lemma to_valid_utf8_bad: "rune_len [c] = 0 \<Longrightarrow> to_valid_utf8 [c] = replacement"
  by (subst to_valid_utf8.simps) simp

section \<open>Strings of a document\<close>

lemma unhex_less: "unhex c = Some n \<Longrightarrow> n < 16"
  by (auto simp: unhex_def Let_def split: if_splits)

lemma getu4_less:
  assumes "getu4 s = Some r"
  shows "r < 65536"
proof -
  obtain a b c d t where "drop 2 s = a # b # c # d # t"
    using assms by (auto simp: getu4_def split: if_splits elim!: unhex4.elims)
  moreover obtain w x y z where "unhex a = Some w" "unhex b = Some x" "unhex c = Some y" "unhex d = Some z"
    "r = 4096 * w + 256 * x + 16 * y + z"
    using assms calculation by (auto simp: getu4_def split: if_splits option.splits)
  ultimately show ?thesis
    using unhex_less [of a w] unhex_less [of b x] unhex_less [of c y] unhex_less [of d z] by simp
qed

lemma utf16_pair_range:
  "utf16_pair r1 r2 = Some r \<Longrightarrow> 0x10000 \<le> r \<and> r < 0x110000"
  by (auto simp: utf16_pair_def split: option.splits if_splits)

lemma simple_escape_ascii: "simple_escape c = Some e \<Longrightarrow> ascii e"
  by (auto simp: simple_escape_def ascii_def byte_def split: if_splits)

lemma valid_map_append:
  "map_option ((@) e) y = Some x \<Longrightarrow> valid_utf8 e \<Longrightarrow> (\<And>z. y = Some z \<Longrightarrow> valid_utf8 z) \<Longrightarrow> valid_utf8 x"
  by (auto intro: valid_utf8_append)

lemma unquote_valid: "unquote s = Some x \<Longrightarrow> valid_utf8 x"
proof (induction s arbitrary: x rule: unquote.induct)
  case (1 s)
  have pair: "valid_utf8 (encode_rune r')" if "utf16_pair r q = Some r'" for r q r'
    using utf16_pair_range [OF that] by (intro valid_encode_rune) (auto simp: surrogate_def)
  have u4: "valid_utf8 (encode_rune r)" if "getu4 s = Some r" "\<not> surrogate r" for r
    using getu4_less [OF that(1)] that(2) by (intro valid_encode_rune) simp
  note 1(7) [unfolded unquote.simps [of s]]
  then show ?case
    using "1.IH" pair u4 valid_utf8_single [of s] valid_utf8_ascii [OF simple_escape_ascii]
    by (auto split: if_splits option.splits intro!: valid_utf8_append)
qed

section \<open>Values\<close>

fun json_utf8 :: "json \<Rightarrow> bool" where
  "json_utf8 (JStr s) = valid_utf8 s"
| "json_utf8 (JArr xs) = (\<forall>x \<in> set xs. json_utf8 x)"
| "json_utf8 (JObj kvs) = (\<forall>(k, v) \<in> set kvs. valid_utf8 k \<and> json_utf8 v)"
| "json_utf8 _ = True"

fun tok_utf8 :: "tok \<Rightarrow> bool" where
  "tok_utf8 (TStr s) = valid_utf8 s"
| "tok_utf8 (TAtom v) = json_utf8 v"
| "tok_utf8 _ = True"

lemma classify_utf8: "classify w = Some t \<Longrightarrow> tok_utf8 t"
  by (auto simp: classify_def split: if_splits)

lemma punct_utf8: "punct c = Some t \<Longrightarrow> tok_utf8 t"
  by (auto simp: punct_def split: if_splits)

lemma lex_utf8: "lex m s = Some ts \<Longrightarrow> \<forall>t \<in> set ts. tok_utf8 t"
  by (induction m s arbitrary: ts rule: lex.induct)
    (auto split: if_splits option.splits dest: classify_utf8 punct_utf8, erule unquote_valid)

fun frame_utf8 :: "frame \<Rightarrow> bool" where
  "frame_utf8 (FArr xs) = (\<forall>x \<in> set xs. json_utf8 x)"
| "frame_utf8 (FObj kvs) = (\<forall>(k, v) \<in> set kvs. valid_utf8 k \<and> json_utf8 v)"
| "frame_utf8 (FKey k kvs) = (valid_utf8 k \<and> (\<forall>(k, v) \<in> set kvs. valid_utf8 k \<and> json_utf8 v))"

fun conf_utf8 :: "conf \<Rightarrow> bool" where
  "conf_utf8 (Done v) = json_utf8 v"
| "conf_utf8 (Expect st) = (\<forall>f \<in> set st. frame_utf8 f)"
| "conf_utf8 (ExpectOrEnd st) = (\<forall>f \<in> set st. frame_utf8 f)"
| "conf_utf8 (KeyOrEnd st) = (\<forall>f \<in> set st. frame_utf8 f)"
| "conf_utf8 (Key st) = (\<forall>f \<in> set st. frame_utf8 f)"
| "conf_utf8 (Colon st) = (\<forall>f \<in> set st. frame_utf8 f)"
| "conf_utf8 (After st) = (\<forall>f \<in> set st. frame_utf8 f)"

lemma complete_utf8:
  "complete v st = Some c \<Longrightarrow> json_utf8 v \<Longrightarrow> (\<forall>f \<in> set st. frame_utf8 f) \<Longrightarrow> conf_utf8 c"
  by (induction v st rule: complete.induct) auto

lemma value_tok_utf8:
  "value_tok st t = Some c \<Longrightarrow> tok_utf8 t \<Longrightarrow> (\<forall>f \<in> set st. frame_utf8 f) \<Longrightarrow> conf_utf8 c"
  by (cases t) (auto split: if_splits intro: complete_utf8)

lemma key_tok_utf8:
  "key_tok st t = Some c \<Longrightarrow> tok_utf8 t \<Longrightarrow> (\<forall>f \<in> set st. frame_utf8 f) \<Longrightarrow> conf_utf8 c"
  by (induction st t rule: key_tok.induct) auto

lemma parse_step_utf8: "parse_step c t = Some c' \<Longrightarrow> tok_utf8 t \<Longrightarrow> conf_utf8 c \<Longrightarrow> conf_utf8 c'"
  by (induction c t rule: parse_step.induct)
    (auto split: if_splits intro: value_tok_utf8 key_tok_utf8 complete_utf8, (erule value_tok_utf8; simp)+)

lemma parse_run_utf8: "parse_run c ts = Some c' \<Longrightarrow> \<forall>t \<in> set ts. tok_utf8 t \<Longrightarrow> conf_utf8 c \<Longrightarrow> conf_utf8 c'"
  by (induction ts arbitrary: c) (auto split: option.splits dest: parse_step_utf8)

lemma parse_json_utf8: "parse_json s = Some v \<Longrightarrow> json_utf8 v"
  using parse_run_utf8 [of "Expect []"] lex_utf8 [of LTop s]
  by (fastforce simp: parse_json_def split: option.splits conf.splits)

section \<open>Decoded messages\<close>

text \<open>A property that every field's store keeps holds of every decoded struct.\<close>

lemma find_field_in: "find_field fs k = Some f \<Longrightarrow> \<exists>n. (n, f) \<in> set fs"
  by (auto simp: find_field_def split: option.splits dest!: map_of_SomeD)

definition keeps :: "'s field list \<Rightarrow> ('s \<Rightarrow> bool) \<Rightarrow> bool" where
  "keeps fs P \<longleftrightarrow> (\<forall>(n, f) \<in> set fs. \<forall>v x y. f v x = Some y \<longrightarrow> json_utf8 v \<longrightarrow> P x \<longrightarrow> P y)"

lemma set_fields_keeps:
  assumes "keeps fs P"
  shows "set_fields fs kvs x = Some y \<Longrightarrow> \<forall>(k, v) \<in> set kvs. json_utf8 v \<Longrightarrow> P x \<Longrightarrow> P y"
proof (induction kvs arbitrary: x)
  case (Cons kv kvs)
  obtain k v where kv: "kv = (k, v)" by (cases kv)
  show ?case
  proof (cases "find_field fs k")
    case None
    with Cons kv show ?thesis by simp
  next
    case (Some f)
    then obtain z where z: "f v x = Some z" "set_fields fs kvs z = Some y"
      using Cons.prems(1) kv by (auto split: option.splits)
    obtain n where "(n, f) \<in> set fs" using find_field_in [OF Some] by blast
    with assms z(1) Cons.prems(2,3) kv have "P z" by (auto simp: keeps_def)
    with Cons.IH [OF z(2)] Cons.prems(2) show ?thesis by simp
  qed
qed simp

lemma Unmarshal_keeps:
  assumes "Unmarshal fs x s = Some y" and "keeps fs P" and "P x"
  shows "P y"
proof -
  obtain j where j: "parse_json s = Some j" and y: "store_value fs x j = Some y"
    using assms(1) by (auto simp: Unmarshal_def split: option.splits)
  have u: "json_utf8 j" using parse_json_utf8 [OF j] .
  show ?thesis
  proof (cases j)
    case (JObj kvs)
    with u have "\<forall>(k, v) \<in> set kvs. json_utf8 v" by auto
    with set_fields_keeps [OF assms(2)] JObj y assms(3) show ?thesis by simp
  qed (use y assms(3) in simp_all)
qed

lemma field_string_valid:
  "field_string upd v x = Some y \<Longrightarrow> json_utf8 v \<Longrightarrow> y = x \<or> (\<exists>s. valid_utf8 s \<and> y = upd (\<lambda>_. s) x)"
  by (cases v) auto

lemma field_bool_update: "field_bool upd v x = Some y \<Longrightarrow> y = x \<or> (\<exists>b. y = upd (\<lambda>_. b) x)"
  by (cases v) auto

lemma field_float_update: "field_float upd v x = Some y \<Longrightarrow> y = x \<or> (\<exists>n. y = upd (\<lambda>_. n) x)"
  by (cases v) (auto split: if_splits)

definition event_utf8 :: "TokenEvent \<Rightarrow> bool" where
  "event_utf8 t \<longleftrightarrow> valid_utf8 (te_RequestID t) \<and> valid_utf8 (te_SessionID t) \<and>
     valid_utf8 (te_UserMessage t) \<and> valid_utf8 (te_Delta t)"

definition request_utf8 :: "ChatRequest \<Rightarrow> bool" where
  "request_utf8 r \<longleftrightarrow> valid_utf8 (cr_RequestID r) \<and> valid_utf8 (cr_SessionID r) \<and> valid_utf8 (cr_Content r)"

lemma unmarshal_TokenEvent_utf8: "unmarshal_TokenEvent m = Some t \<Longrightarrow> event_utf8 t"
  unfolding unmarshal_TokenEvent_def
  by (erule Unmarshal_keeps)
    (auto simp: keeps_def token_event_fields_def zero_TokenEvent_def event_utf8_def
      dest!: field_string_valid field_bool_update)

lemma unmarshal_ChatRequest_utf8: "unmarshal_ChatRequest m = Some r \<Longrightarrow> request_utf8 r"
  unfolding unmarshal_ChatRequest_def
  by (erule Unmarshal_keeps)
    (auto simp: keeps_def chat_request_fields_def zero_ChatRequest_def request_utf8_def
      dest!: field_string_valid field_float_update)

lemma event_utf8_id: "event_utf8 t \<Longrightarrow> utf8_TokenEvent t = t"
  by (cases t) (simp add: event_utf8_def utf8_TokenEvent_def to_valid_utf8_id)

section \<open>Properties\<close>



end
