(* ===== verification/MessageStore.thy ===== *)
theory MessageStore
  imports Decoded "HOL-Library.Multiset"
begin

text \<open>
  \<open>internal/adapter/gateway/store/message_store.go\<close> and the part of \<open>IMessageStore\<close>
  (\<open>internal/usecase/boundary.go\<close>) that the persistence use case calls.

  GORM and PostgreSQL are not code of the repository: a statement the store issues is a value of
  \<open>gorm_call\<close>, and running it is a parameter \<open>db\<close>, a function on the database's
  state.  What the code relies on is the hypothesis \<open>pg_documented\<close>: through an abstract view
  of the state (the session ids, and the message rows by ascending id), a successful statement has
  the effect SQL documents, with the primary key of \<open>sessions\<close>, the foreign key of
  \<open>messages.session_id\<close> and the unique index \<open>idx_request_role\<close> that
  \<open>cmd/migrate\<close> creates; a failed one has no effect, or had it and the answer was lost.
  The database has the encoding UTF8 and holds in a \<open>text\<close> column only what PostgreSQL
  allows there, valid UTF-8 without the character NUL (\<open>pg_text\<close>): a statement with any
  other text fails.  \<open>pg_available\<close> adds that the server answers and has room, so that a
  statement which breaks no constraint succeeds.
\<close>

section \<open>The statements the store issues\<close>

datatype gorm_where =
    RequestIDInAndRole "string list" string
  | SessionIDOrderByID string

datatype gorm_call =
    CreateSessionsDoNothing "SessionModel list"
  | CreateMessages "MessageModel list"
  | UpsertMessages "string list" "string list" "MessageModel list"
  | FindMessages gorm_where

type_synonym 'd gorm_db = "gorm_call \<Rightarrow> ('d, MessageModel list) go_call"

section \<open>The store's methods\<close>

text \<open>\<open>SaveMessage\<close>\<close>

definition store_SaveMessage :: "'d gorm_db \<Rightarrow> Message \<Rightarrow> ('d, unit) go_call" where
  "store_SaveMessage db msg =
     go_bind (db (CreateSessionsDoNothing [\<lparr>sm_SessionID = msg_SessionID msg\<rparr>])) (\<lambda>_.
     go_bind (db (CreateMessages [messageFromEntity msg])) (\<lambda>_.
     go_return ()))"

text \<open>The set \<open>seen\<close> of session ids and the slice made by ranging over it, in some order.\<close>

definition session_models :: "(string list \<Rightarrow> string list) \<Rightarrow> Message list \<Rightarrow> SessionModel list" where
  "session_models it msgs =
     map (\<lambda>i. \<lparr>sm_SessionID = i\<rparr>) (it (remdups (map msg_SessionID msgs)))"

definition store_BulkSaveMessages ::
  "'d gorm_db \<Rightarrow> (string list \<Rightarrow> string list) \<Rightarrow> Message list \<Rightarrow> ('d, unit) go_call" where
  "store_BulkSaveMessages db it msgs =
     (if length msgs = 0 then go_return ()
      else
        go_bind (db (CreateSessionsDoNothing (session_models it msgs))) (\<lambda>_.
        go_bind (db (CreateMessages (map messageFromEntity msgs))) (\<lambda>_.
        go_return ())))"

definition store_BulkUpsertMessages ::
  "'d gorm_db \<Rightarrow> (string list \<Rightarrow> string list) \<Rightarrow> Message list \<Rightarrow> ('d, unit) go_call" where
  "store_BulkUpsertMessages db it msgs =
     (if length msgs = 0 then go_return ()
      else
        go_bind (db (CreateSessionsDoNothing (session_models it msgs))) (\<lambda>_.
        go_bind (db (UpsertMessages [''request_id'', ''role''] [''content'']
                       (map messageFromEntity msgs))) (\<lambda>_.
        go_return ())))"

fun collect_content :: "(string \<rightharpoonup> string) \<Rightarrow> MessageModel list \<Rightarrow> (string \<rightharpoonup> string)" where
  "collect_content result [] = result"
| "collect_content result (r # rows) =
     collect_content (result(mm_RequestID r \<mapsto> mm_Content r)) rows"

definition store_GetContentByRequestIDs ::
  "'d gorm_db \<Rightarrow> string list \<Rightarrow> ('d, string \<rightharpoonup> string) go_call" where
  "store_GetContentByRequestIDs db requestIDs =
     (if length requestIDs = 0 then go_return Map.empty
      else
        go_bind (db (FindMessages (RequestIDInAndRole requestIDs ''assistant''))) (\<lambda>rows.
        go_return (collect_content Map.empty rows)))"

definition store_GetHistory :: "'d gorm_db \<Rightarrow> string \<Rightarrow> ('d, Message list) go_call" where
  "store_GetHistory db sessionID =
     go_bind (db (FindMessages (SessionIDOrderByID sessionID))) (\<lambda>rows.
     go_return (map ToEntity rows))"

section \<open>What PostgreSQL documents\<close>

record pg_view =
  pv_sessions :: "string set"
  pv_messages :: "Message list"

definition msg_key :: "Message \<Rightarrow> string \<times> string" where
  "msg_key m = (msg_RequestID m, msg_Role m)"

text \<open>The contents of a list of rows, by the key of the unique index.\<close>

definition contents :: "Message list \<Rightarrow> (string \<times> string \<rightharpoonup> string)" where
  "contents ms = map_of (map (\<lambda>m. (msg_key m, msg_Content m)) ms)"

text \<open>
  \<open>INSERT ... ON CONFLICT (request_id, role) DO UPDATE SET content = excluded.content\<close>:
  a row with the key of a new one keeps its place and takes the new content; the others are appended.
\<close>

definition pg_upsert :: "Message list \<Rightarrow> Message list \<Rightarrow> Message list" where
  "pg_upsert tbl rows =
     map (\<lambda>m. case contents rows (msg_key m) of None \<Rightarrow> m | Some c \<Rightarrow> m\<lparr>msg_Content := c\<rparr>) tbl @
     filter (\<lambda>r. msg_key r \<notin> msg_key ` set tbl) rows"

text \<open>What a column of type \<open>text\<close> holds, and the rows whose columns hold it.\<close>

definition pg_text :: "string \<Rightarrow> bool" where
  "pg_text s \<longleftrightarrow> valid_utf8 s \<and> CHR 0x00 \<notin> set s"

definition pg_row :: "Message \<Rightarrow> bool" where
  "pg_row m \<longleftrightarrow> pg_text (msg_SessionID m) \<and> pg_text (msg_RequestID m) \<and>
     pg_text (msg_Role m) \<and> pg_text (msg_Content m)"

fun where_texts :: "gorm_where \<Rightarrow> string list" where
  "where_texts (RequestIDInAndRole ids role) = ids @ [role]"
| "where_texts (SessionIDOrderByID sid) = [sid]"

definition fk_ok :: "pg_view \<Rightarrow> Message list \<Rightarrow> bool" where
  "fk_ok v rows \<longleftrightarrow> (\<forall>m \<in> set rows. msg_SessionID m \<in> pv_sessions v)"

text \<open>
  The effect of a statement; \<open>None\<close> when it fails for a reason of its own: an empty slice,
  a text that no column holds, a missing session, a duplicate key, a row changed twice by one
  upsert, or a conflict target that is no unique index.
\<close>

fun pg_effect :: "gorm_call \<Rightarrow> pg_view \<Rightarrow> pg_view option" where
  "pg_effect (CreateSessionsDoNothing ss) v =
     (if ss = [] \<or> \<not> (\<forall>x \<in> set ss. pg_text (sm_SessionID x)) then None
      else Some (v\<lparr>pv_sessions := pv_sessions v \<union> sm_SessionID ` set ss\<rparr>))"
| "pg_effect (CreateMessages rs) v =
     (let rows = map ToEntity rs in
      if rs = [] \<or> \<not> (\<forall>m \<in> set rows. pg_row m) \<or> \<not> fk_ok v rows \<or>
         \<not> distinct (map msg_key (pv_messages v @ rows)) then None
      else Some (v\<lparr>pv_messages := pv_messages v @ rows\<rparr>))"
| "pg_effect (UpsertMessages target cols rs) v =
     (let rows = map ToEntity rs in
      if rs = [] \<or> \<not> (\<forall>m \<in> set rows. pg_row m) \<or> \<not> fk_ok v rows \<or>
         \<not> distinct (map msg_key rows) \<or>
         target \<noteq> [''request_id'', ''role''] \<or> cols \<noteq> [''content''] then None
      else Some (v\<lparr>pv_messages := pg_upsert (pv_messages v) rows\<rparr>))"
| "pg_effect (FindMessages w) v = (if \<forall>s \<in> set (where_texts w). pg_text s then Some v else None)"

text \<open>The rows a query may return: in any order, unless it asks for one.\<close>

fun pg_rows :: "gorm_call \<Rightarrow> pg_view \<Rightarrow> MessageModel list \<Rightarrow> bool" where
  "pg_rows (FindMessages (RequestIDInAndRole ids role)) v rs \<longleftrightarrow>
     mset (map ToEntity rs) =
     mset (filter (\<lambda>m. msg_RequestID m \<in> set ids \<and> msg_Role m = role) (pv_messages v))"
| "pg_rows (FindMessages (SessionIDOrderByID sid)) v rs \<longleftrightarrow>
     map ToEntity rs = filter (\<lambda>m. msg_SessionID m = sid) (pv_messages v)"
| "pg_rows _ v rs \<longleftrightarrow> True"

definition pg_documented :: "'d gorm_db \<Rightarrow> ('d \<Rightarrow> pg_view) \<Rightarrow> bool" where
  "pg_documented db view \<longleftrightarrow>
     (\<forall>d. distinct (map msg_key (pv_messages (view d))) \<and> (\<forall>m \<in> set (pv_messages (view d)). pg_row m)) \<and>
     (\<forall>c d rs d'. db c d = (Inr rs, d') \<longrightarrow>
        pg_effect c (view d) = Some (view d') \<and> pg_rows c (view d) rs) \<and>
     (\<forall>c d e d'. db c d = (Inl e, d') \<longrightarrow>
        view d' = view d \<or> pg_effect c (view d) = Some (view d'))"

definition pg_available :: "'d gorm_db \<Rightarrow> ('d \<Rightarrow> pg_view) \<Rightarrow> bool" where
  "pg_available db view \<longleftrightarrow>
     (\<forall>c d. pg_effect c (view d) \<noteq> None \<longrightarrow> (\<exists>rs d'. db c d = (Inr rs, d')))"

lemma pg_documentedD:
  assumes "pg_documented db view"
  shows "distinct (map msg_key (pv_messages (view d)))"
    and "m \<in> set (pv_messages (view d)) \<Longrightarrow> pg_row m"
    and "db c d = (Inr rs, d') \<Longrightarrow> pg_effect c (view d) = Some (view d') \<and> pg_rows c (view d) rs"
    and "db c d = (Inl e, d') \<Longrightarrow> view d' = view d \<or> pg_effect c (view d) = Some (view d')"
  using assms unfolding pg_documented_def by blast+

lemma pg_effect_sessions:
  "pg_effect (CreateSessionsDoNothing ss) v = Some v' \<longleftrightarrow>
     ss \<noteq> [] \<and> (\<forall>x \<in> set ss. pg_text (sm_SessionID x)) \<and> v' = v\<lparr>pv_sessions := pv_sessions v \<union> sm_SessionID ` set ss\<rparr>"
  by auto

lemma pg_effect_create:
  "pg_effect (CreateMessages (map messageFromEntity ms)) v = Some v' \<longleftrightarrow>
     ms \<noteq> [] \<and> (\<forall>m \<in> set ms. pg_row m) \<and> fk_ok v ms \<and> distinct (map msg_key (pv_messages v @ ms)) \<and>
     v' = v\<lparr>pv_messages := pv_messages v @ ms\<rparr>"
  by (auto simp: Let_def)

lemma pg_effect_upsert:
  "pg_effect (UpsertMessages [''request_id'', ''role''] [''content''] (map messageFromEntity ms)) v =
     Some v' \<longleftrightarrow>
     ms \<noteq> [] \<and> (\<forall>m \<in> set ms. pg_row m) \<and> fk_ok v ms \<and> distinct (map msg_key ms) \<and>
     v' = v\<lparr>pv_messages := pg_upsert (pv_messages v) ms\<rparr>"
  by (auto simp: Let_def)

lemma pg_effect_find:
  "pg_effect (FindMessages w) v = Some v' \<longleftrightarrow> (\<forall>s \<in> set (where_texts w). pg_text s) \<and> v' = v"
  by auto

lemmas pg_effect_iff = pg_effect_sessions pg_effect_create pg_effect_upsert pg_effect_find

declare pg_effect.simps [simp del]

section \<open>Texts\<close>

lemma pg_text_Nil [simp]: "pg_text []"
  by (simp add: pg_text_def)

lemma pg_text_append: "pg_text x \<Longrightarrow> pg_text y \<Longrightarrow> pg_text (x @ y)"
  by (simp add: pg_text_def valid_utf8_append)

lemma pg_text_ascii: "ascii s \<Longrightarrow> CHR 0x00 \<notin> set s \<Longrightarrow> pg_text s"
  by (simp add: pg_text_def valid_utf8_ascii)

lemma pg_text_roles [simp]: "pg_text RoleUser" "pg_text RoleAssistant"
  by (simp_all add: pg_text_ascii RoleUser_def RoleAssistant_def ascii_def byte_def)

lemma pg_text_str_at:
  assumes "\<forall>m \<in> set ms. pg_row m"
  shows "pg_text (str_at (contents ms) k)"
proof (cases "contents ms k")
  case (Some c)
  then have "(k, c) \<in> set (map (\<lambda>m. (msg_key m, msg_Content m)) ms)"
    unfolding contents_def by (rule map_of_SomeD)
  with assms Some show ?thesis by (auto simp: str_at_def pg_row_def)
qed (simp add: str_at_def)

section \<open>Contents of tables\<close>

lemma contents_Some_iff:
  "distinct (map msg_key ms) \<Longrightarrow>
     contents ms k = Some s \<longleftrightarrow> (\<exists>m \<in> set ms. msg_key m = k \<and> msg_Content m = s)"
  unfolding contents_def by (subst map_of_eq_Some_iff) (auto simp: comp_def)

lemma contents_None_iff: "contents ms k = None \<longleftrightarrow> k \<notin> msg_key ` set ms"
  by (auto simp: contents_def map_of_eq_None_iff image_image)

lemma contents_Cons: "contents (m # ms) = (contents ms)(msg_key m \<mapsto> msg_Content m)"
  by (simp add: contents_def)

lemma contents_append: "contents (xs @ ys) = contents ys ++ contents xs"
  by (simp add: contents_def)

lemma contents_map_update:
  "contents (map (\<lambda>m. case f (msg_key m) of None \<Rightarrow> m | Some c \<Rightarrow> m\<lparr>msg_Content := c\<rparr>) ms) k =
     (case contents ms k of None \<Rightarrow> None
      | Some s \<Rightarrow> (case f k of None \<Rightarrow> Some s | Some c \<Rightarrow> Some c))"
  by (induction ms) (auto simp: contents_def msg_key_def split: option.splits)

lemma contents_filter:
  "contents (filter (\<lambda>r. P (msg_key r)) ms) k = (if P k then contents ms k else None)"
  by (induction ms) (auto simp: contents_def)

text \<open>The upsert, by keys: every key of the batch gets the batch's content, the others stay.\<close>

lemma contents_fresh_rows:
  "contents (filter (\<lambda>r. msg_key r \<notin> K) rows) k = (if k \<in> K then None else contents rows k)"
  using contents_filter [where P = "\<lambda>k. k \<notin> K"] by simp

lemma contents_pg_upsert: "contents (pg_upsert tbl rows) = contents tbl ++ contents rows"
proof
  fix k
  have dom: "k \<in> msg_key ` set tbl \<longleftrightarrow> contents tbl k \<noteq> None"
    by (simp add: contents_None_iff)
  show "contents (pg_upsert tbl rows) k = (contents tbl ++ contents rows) k"
    by (simp add: pg_upsert_def contents_append contents_map_update map_add_def
        contents_fresh_rows dom split: option.split)
qed

definition set_content :: "(string \<times> string \<rightharpoonup> string) \<Rightarrow> Message \<Rightarrow> Message" where
  "set_content f m = (case f (msg_key m) of None \<Rightarrow> m | Some c \<Rightarrow> m\<lparr>msg_Content := c\<rparr>)"

lemma msg_key_set_content [simp]: "msg_key (set_content f m) = msg_key m"
  by (simp add: set_content_def msg_key_def split: option.split)

lemma comp_msg_key_set_content [simp]: "msg_key \<circ> set_content f = msg_key"
  by auto

lemma pg_upsert_alt:
  "pg_upsert tbl rows =
     map (set_content (contents rows)) tbl @ filter (\<lambda>r. msg_key r \<notin> msg_key ` set tbl) rows"
  by (simp add: pg_upsert_def set_content_def)

lemma set_content_own:
  assumes "distinct (map msg_key rows)" and "m \<in> set rows"
  shows "set_content (contents rows) m = m"
proof -
  have "contents rows (msg_key m) = Some (msg_Content m)"
    using assms by (auto simp: contents_Some_iff)
  then show ?thesis by (simp add: set_content_def)
qed

lemma set_content_twice [simp]: "set_content f (set_content f m) = set_content f m"
  by (simp add: set_content_def msg_key_def split: option.split)

lemma keys_pg_upsert: "msg_key ` set (pg_upsert tbl rows) = msg_key ` set tbl \<union> msg_key ` set rows"
  by (auto simp: pg_upsert_alt image_Un image_image)

text \<open>Upserting a batch again changes nothing.\<close>

lemma pg_upsert_same:
  assumes "distinct (map msg_key rows)"
  shows "pg_upsert (pg_upsert tbl rows) rows = pg_upsert tbl rows"
proof -
  have "filter (\<lambda>r. msg_key r \<notin> msg_key ` set (pg_upsert tbl rows)) rows = []"
    unfolding keys_pg_upsert by (auto simp: filter_empty_conv)
  moreover have "map (set_content (contents rows)) (pg_upsert tbl rows) = pg_upsert tbl rows"
    unfolding pg_upsert_alt by (auto intro!: map_idI simp: set_content_own [OF assms])
  ultimately show ?thesis
    by (subst pg_upsert_alt) simp
qed

section \<open>The contract of IMessageStore\<close>

text \<open>
  \<open>good e\<close> says that the outside world \<open>e\<close> of the store behaves as documented,
  \<open>avail e\<close> that it answers; \<open>rows e d\<close> are the messages stored in state
  \<open>d\<close>, oldest first.
\<close>

locale message_store =
  fixes good :: "'e \<Rightarrow> bool"
    and avail :: "'e \<Rightarrow> bool"
    and get :: "'e \<Rightarrow> string list \<Rightarrow> ('d, string \<rightharpoonup> string) go_call"
    and upsert :: "'e \<Rightarrow> (string list \<Rightarrow> string list) \<Rightarrow> Message list \<Rightarrow> ('d, unit) go_call"
    and hist :: "'e \<Rightarrow> string \<Rightarrow> ('d, Message list) go_call"
    and rows :: "'e \<Rightarrow> 'd \<Rightarrow> Message list"
  assumes get_ok: "good e \<Longrightarrow> get e ids d = (Inr m, d') \<Longrightarrow>
        rows e d' = rows e d \<and> (\<forall>r \<in> set ids. m r = contents (rows e d) (r, RoleAssistant))"
    and get_fail: "good e \<Longrightarrow> get e ids d = (Inl x, d') \<Longrightarrow> rows e d' = rows e d"
    and upsert_ok: "good e \<Longrightarrow> upsert e it ms d = (Inr (), d') \<Longrightarrow> rows e d' = pg_upsert (rows e d) ms"
    and upsert_fail: "good e \<Longrightarrow> upsert e it ms d = (Inl x, d') \<Longrightarrow>
        rows e d' = rows e d \<or> rows e d' = pg_upsert (rows e d) ms"
    and hist_ok: "good e \<Longrightarrow> hist e sid d = (Inr ms, d') \<Longrightarrow>
        rows e d' = rows e d \<and> ms = filter (\<lambda>m. msg_SessionID m = sid) (rows e d)"
    and hist_avail: "good e \<Longrightarrow> avail e \<Longrightarrow> pg_text sid \<Longrightarrow> \<exists>ms d'. hist e sid d = (Inr ms, d')"
    and rows_keys: "good e \<Longrightarrow> distinct (map msg_key (rows e d))"
    and rows_text: "good e \<Longrightarrow> \<forall>mg \<in> set (rows e d). pg_row mg"
    and get_avail: "good e \<Longrightarrow> avail e \<Longrightarrow> \<forall>r \<in> set ids. pg_text r \<Longrightarrow> \<exists>m d'. get e ids d = (Inr m, d')"
    and upsert_avail: "good e \<Longrightarrow> avail e \<Longrightarrow> range_order it \<Longrightarrow> distinct (map msg_key ms) \<Longrightarrow>
        \<forall>mg \<in> set ms. pg_row mg \<Longrightarrow> \<exists>d'. upsert e it ms d = (Inr (), d')"
    and get_refuses: "good e \<Longrightarrow> r \<in> set ids \<Longrightarrow> \<not> pg_text r \<Longrightarrow> \<exists>x d'. get e ids d = (Inl x, d')"
    and upsert_refuses: "good e \<Longrightarrow> mg \<in> set ms \<Longrightarrow> \<not> pg_row mg \<Longrightarrow>
        \<exists>x d'. upsert e it ms d = (Inl x, d') \<and> rows e d' = rows e d"
begin

lemma get_str:
  assumes "good e" and "get e ids d = (Inr m, d')" and "r \<in> set ids"
  shows "str_at m r = str_at (contents (rows e d)) (r, RoleAssistant)"
  using get_ok [OF assms(1,2)] assms(3) by (simp add: str_at_def)

lemma upsert_str:
  assumes "good e" and "upsert e it ms d = (Inr (), d')"
  shows "str_at (contents (rows e d')) k =
    (case contents ms k of None \<Rightarrow> str_at (contents (rows e d)) k | Some s \<Rightarrow> s)"
  by (simp add: upsert_ok [OF assms] contents_pg_upsert str_at_def map_add_def split: option.split)

end

section \<open>The store keeps the contract\<close>

lemma session_models_nonempty:
  assumes "range_order it" and "msgs \<noteq> []"
  shows "session_models it msgs \<noteq> []"
proof -
  have "set (it (remdups (map msg_SessionID msgs))) = set (map msg_SessionID msgs)"
    using range_orderD(2) [OF assms(1)] by simp
  with assms(2) show ?thesis by (auto simp: session_models_def)
qed

lemma session_models_set:
  assumes "range_order it"
  shows "sm_SessionID ` set (session_models it msgs) = msg_SessionID ` set msgs"
  using range_orderD(2) [OF assms, of "remdups (map msg_SessionID msgs)"]
  by (simp add: session_models_def image_image)

lemma BulkUpsert_ok:
  assumes "pg_documented db view" and "store_BulkUpsertMessages db it msgs d = (Inr (), d')"
  shows "pv_messages (view d') = pg_upsert (pv_messages (view d)) msgs"
proof (cases "msgs = []")
  case True
  with assms(2) show ?thesis
    by (simp add: store_BulkUpsertMessages_def go_return_def pg_upsert_def contents_def)
next
  case False
  from assms(2) False obtain rs d1 rs' where
      "db (CreateSessionsDoNothing (session_models it msgs)) d = (Inr rs, d1)"
      "db (UpsertMessages [''request_id'', ''role''] [''content''] (map messageFromEntity msgs)) d1 = (Inr rs', d')"
    by (auto simp: store_BulkUpsertMessages_def go_return_def elim!: go_bind_cases)
  from this [THEN pg_documentedD(3) [OF assms(1)]] show ?thesis
    by (simp add: pg_effect_iff)
qed

lemma BulkUpsert_fail:
  assumes "pg_documented db view" and "store_BulkUpsertMessages db it msgs d = (Inl x, d')"
  shows "pv_messages (view d') = pv_messages (view d) \<or>
         pv_messages (view d') = pg_upsert (pv_messages (view d)) msgs"
proof -
  let ?c1 = "CreateSessionsDoNothing (session_models it msgs)"
  let ?c2 = "UpsertMessages [''request_id'', ''role''] [''content''] (map messageFromEntity msgs)"
  have "msgs \<noteq> []"
    using assms(2) by (auto simp: store_BulkUpsertMessages_def go_return_def)
  then have "go_bind (db ?c1) (\<lambda>_. go_bind (db ?c2) (\<lambda>_. go_return ())) d = (Inl x, d')"
    using assms(2) by (simp add: store_BulkUpsertMessages_def)
  then consider e where "db ?c1 d = (Inl e, d')"
    | rs d1 e where "db ?c1 d = (Inr rs, d1)" and "db ?c2 d1 = (Inl e, d')"
    by (auto simp: go_return_def elim!: go_bind_cases)
  then show ?thesis
  proof cases
    case 1
    then show ?thesis
      using pg_documentedD(4) [OF assms(1) 1] by (auto simp: pg_effect_iff)
  next
    case 2
    then have "pv_messages (view d1) = pv_messages (view d)"
      using pg_documentedD(3) [OF assms(1) 2(1)] by (simp add: pg_effect_iff)
    with 2 show ?thesis
      using pg_documentedD(4) [OF assms(1) 2(2)] by (auto simp: pg_effect_iff)
  qed
qed

lemma BulkUpsert_avail:
  assumes "pg_documented db view" and "pg_available db view" and "range_order it"
    and "distinct (map msg_key msgs)" and "\<forall>m \<in> set msgs. pg_row m"
  shows "\<exists>d'. store_BulkUpsertMessages db it msgs d = (Inr (), d')"
proof (cases "msgs = []")
  case True
  then show ?thesis by (simp add: store_BulkUpsertMessages_def go_return_def)
next
  case False
  let ?c1 = "CreateSessionsDoNothing (session_models it msgs)"
  let ?c2 = "UpsertMessages [''request_id'', ''role''] [''content''] (map messageFromEntity msgs)"
  have "\<forall>x \<in> set (session_models it msgs). pg_text (sm_SessionID x)"
    using assms(5) session_models_set [OF assms(3), of msgs] unfolding pg_row_def by (metis imageE imageI)
  then have "pg_effect ?c1 (view d) \<noteq> None"
    using session_models_nonempty [OF assms(3) False] by (simp add: pg_effect_sessions [THEN iffD2])
  then obtain rs d1 where 1: "db ?c1 d = (Inr rs, d1)"
    using assms(2) unfolding pg_available_def by blast
  have "pv_sessions (view d1) = pv_sessions (view d) \<union> msg_SessionID ` set msgs"
    using pg_documentedD(3) [OF assms(1) 1] session_models_set [OF assms(3), of msgs]
    by (simp add: pg_effect_iff)
  then have "fk_ok (view d1) msgs"
    by (simp add: fk_ok_def)
  then have "pg_effect ?c2 (view d1) \<noteq> None"
    using False assms(4,5) by (auto simp: pg_effect_upsert [THEN iffD2])
  then obtain rs' d2 where 2: "db ?c2 d1 = (Inr rs', d2)"
    using assms(2) unfolding pg_available_def by blast
  from 1 2 False show ?thesis
    by (simp add: store_BulkUpsertMessages_def go_bind_def go_return_def)
qed

lemma collect_content_map_of:
  "distinct (map mm_RequestID rs) \<Longrightarrow>
     collect_content m rs = m ++ map_of (map (\<lambda>r. (mm_RequestID r, mm_Content r)) rs)"
proof (induction rs arbitrary: m)
  case Nil
  then show ?case by simp
next
  case (Cons r rs)
  have "map_of (map (\<lambda>r. (mm_RequestID r, mm_Content r)) rs) (mm_RequestID r) = None"
    using Cons.prems by (auto simp: map_of_eq_None_iff)
  with Cons show ?case
    by (auto simp: map_add_def fun_eq_iff split: option.split)
qed

lemma GetContent_ok:
  assumes "pg_documented db view" and "store_GetContentByRequestIDs db ids d = (Inr m, d')"
  shows "view d' = view d \<and>
    m = (\<lambda>r. if r \<in> set ids then contents (pv_messages (view d)) (r, RoleAssistant) else None)"
proof (cases "ids = []")
  case True
  with assms(2) show ?thesis
    by (auto simp: store_GetContentByRequestIDs_def go_return_def fun_eq_iff)
next
  case False
  let ?ms = "pv_messages (view d)"
  let ?sel = "filter (\<lambda>m. msg_RequestID m \<in> set ids \<and> msg_Role m = RoleAssistant) ?ms"
  from assms(2) False obtain rs where
      q: "db (FindMessages (RequestIDInAndRole ids RoleAssistant)) d = (Inr rs, d')"
    and m: "m = collect_content Map.empty rs"
    by (auto simp: store_GetContentByRequestIDs_def go_return_def RoleAssistant_def elim!: go_bind_cases)
  have view: "view d' = view d" and rows: "mset (map ToEntity rs) = mset ?sel"
    using pg_documentedD(3) [OF assms(1) q] by (auto simp: pg_effect_iff)
  have keys: "distinct (map msg_key ?ms)"
    by (rule pg_documentedD(1) [OF assms(1)])
  then have "distinct (map msg_key ?sel)"
    by (rule distinct_map_filter)
  then have "distinct (map msg_RequestID ?sel)"
    by (auto simp: distinct_map inj_on_def msg_key_def)
  moreover have "mset (map mm_RequestID rs) = mset (map msg_RequestID ?sel)"
    using arg_cong [OF rows, of "image_mset msg_RequestID"] by (simp add: multiset.map_comp comp_def)
  ultimately have dist: "distinct (map mm_RequestID rs)"
    using mset_eq_imp_distinct_iff by blast
  have set: "ToEntity ` set rs = set ?sel"
    using mset_eq_setD [OF rows] by simp
  have "m r = (if r \<in> set ids then contents ?ms (r, RoleAssistant) else None)" for r
  proof (rule option_eqI)
    fix s
    have "m r = Some s \<longleftrightarrow> (\<exists>x \<in> ToEntity ` set rs. msg_RequestID x = r \<and> msg_Content x = s)"
      using dist by (auto simp: m collect_content_map_of map_of_eq_Some_iff comp_def)
    then show "m r = Some s \<longleftrightarrow>
        (if r \<in> set ids then contents ?ms (r, RoleAssistant) else None) = Some s"
      by (auto simp: set contents_Some_iff [OF keys] msg_key_def)
  qed
  then show ?thesis
    using view by auto
qed

lemma pg_find_fail:
  assumes "pg_documented db view" and "db (FindMessages w) d = (Inl x, d')"
  shows "view d' = view d"
  using pg_documentedD(4) [OF assms] by (auto simp: pg_effect_iff)

lemma GetContent_fail:
  assumes "pg_documented db view" and "store_GetContentByRequestIDs db ids d = (Inl x, d')"
  shows "view d' = view d"
  using assms(2)
  by (auto simp: store_GetContentByRequestIDs_def go_return_def split: if_splits
      elim!: go_bind_cases pg_find_fail [OF assms(1)])

lemma GetContent_avail:
  assumes "pg_available db view" and "\<forall>r \<in> set ids. pg_text r"
  shows "\<exists>m d'. store_GetContentByRequestIDs db ids d = (Inr m, d')"
proof (cases "ids = []")
  case False
  have "pg_effect (FindMessages (RequestIDInAndRole ids ''assistant'')) (view d) \<noteq> None"
    using assms(2) pg_text_roles(2) by (auto simp: pg_effect_find [THEN iffD2] RoleAssistant_def)
  then obtain rs d' where "db (FindMessages (RequestIDInAndRole ids ''assistant'')) d = (Inr rs, d')"
    using assms(1) unfolding pg_available_def by blast
  with False show ?thesis
    by (simp add: store_GetContentByRequestIDs_def go_bind_def go_return_def)
qed (simp add: store_GetContentByRequestIDs_def go_return_def)

text \<open>A text that is no \<open>text\<close> value makes the whole call fail, and nothing is stored.\<close>

lemma GetContent_refuses:
  assumes "pg_documented db view" and "r \<in> set ids" and "\<not> pg_text r"
  shows "\<exists>x d'. store_GetContentByRequestIDs db ids d = (Inl x, d')"
proof -
  have "pg_effect (FindMessages (RequestIDInAndRole ids ''assistant'')) (view d) = None"
    using assms(2,3) by (auto simp: pg_effect.simps(4))
  then obtain x d' where "db (FindMessages (RequestIDInAndRole ids ''assistant'')) d = (Inl x, d')"
    using pg_documentedD(3) [OF assms(1), of _ d]
    by (cases "db (FindMessages (RequestIDInAndRole ids ''assistant'')) d"; cases "fst (db (FindMessages (RequestIDInAndRole ids ''assistant'')) d)")
      fastforce+
  with assms(2) show ?thesis
    by (auto simp: store_GetContentByRequestIDs_def go_bind_def)
qed

lemma BulkUpsert_refuses:
  assumes "pg_documented db view" and "m \<in> set msgs" and "\<not> pg_row m"
  shows "\<exists>x d'. store_BulkUpsertMessages db it msgs d = (Inl x, d') \<and> pv_messages (view d') = pv_messages (view d)"
proof -
  let ?c1 = "CreateSessionsDoNothing (session_models it msgs)"
  let ?c2 = "UpsertMessages [''request_id'', ''role''] [''content''] (map messageFromEntity msgs)"
  have refused: "pg_effect ?c2 v = None" for v
    using assms(2,3) pg_effect_upsert [of msgs v] by (cases "pg_effect ?c2 v") auto
  have run: "store_BulkUpsertMessages db it msgs d =
      go_bind (db ?c1) (\<lambda>_. go_bind (db ?c2) (\<lambda>_. go_return ())) d"
    using assms(2) by (auto simp: store_BulkUpsertMessages_def)
  obtain r1 d1 where c1: "db ?c1 d = (r1, d1)" by fastforce
  have same: "pv_messages (view d1) = pv_messages (view d)"
    using pg_documentedD(3,4) [OF assms(1)] c1 by (cases r1) (fastforce simp: pg_effect_iff)+
  obtain r2 d2 where c2: "db ?c2 d1 = (r2, d2)" by fastforce
  have "view d2 = view d1 \<and> (\<exists>x. r2 = Inl x)"
    using pg_documentedD(3,4) [OF assms(1)] c2 refused by (cases r2) fastforce+
  with c1 c2 same run show ?thesis
    by (cases r1) (auto simp: go_bind_def)
qed

lemma GetHistory_ok:
  assumes "pg_documented db view" and "store_GetHistory db sid d = (Inr ms, d')"
  shows "view d' = view d \<and> ms = filter (\<lambda>m. msg_SessionID m = sid) (pv_messages (view d))"
proof -
  obtain rs where q: "db (FindMessages (SessionIDOrderByID sid)) d = (Inr rs, d')"
    and ms: "ms = map ToEntity rs"
    using assms(2) by (auto simp: store_GetHistory_def go_return_def elim!: go_bind_cases)
  show ?thesis
    using pg_documentedD(3) [OF assms(1) q] by (simp add: pg_effect_iff ms)
qed

lemma GetHistory_avail:
  assumes "pg_available db view" and "pg_text sid"
  shows "\<exists>ms d'. store_GetHistory db sid d = (Inr ms, d')"
proof -
  have "pg_effect (FindMessages (SessionIDOrderByID sid)) (view d) \<noteq> None"
    using assms(2) by (simp add: pg_effect_find [THEN iffD2])
  then obtain rs d' where "db (FindMessages (SessionIDOrderByID sid)) d = (Inr rs, d')"
    using assms(1) unfolding pg_available_def by blast
  then show ?thesis by (simp add: store_GetHistory_def go_bind_def go_return_def)
qed

interpretation pg: message_store
    "\<lambda>(db, view). pg_documented db view" "\<lambda>(db, view). pg_available db view"
    "\<lambda>(db, view). store_GetContentByRequestIDs db"
    "\<lambda>(db, view). store_BulkUpsertMessages db"
    "\<lambda>(db, view). store_GetHistory db"
    "\<lambda>(db, view) d. pv_messages (view d)"
  by unfold_locales
    (auto dest: GetContent_ok GetContent_fail BulkUpsert_ok BulkUpsert_fail GetHistory_ok
      intro: GetContent_avail BulkUpsert_avail GetHistory_avail pg_documentedD(1,2) GetContent_refuses BulkUpsert_refuses)

section \<open>A database that meets the hypotheses\<close>

text \<open>
  For the witnesses: a database whose state is the view itself (with the duplicates and the
  impossible texts of an arbitrary state dropped), which runs every statement as documented.
\<close>

fun dedup :: "Message list \<Rightarrow> Message list" where
  "dedup [] = []"
| "dedup (m # ms) = (if msg_key m \<in> msg_key ` set ms then dedup ms else m # dedup ms)"

lemma set_dedup: "msg_key ` set (dedup ms) = msg_key ` set ms"
  by (induction ms) auto

lemma distinct_dedup: "distinct (map msg_key (dedup ms))"
  by (induction ms) (auto simp: set_dedup [unfolded image_def] image_def)

lemma dedup_id: "distinct (map msg_key ms) \<Longrightarrow> dedup ms = ms"
  by (induction ms) auto

definition ref_view :: "pg_view \<Rightarrow> pg_view" where
  "ref_view v = v\<lparr>pv_messages := filter pg_row (dedup (pv_messages v))\<rparr>"

fun ref_rows :: "gorm_call \<Rightarrow> pg_view \<Rightarrow> MessageModel list" where
  "ref_rows (FindMessages (RequestIDInAndRole ids role)) v =
     map messageFromEntity (filter (\<lambda>m. msg_RequestID m \<in> set ids \<and> msg_Role m = role) (pv_messages v))"
| "ref_rows (FindMessages (SessionIDOrderByID sid)) v =
     map messageFromEntity (filter (\<lambda>m. msg_SessionID m = sid) (pv_messages v))"
| "ref_rows _ v = []"

definition ref_db :: "pg_view gorm_db" where
  "ref_db c d =
     (case pg_effect c (ref_view d) of
        None \<Rightarrow> (Inl (ErrText ''constraint violation''), d)
      | Some v \<Rightarrow> (Inr (ref_rows c (ref_view d)), v))"

lemma distinct_pg_upsert:
  assumes "distinct (map msg_key tbl)" and "distinct (map msg_key rows)"
  shows "distinct (map msg_key (pg_upsert tbl rows))"
proof -
  have "map msg_key (map (set_content (contents rows)) tbl) = map msg_key tbl"
    by simp
  moreover have "distinct (map msg_key (filter (\<lambda>r. msg_key r \<notin> msg_key ` set tbl) rows))"
    using assms(2) by (rule distinct_map_filter)
  ultimately show ?thesis
    using assms(1) unfolding pg_upsert_alt by auto
qed

lemma pg_row_upsert:
  assumes "\<forall>m \<in> set tbl. pg_row m" and "\<forall>m \<in> set rows. pg_row m" and "m \<in> set (pg_upsert tbl rows)"
  shows "pg_row m"
proof -
  have content: "pg_text c" if "contents rows k = Some c" for k c
    using pg_text_str_at [OF assms(2), of k] that by (simp add: str_at_def)
  have "pg_row (set_content (contents rows) x)" if "x \<in> set tbl" for x
    using assms(1) that content by (auto simp: set_content_def pg_row_def split: option.split)
  with assms(2,3) show ?thesis
    by (auto simp: pg_upsert_alt)
qed

lemma pg_effect_keys:
  "distinct (map msg_key (pv_messages v)) \<Longrightarrow> pg_effect c v = Some v' \<Longrightarrow>
     distinct (map msg_key (pv_messages v'))"
  by (cases "(c, v)" rule: pg_effect.cases)
    (auto simp: pg_effect.simps Let_def distinct_pg_upsert comp_def simp del: map_map split: if_splits)

lemma pg_effect_rows:
  "\<forall>m \<in> set (pv_messages v). pg_row m \<Longrightarrow> pg_effect c v = Some v' \<Longrightarrow>
     \<forall>m \<in> set (pv_messages v'). pg_row m"
  by (cases "(c, v)" rule: pg_effect.cases)
    (auto simp: pg_effect.simps Let_def split: if_splits dest!: pg_row_upsert [rotated 2])

lemma ref_view_keys: "distinct (map msg_key (pv_messages (ref_view d)))"
  by (simp add: ref_view_def distinct_dedup distinct_map_filter)

lemma ref_view_rows: "\<forall>m \<in> set (pv_messages (ref_view d)). pg_row m"
  by (simp add: ref_view_def)

lemma ref_view_id:
  "distinct (map msg_key (pv_messages v)) \<Longrightarrow> \<forall>m \<in> set (pv_messages v). pg_row m \<Longrightarrow> ref_view v = v"
  by (simp add: ref_view_def dedup_id filter_True)

lemma ref_view_effect: "pg_effect c (ref_view d) = Some v \<Longrightarrow> ref_view v = v"
  using pg_effect_keys [OF ref_view_keys] pg_effect_rows [OF ref_view_rows] by (intro ref_view_id)

lemma ref_rows_ok: "pg_rows c v (ref_rows c v)"
  by (cases "(c, v)" rule: ref_rows.cases) auto

lemma ref_db_documented: "pg_documented ref_db ref_view"
  unfolding pg_documented_def
proof (intro conjI allI impI)
  show "distinct (map msg_key (pv_messages (ref_view d)))" for d
    by (rule ref_view_keys)
  show "\<forall>m \<in> set (pv_messages (ref_view d)). pg_row m" for d
    by (rule ref_view_rows)
next
  fix c d rs d'
  assume "ref_db c d = (Inr rs, d')"
  then have e: "pg_effect c (ref_view d) = Some d'" and rs: "rs = ref_rows c (ref_view d)"
    by (auto simp: ref_db_def split: option.splits)
  show "pg_effect c (ref_view d) = Some (ref_view d')"
    using e by (simp add: ref_view_effect)
  show "pg_rows c (ref_view d) rs"
    by (simp add: rs ref_rows_ok)
next
  fix c d e d'
  assume "ref_db c d = (Inl e, d')"
  then show "ref_view d' = ref_view d \<or> pg_effect c (ref_view d) = Some (ref_view d')"
    by (auto simp: ref_db_def split: option.splits)
qed

lemma ref_db_available: "pg_available ref_db ref_view"
  by (auto simp: pg_available_def ref_db_def)

definition demo_msg :: "string \<Rightarrow> MessageRole \<Rightarrow> string \<Rightarrow> Message" where
  "demo_msg rid role c = \<lparr>msg_SessionID = ''s1'', msg_RequestID = rid, msg_Role = role, msg_Content = c\<rparr>"

lemma demo_msg_row [simp]:
  "pg_text rid \<Longrightarrow> pg_text role \<Longrightarrow> pg_text c \<Longrightarrow> pg_row (demo_msg rid role c)"
  by (simp add: pg_row_def demo_msg_def pg_text_ascii ascii_def byte_def)

definition empty_pg :: pg_view where
  "empty_pg = \<lparr>pv_sessions = {}, pv_messages = []\<rparr>"

section \<open>Properties\<close>

text \<open>
  A batch upsert that succeeds replaces contents and loses nothing: afterwards a message of the
  batch is stored with the batch's content, every other message keeps its content, and the rows that
  were there before keep their place, session, request id and role.
\<close>

theorem store_upsert_replaces:
  assumes "pg_documented db view" and "store_BulkUpsertMessages db it msgs d = (Inr (), d')"
  shows "contents (pv_messages (view d')) = contents (pv_messages (view d)) ++ contents msgs \<and>
         (\<exists>new. map (\<lambda>m. m\<lparr>msg_Content := []\<rparr>) (pv_messages (view d')) =
                map (\<lambda>m. m\<lparr>msg_Content := []\<rparr>) (pv_messages (view d) @ new))"
proof -
  have up: "pv_messages (view d') = pg_upsert (pv_messages (view d)) msgs"
    by (rule BulkUpsert_ok [OF assms])
  have "(set_content f m)\<lparr>msg_Content := []\<rparr> = m\<lparr>msg_Content := []\<rparr>" for f m
    by (simp add: set_content_def split: option.split)
  then have "map (\<lambda>m. m\<lparr>msg_Content := []\<rparr>) (pv_messages (view d')) =
      map (\<lambda>m. m\<lparr>msg_Content := []\<rparr>) (pv_messages (view d) @
        filter (\<lambda>r. msg_key r \<notin> msg_key ` set (pv_messages (view d))) msgs)"
    unfolding up pg_upsert_alt by simp
  then show ?thesis
    unfolding up by (auto simp: contents_pg_upsert)
qed

theorem store_upsert_replaces_witness:
  "\<exists>d'. store_BulkUpsertMessages ref_db rev [demo_msg ''r1'' RoleUser ''hi''] empty_pg = (Inr (), d') \<and>
     contents (pv_messages (ref_view d')) (''r1'', RoleUser) = Some ''hi''"
proof -
  obtain d' where d': "store_BulkUpsertMessages ref_db rev [demo_msg ''r1'' RoleUser ''hi''] empty_pg = (Inr (), d')"
    using BulkUpsert_avail [OF ref_db_documented ref_db_available range_order_rev,
        of "[demo_msg ''r1'' RoleUser ''hi'']" empty_pg]
    by (auto simp: pg_text_ascii ascii_def byte_def)
  from store_upsert_replaces [OF ref_db_documented d'] d' show ?thesis
    by (auto simp: contents_def demo_msg_def msg_key_def)
qed

text \<open>
  The upsert cannot break a constraint of the schema by itself: whatever the stored rows, in
  whatever order Go ranges over the session ids, if the batch holds no two messages with the same
  request id and role and only texts that PostgreSQL stores, and the database answers, the call succeeds, because the session rows are
  inserted before the messages that refer to them.
\<close>

theorem store_upsert_succeeds:
  assumes "pg_documented db view" and "pg_available db view" and "range_order it"
    and "distinct (map msg_key msgs)" and "\<forall>m \<in> set msgs. pg_row m"
  shows "\<exists>d'. store_BulkUpsertMessages db it msgs d = (Inr (), d') \<and>
              (msgs \<noteq> [] \<longrightarrow> msg_SessionID ` set msgs \<subseteq> pv_sessions (view d'))"
proof -
  obtain d' where r: "store_BulkUpsertMessages db it msgs d = (Inr (), d')"
    using BulkUpsert_avail [OF assms] by blast
  have "msg_SessionID ` set msgs \<subseteq> pv_sessions (view d')" if ne: "msgs \<noteq> []"
  proof -
    obtain rs d1 rs' where
        1: "db (CreateSessionsDoNothing (session_models it msgs)) d = (Inr rs, d1)"
      and 2: "db (UpsertMessages [''request_id'', ''role''] [''content''] (map messageFromEntity msgs)) d1 = (Inr rs', d')"
      using r ne by (auto simp: store_BulkUpsertMessages_def go_return_def elim!: go_bind_cases)
    show ?thesis
      using pg_documentedD(3) [OF assms(1) 1] pg_documentedD(3) [OF assms(1) 2]
        session_models_set [OF assms(3), of msgs]
      by (auto simp: pg_effect_iff)
  qed
  with r show ?thesis by blast
qed

theorem store_upsert_succeeds_witness:
  "\<exists>d'. store_BulkUpsertMessages ref_db rev
          [demo_msg ''r1'' RoleUser ''hi'', demo_msg ''r1'' RoleAssistant ''hello''] empty_pg = (Inr (), d')"
proof -
  have "distinct (map msg_key [demo_msg ''r1'' RoleUser ''hi'', demo_msg ''r1'' RoleAssistant ''hello''])"
    by (simp add: msg_key_def demo_msg_def)
  from store_upsert_succeeds [OF ref_db_documented ref_db_available range_order_rev this, of empty_pg]
  show ?thesis by (auto simp: pg_text_ascii ascii_def byte_def)
qed

text \<open>
  Reading contents back: the map \<open>GetContentByRequestIDs\<close> returns holds, for each request
  id asked for, exactly the content of its assistant message, and has no entry for any other id; the
  order in which the database returns the rows does not matter, because the unique index leaves at
  most one assistant row per request.
\<close>

theorem store_get_content_exact:
  assumes "pg_documented db view" and "store_GetContentByRequestIDs db ids d = (Inr m, d')"
  shows "view d' = view d \<and>
         m = (\<lambda>r. if r \<in> set ids then contents (pv_messages (view d)) (r, RoleAssistant) else None)"
  by (rule GetContent_ok [OF assms])

theorem store_get_content_exact_witness:
  "\<exists>m d'. store_GetContentByRequestIDs ref_db [''r1'', ''r2'']
      \<lparr>pv_sessions = {''s1''}, pv_messages = [demo_msg ''r1'' RoleUser ''q'', demo_msg ''r1'' RoleAssistant ''a'']\<rparr>
        = (Inr m, d') \<and> m ''r1'' = Some ''a'' \<and> m ''r2'' = None"
proof -
  let ?d = "\<lparr>pv_sessions = {''s1''}, pv_messages = [demo_msg ''r1'' RoleUser ''q'', demo_msg ''r1'' RoleAssistant ''a'']\<rparr>"
  obtain m d' where r: "store_GetContentByRequestIDs ref_db [''r1'', ''r2''] ?d = (Inr m, d')"
    using GetContent_avail [OF ref_db_available, of "[''r1'', ''r2'']" ?d]
    by (auto simp: pg_text_ascii ascii_def byte_def)
  have "ref_view ?d = ?d"
    by (rule ref_view_id) (simp_all add: pg_text_ascii ascii_def byte_def, simp add: demo_msg_def msg_key_def)
  with store_get_content_exact [OF ref_db_documented r] r show ?thesis
    by (auto simp: contents_def demo_msg_def msg_key_def)
qed

end
