(* ===== verification/PersistSession.thy ===== *)
theory PersistSession
  imports MessageStore
begin

text \<open>
  \<open>internal/usecase/persist_session.go\<close>: the buffer of token deltas per request and its
  flush to the message store.  \<open>Flush\<close> is split as the mutex splits it: the snapshot under
  the lock (\<open>flush_snapshot\<close>), then, without the lock, the read of the stored contents and
  the upsert of the merged ones.  The interleavings of these parts are in
  \<open>PersistenceWorker\<close>.  The use case is proved against the contract
  \<open>message_store\<close> of the interface it calls.
\<close>

section \<open>The use case\<close>

record tokenBuffer =
  tb_sessionID :: string
  tb_userMessage :: string
  tb_content :: string

record PersistSessionUseCase =
  ps_buffers :: "(string, tokenBuffer) go_map"
  ps_count :: int

definition NewPersistSession :: PersistSessionUseCase where
  "NewPersistSession = \<lparr>ps_buffers = [], ps_count = 0\<rparr>"

definition AddToken :: "TokenEvent \<Rightarrow> PersistSessionUseCase \<Rightarrow> PersistSessionUseCase" where
  "AddToken token uc =
     (let buf = (case gm_get (ps_buffers uc) (te_RequestID token) of
                   Some b \<Rightarrow> b
                 | None \<Rightarrow> \<lparr>tb_sessionID = te_SessionID token,
                            tb_userMessage = te_UserMessage token, tb_content = []\<rparr>)
      in uc\<lparr>ps_buffers := gm_put (te_RequestID token)
                           (buf\<lparr>tb_content := tb_content buf @ te_Delta token\<rparr>) (ps_buffers uc),
            ps_count := ps_count uc + 1\<rparr>)"

definition ShouldFlush :: "int \<Rightarrow> PersistSessionUseCase \<Rightarrow> bool" where
  "ShouldFlush threshold uc \<longleftrightarrow> ps_count uc \<ge> threshold"

text \<open>The part of \<open>Flush\<close> under the lock; \<open>None\<close> for its early return.\<close>

type_synonym snapshot = "(string, tokenBuffer) go_map"

definition flush_snapshot :: "PersistSessionUseCase \<Rightarrow> snapshot option \<times> PersistSessionUseCase" where
  "flush_snapshot uc =
     (if length (ps_buffers uc) = 0 then (None, uc)
      else (Some (map (\<lambda>(i, buf). (i, \<lparr>tb_sessionID = tb_sessionID buf,
                                      tb_userMessage = tb_userMessage buf,
                                      tb_content = tb_content buf\<rparr>)) (ps_buffers uc)),
            uc\<lparr>ps_buffers := [], ps_count := 0\<rparr>))"

definition flush_ids :: "(string list \<Rightarrow> string list) \<Rightarrow> snapshot \<Rightarrow> string list" where
  "flush_ids it snap = it (gm_keys snap)"

definition flush_pair :: "(string \<rightharpoonup> string) \<Rightarrow> string \<Rightarrow> tokenBuffer \<Rightarrow> Message list" where
  "flush_pair existing requestID buf =
     [\<lparr>msg_SessionID = tb_sessionID buf, msg_RequestID = requestID, msg_Role = RoleUser,
       msg_Content = tb_userMessage buf\<rparr>,
      \<lparr>msg_SessionID = tb_sessionID buf, msg_RequestID = requestID, msg_Role = RoleAssistant,
       msg_Content = str_at existing requestID @ tb_content buf\<rparr>]"

definition flush_msgs ::
  "(string list \<Rightarrow> string list) \<Rightarrow> (string \<rightharpoonup> string) \<Rightarrow> snapshot \<Rightarrow> Message list" where
  "flush_msgs it existing snap =
     concat (map (\<lambda>requestID. case gm_get snap requestID of
                                None \<Rightarrow> [] | Some buf \<Rightarrow> flush_pair existing requestID buf)
                 (it (gm_keys snap)))"

text \<open>
  The orders of the three loops over maps that one flush runs: over the snapshot for the request
  ids, over it again for the messages, and over the store's set of session ids.
\<close>

record flush_orders =
  ord_ids :: "string list \<Rightarrow> string list"
  ord_msgs :: "string list \<Rightarrow> string list"
  ord_sessions :: "string list \<Rightarrow> string list"

definition orders_ok :: "flush_orders \<Rightarrow> bool" where
  "orders_ok o' \<longleftrightarrow>
     range_order (ord_ids o') \<and> range_order (ord_msgs o') \<and> range_order (ord_sessions o')"

definition Flush ::
  "(string list \<Rightarrow> ('d, string \<rightharpoonup> string) go_call) \<Rightarrow>
   ((string list \<Rightarrow> string list) \<Rightarrow> Message list \<Rightarrow> ('d, unit) go_call) \<Rightarrow>
   flush_orders \<Rightarrow> (PersistSessionUseCase \<times> 'd, unit) go_call" where
  "Flush get upsert o' = (\<lambda>(uc, d).
     (case flush_snapshot uc of
        (None, uc') \<Rightarrow> (Inr (), (uc', d))
      | (Some snap, uc') \<Rightarrow>
          (case get (flush_ids (ord_ids o') snap) d of
             (Inl e, d1) \<Rightarrow> (Inl e, (uc', d1))
           | (Inr existing, d1) \<Rightarrow>
               (case upsert (ord_sessions o') (flush_msgs (ord_msgs o') existing snap) d1 of
                  (r, d2) \<Rightarrow> (r, (uc', d2))))))"

section \<open>Buffers\<close>

definition ps_inv :: "PersistSessionUseCase \<Rightarrow> bool" where
  "ps_inv uc \<longleftrightarrow> gm_inv (ps_buffers uc) \<and> 0 \<le> ps_count uc"

definition buf_str :: "(string, tokenBuffer) go_map \<Rightarrow> string \<Rightarrow> string" where
  "buf_str m r = (case gm_get m r of None \<Rightarrow> [] | Some b \<Rightarrow> tb_content b)"

text \<open>What is buffered for a request, and the concatenated deltas of a list of tokens.\<close>

abbreviation buffered :: "PersistSessionUseCase \<Rightarrow> string \<Rightarrow> string" where
  "buffered uc r \<equiv> buf_str (ps_buffers uc) r"

definition deltas :: "string \<Rightarrow> TokenEvent list \<Rightarrow> string" where
  "deltas r ts = concat (map te_Delta (filter (\<lambda>t. te_RequestID t = r) ts))"

lemma deltas_simps [simp]:
  "deltas r [] = []"
  "deltas r (t # ts) = (if te_RequestID t = r then te_Delta t else []) @ deltas r ts"
  "deltas r (ts @ us) = deltas r ts @ deltas r us"
  by (simp_all add: deltas_def)

lemma buf_str_Nil [simp]: "buf_str [] r = []"
  by (simp add: buf_str_def)

lemma ps_inv_New [simp]: "ps_inv NewPersistSession"
  by (simp add: ps_inv_def NewPersistSession_def)

lemma buffered_New [simp]: "buffered NewPersistSession r = []"
  by (simp add: NewPersistSession_def)

lemma ps_inv_AddToken: "ps_inv uc \<Longrightarrow> ps_inv (AddToken t uc)"
  by (simp add: ps_inv_def AddToken_def Let_def)

lemma ps_count_AddToken [simp]: "ps_count (AddToken t uc) = ps_count uc + 1"
  by (simp add: AddToken_def Let_def)

lemma buffered_AddToken:
  "buffered (AddToken t uc) r = buffered uc r @ (if te_RequestID t = r then te_Delta t else [])"
  by (auto simp: AddToken_def Let_def buf_str_def gm_get_put split: option.split)

lemma keys_AddToken: "set (gm_keys (ps_buffers (AddToken t uc))) = insert (te_RequestID t) (set (gm_keys (ps_buffers uc)))"
  by (simp add: AddToken_def Let_def dom_update)

lemma flush_snapshot_eq:
  "flush_snapshot uc =
     (if ps_buffers uc = [] then (None, uc)
      else (Some (ps_buffers uc), uc\<lparr>ps_buffers := [], ps_count := 0\<rparr>))"
  by (auto simp: flush_snapshot_def intro!: map_idI)

lemma flush_snapshot_Some:
  assumes "flush_snapshot uc = (Some snap, uc')"
  shows "snap = ps_buffers uc" and "snap \<noteq> []" and "ps_buffers uc' = []" and "ps_count uc' = 0"
  using assms by (auto simp: flush_snapshot_eq split: if_splits)

lemma flush_snapshot_None:
  assumes "flush_snapshot uc = (None, uc')"
  shows "uc' = uc" and "ps_buffers uc = []"
  using assms by (auto simp: flush_snapshot_eq split: if_splits)

section \<open>The batch of a flush\<close>

lemma flush_ids_set: "range_order it \<Longrightarrow> gm_inv snap \<Longrightarrow> set (flush_ids it snap) = set (gm_keys snap)"
  by (simp add: flush_ids_def gm_inv_def range_orderD)

lemma contents_flush_pair:
  "contents (flush_pair ex k b) =
     [(k, RoleUser) \<mapsto> tb_userMessage b, (k, RoleAssistant) \<mapsto> str_at ex k @ tb_content b]"
  by (auto simp: flush_pair_def contents_def msg_key_def fun_eq_iff)

lemma contents_pairs:
  "contents (concat (map (\<lambda>k. case gm_get snap k of None \<Rightarrow> [] | Some b \<Rightarrow> flush_pair ex k b) ks)) (r, role) =
     (if r \<notin> set ks then None
      else case gm_get snap r of None \<Rightarrow> None
      | Some b \<Rightarrow> contents (flush_pair ex r b) (r, role))"
proof (induction ks arbitrary: r role)
  case Nil
  then show ?case by (simp add: contents_def)
next
  case (Cons k ks)
  show ?case
    by (cases "gm_get snap k")
      (auto simp: contents_append Cons map_add_def contents_flush_pair split: option.split)
qed

lemma contents_flush_msgs:
  assumes "range_order it" and "gm_inv snap"
  shows "contents (flush_msgs it ex snap) (r, RoleAssistant) =
           map_option (\<lambda>b. str_at ex r @ tb_content b) (gm_get snap r)"
    and "contents (flush_msgs it ex snap) (r, RoleUser) = map_option tb_userMessage (gm_get snap r)"
proof -
  have set: "set (it (gm_keys snap)) = set (gm_keys snap)"
    using assms by (simp add: gm_inv_def range_orderD)
  have none: "r \<notin> fst ` set snap \<Longrightarrow> gm_get snap r = None"
    by (simp add: map_of_eq_None_iff)
  show "contents (flush_msgs it ex snap) (r, RoleAssistant) =
           map_option (\<lambda>b. str_at ex r @ tb_content b) (gm_get snap r)"
    unfolding flush_msgs_def contents_pairs set
    by (auto simp: contents_flush_pair none split: option.split)
  show "contents (flush_msgs it ex snap) (r, RoleUser) = map_option tb_userMessage (gm_get snap r)"
    unfolding flush_msgs_def contents_pairs set
    by (auto simp: contents_flush_pair none split: option.split)
qed

lemma keys_pairs:
  assumes "distinct ks"
  shows "distinct (map msg_key (concat (map (\<lambda>k. case gm_get snap k of None \<Rightarrow> []
           | Some b \<Rightarrow> flush_pair ex k b) ks)))"
  using assms
proof (induction ks)
  case (Cons k ks)
  have "fst ` msg_key ` set (concat (map (\<lambda>k. case gm_get snap k of None \<Rightarrow> []
      | Some b \<Rightarrow> flush_pair ex k b) ks)) \<subseteq> set ks"
    by (auto simp: flush_pair_def msg_key_def split: option.splits)
  with Cons show ?case
    by (force simp: flush_pair_def msg_key_def split: option.split)
qed simp

lemma keys_flush_msgs:
  assumes "range_order it" and "gm_inv snap"
  shows "distinct (map msg_key (flush_msgs it ex snap))"
  unfolding flush_msgs_def
  using assms by (intro keys_pairs) (simp add: gm_inv_def range_orderD)

text \<open>
  Texts that PostgreSQL stores: in an event, in a snapshot of the buffers, and in the batch that a
  flush makes of the snapshot and the contents it read.
\<close>

definition event_texts :: "TokenEvent \<Rightarrow> bool" where
  "event_texts t \<longleftrightarrow> pg_text (te_RequestID t) \<and> pg_text (te_SessionID t) \<and>
     pg_text (te_UserMessage t) \<and> pg_text (te_Delta t)"

definition buffer_texts :: "snapshot \<Rightarrow> bool" where
  "buffer_texts snap \<longleftrightarrow> (\<forall>(r, b) \<in> set snap. pg_text r \<and> pg_text (tb_sessionID b) \<and>
     pg_text (tb_userMessage b) \<and> pg_text (tb_content b))"

lemma buffer_texts_New [simp]: "buffer_texts (ps_buffers NewPersistSession)"
  by (simp add: buffer_texts_def NewPersistSession_def)

lemma buffer_texts_Nil [simp]: "buffer_texts []"
  by (simp add: buffer_texts_def)

lemma buffer_texts_get:
  "buffer_texts snap \<Longrightarrow> gm_get snap r = Some b \<Longrightarrow>
     pg_text r \<and> pg_text (tb_sessionID b) \<and> pg_text (tb_userMessage b) \<and> pg_text (tb_content b)"
  by (auto simp: buffer_texts_def dest!: map_of_SomeD)

lemma buffer_texts_put:
  assumes "buffer_texts snap" and "pg_text r" and "pg_text (tb_sessionID b)"
    and "pg_text (tb_userMessage b)" and "pg_text (tb_content b)"
  shows "buffer_texts (gm_put r b snap)"
  using assms unfolding buffer_texts_def by (induction snap) auto

lemma buffer_texts_AddToken:
  assumes "buffer_texts (ps_buffers uc)" and "event_texts t"
  shows "buffer_texts (ps_buffers (AddToken t uc))"
  using assms
  by (auto simp: AddToken_def Let_def event_texts_def split: option.split
      intro!: buffer_texts_put pg_text_append dest: buffer_texts_get)

lemma buffer_texts_fold:
  "buffer_texts (ps_buffers uc) \<Longrightarrow> \<forall>t \<in> set ts. event_texts t \<Longrightarrow>
     buffer_texts (ps_buffers (fold AddToken ts uc))"
  by (induction ts arbitrary: uc) (auto intro: buffer_texts_AddToken)

text \<open>The user message of a request whose events all carry the same one.\<close>

lemma userMessage_fold:
  assumes "\<forall>b. gm_get (ps_buffers uc) r = Some b \<longrightarrow> tb_userMessage b = u"
    and "\<forall>t \<in> set ts. te_RequestID t = r \<longrightarrow> te_UserMessage t = u"
    and "gm_get (ps_buffers uc) r \<noteq> None \<or> r \<in> te_RequestID ` set ts"
  shows "\<exists>b. gm_get (ps_buffers (fold AddToken ts uc)) r = Some b \<and> tb_userMessage b = u"
  using assms
proof (induction ts arbitrary: uc)
  case (Cons t ts)
  have "\<forall>b. gm_get (ps_buffers (AddToken t uc)) r = Some b \<longrightarrow> tb_userMessage b = u"
    using Cons.prems(1,2) by (auto simp: AddToken_def Let_def gm_get_put split: option.splits)
  moreover have "gm_get (ps_buffers (AddToken t uc)) r \<noteq> None \<or> r \<in> te_RequestID ` set ts"
    using Cons.prems(3) by (auto simp: AddToken_def Let_def gm_get_put split: option.splits)
  ultimately show ?case
    using Cons.IH [of "AddToken t uc"] Cons.prems(2) by simp
qed auto

lemma flush_ids_texts:
  "range_order it \<Longrightarrow> gm_inv snap \<Longrightarrow> buffer_texts snap \<Longrightarrow> \<forall>r \<in> set (flush_ids it snap). pg_text r"
  by (auto simp: flush_ids_set buffer_texts_def)

lemma flush_msgs_texts:
  assumes "buffer_texts snap" and "\<And>r. gm_get snap r \<noteq> None \<Longrightarrow> pg_text (str_at ex r)"
  shows "\<forall>m \<in> set (flush_msgs it ex snap). pg_row m"
proof
  fix m
  assume "m \<in> set (flush_msgs it ex snap)"
  then obtain r where "m \<in> set (case gm_get snap r of None \<Rightarrow> [] | Some b \<Rightarrow> flush_pair ex r b)"
    by (auto simp: flush_msgs_def)
  then obtain b where "gm_get snap r = Some b" and "m \<in> set (flush_pair ex r b)"
    by (cases "gm_get snap r") auto
  with buffer_texts_get [OF assms(1), of r b] assms(2) [of r] show "pg_row m"
    by (auto simp: flush_pair_def pg_row_def pg_text_append)
qed

text \<open>One text with a NUL is enough to make the batch contain a row that PostgreSQL refuses.\<close>

definition has_nul :: "string \<Rightarrow> tokenBuffer \<Rightarrow> bool" where
  "has_nul r b \<longleftrightarrow> CHR 0x00 \<in> set r \<union> set (tb_sessionID b) \<union> set (tb_userMessage b) \<union> set (tb_content b)"

lemma flush_msgs_nul:
  assumes "range_order it" and "gm_inv snap" and "gm_get snap r = Some b" and "has_nul r b"
  shows "\<exists>m \<in> set (flush_msgs it ex snap). \<not> pg_row m"
proof -
  have "r \<in> set (it (gm_keys snap))"
    using assms(1-3) by (auto simp: range_orderD gm_inv_def dest!: map_of_SomeD intro!: image_eqI [where x = "(r, b)"])
  then have "set (flush_pair ex r b) \<subseteq> set (flush_msgs it ex snap)"
    using assms(3) by (force simp: flush_msgs_def)
  moreover have "\<exists>m \<in> set (flush_pair ex r b). \<not> pg_row m"
    using assms(4) by (auto simp: flush_pair_def pg_row_def pg_text_def has_nul_def)
  ultimately show ?thesis by blast
qed

section \<open>Flushing against the contract of the store\<close>

text \<open>The reply stored for a request: the content of its assistant message, empty if there is none.\<close>

definition stored_reply :: "Message list \<Rightarrow> string \<Rightarrow> string" where
  "stored_reply ms r = str_at (contents ms) (r, RoleAssistant)"

text \<open>Runs of the use case that nothing interrupts; a failing flush ends the run with its error.\<close>

datatype ps_op = OpAddToken TokenEvent | OpFlush flush_orders

fun ps_exec ::
  "(string list \<Rightarrow> ('d, string \<rightharpoonup> string) go_call) \<Rightarrow>
   ((string list \<Rightarrow> string list) \<Rightarrow> Message list \<Rightarrow> ('d, unit) go_call) \<Rightarrow>
   ps_op list \<Rightarrow> (PersistSessionUseCase \<times> 'd, unit) go_call" where
  "ps_exec get upsert [] = go_return ()"
| "ps_exec get upsert (OpAddToken t # ops) = (\<lambda>(uc, d). ps_exec get upsert ops (AddToken t uc, d))"
| "ps_exec get upsert (OpFlush o' # ops) =
     go_bind (Flush get upsert o') (\<lambda>_. ps_exec get upsert ops)"

fun op_tokens :: "ps_op list \<Rightarrow> TokenEvent list" where
  "op_tokens [] = []"
| "op_tokens (OpAddToken t # ops) = t # op_tokens ops"
| "op_tokens (OpFlush _ # ops) = op_tokens ops"

fun op_orders :: "ps_op list \<Rightarrow> flush_orders list" where
  "op_orders [] = []"
| "op_orders (OpAddToken _ # ops) = op_orders ops"
| "op_orders (OpFlush o' # ops) = o' # op_orders ops"

context message_store
begin

lemma get_flush:
  assumes "good e" and "range_order it" and "gm_inv snap"
    and "get e (flush_ids it snap) d = (Inr ex, d')"
  shows "rows e d' = rows e d"
    and "r \<in> set (gm_keys snap) \<Longrightarrow> str_at ex r = stored_reply (rows e d) r"
  using get_ok [OF assms(1,4)] flush_ids_set [OF assms(2,3)]
  by (auto simp: stored_reply_def str_at_def)

lemma upsert_flush:
  assumes "good e" and "range_order it" and "gm_inv snap"
    and "upsert e it' (flush_msgs it ex snap) d = (Inr (), d')"
  shows "stored_reply (rows e d') r =
    (case gm_get snap r of None \<Rightarrow> stored_reply (rows e d) r | Some b \<Rightarrow> str_at ex r @ tb_content b)"
    and "gm_get snap r = Some b \<Longrightarrow> contents (rows e d') (r, RoleUser) = Some (tb_userMessage b)"
proof -
  show "stored_reply (rows e d') r =
    (case gm_get snap r of None \<Rightarrow> stored_reply (rows e d) r | Some b \<Rightarrow> str_at ex r @ tb_content b)"
    unfolding stored_reply_def upsert_str [OF assms(1,4)] contents_flush_msgs [OF assms(2,3)]
    by (cases "gm_get snap r") simp_all
  show "contents (rows e d') (r, RoleUser) = Some (tb_userMessage b)" if "gm_get snap r = Some b"
    using that
    by (simp add: upsert_ok [OF assms(1,4)] contents_pg_upsert map_add_def
        contents_flush_msgs [OF assms(2,3)])
qed

lemma Flush_cases:
  assumes "Flush (get e) (upsert e) o' (uc, d) = (res, (uc', d'))"
  obtains (nothing) "ps_buffers uc = []" and "res = Inr ()" and "uc' = uc" and "d' = d"
  | (read_failed) x where "ps_buffers uc \<noteq> []" and "ps_buffers uc' = []" and "ps_count uc' = 0"
      and "res = Inl x" and "get e (flush_ids (ord_ids o') (ps_buffers uc)) d = (Inl x, d')"
  | (written) ex d1 where "ps_buffers uc \<noteq> []" and "ps_buffers uc' = []" and "ps_count uc' = 0"
      and "get e (flush_ids (ord_ids o') (ps_buffers uc)) d = (Inr ex, d1)"
      and "upsert e (ord_sessions o') (flush_msgs (ord_msgs o') ex (ps_buffers uc)) d1 = (res, d')"
  using assms unfolding Flush_def
  by (auto simp: flush_snapshot_eq split: prod.splits sum.splits if_splits)

lemma Flush_success:
  assumes "good e" and "orders_ok o'" and "ps_inv uc"
    and "Flush (get e) (upsert e) o' (uc, d) = (Inr (), (uc', d'))"
  shows "stored_reply (rows e d') r = stored_reply (rows e d) r @ buffered uc r"
    and "ps_buffers uc' = []" and "ps_inv uc'"
    and "gm_get (ps_buffers uc) r = Some b \<Longrightarrow> contents (rows e d') (r, RoleUser) = Some (tb_userMessage b)"
proof -
  have ord: "range_order (ord_ids o')" "range_order (ord_msgs o')" and inv: "gm_inv (ps_buffers uc)"
    using assms(2,3) by (auto simp: orders_ok_def ps_inv_def)
  show "stored_reply (rows e d') r = stored_reply (rows e d) r @ buffered uc r"
    using assms(4)
  proof (cases rule: Flush_cases)
    case (written ex d1)
    note g = get_flush [OF assms(1) ord(1) inv written(4)]
    note u = upsert_flush(1) [OF assms(1) ord(2) inv written(5), of r]
    show ?thesis
    proof (cases "gm_get (ps_buffers uc) r")
      case None
      then show ?thesis by (simp add: u g(1) buf_str_def)
    next
      case (Some b)
      then have "r \<in> set (gm_keys (ps_buffers uc))"
        by (metis domI dom_map_of_conv_image_fst list.set_map)
      with Some g(2) show ?thesis by (simp add: u buf_str_def)
    qed
  qed simp_all
  show "ps_buffers uc' = []" and "ps_inv uc'"
    using assms(4) by (cases rule: Flush_cases; use assms(3) in \<open>simp add: ps_inv_def\<close>)+
  show "contents (rows e d') (r, RoleUser) = Some (tb_userMessage b)"
    if "gm_get (ps_buffers uc) r = Some b"
    using assms(4)
  proof (cases rule: Flush_cases)
    case (written ex d1)
    show ?thesis
      by (rule upsert_flush(2) [OF assms(1) ord(2) inv written(5) that])
  qed (use that in simp_all)
qed

text \<open>The batch made of storable buffers and stored contents is storable.\<close>

lemma flush_rows:
  assumes "good e" and "range_order it" and "gm_inv snap" and "buffer_texts snap"
    and "get e (flush_ids it snap) d = (Inr ex, d')"
  shows "\<forall>m \<in> set (flush_msgs it' ex snap). pg_row m"
proof (rule flush_msgs_texts [OF assms(4)])
  fix r
  assume "gm_get snap r \<noteq> None"
  then have "r \<in> set (gm_keys snap)"
    by (metis domI dom_map_of_conv_image_fst list.set_map not_None_eq)
  then have "str_at ex r = stored_reply (rows e d) r"
    by (rule get_flush(2) [OF assms(1-3,5)])
  then show "pg_text (str_at ex r)"
    using pg_text_str_at [OF rows_text [OF assms(1)]] by (simp add: stored_reply_def)
qed

lemma Flush_avail:
  assumes "good e" and "avail e" and "orders_ok o'" and "ps_inv uc" and "buffer_texts (ps_buffers uc)"
  shows "\<exists>uc' d'. Flush (get e) (upsert e) o' (uc, d) = (Inr (), (uc', d'))"
proof (cases "ps_buffers uc = []")
  case True
  then show ?thesis by (simp add: Flush_def flush_snapshot_eq)
next
  case False
  have ord: "range_order (ord_ids o')" "range_order (ord_msgs o')" "range_order (ord_sessions o')"
    and inv: "gm_inv (ps_buffers uc)"
    using assms(3,4) by (auto simp: orders_ok_def ps_inv_def)
  obtain ex d1 where 1: "get e (flush_ids (ord_ids o') (ps_buffers uc)) d = (Inr ex, d1)"
    using get_avail [OF assms(1,2) flush_ids_texts [OF ord(1) inv assms(5)]] by blast
  note rows = flush_rows [OF assms(1) ord(1) inv assms(5) 1]
  obtain d2 where "upsert e (ord_sessions o') (flush_msgs (ord_msgs o') ex (ps_buffers uc)) d1 = (Inr (), d2)"
    using upsert_avail [OF assms(1,2) ord(3) keys_flush_msgs [OF ord(2) inv] rows] by blast
  with 1 False show ?thesis
    by (simp add: Flush_def flush_snapshot_eq)
qed

text \<open>A NUL in one of the buffered texts makes the whole flush fail.\<close>

lemma Flush_nul:
  assumes "good e" and "orders_ok o'" and "ps_inv uc"
    and "gm_get (ps_buffers uc) r = Some b" and "has_nul r b"
  shows "\<exists>x uc' d'. Flush (get e) (upsert e) o' (uc, d) = (Inl x, (uc', d')) \<and>
    ps_buffers uc' = [] \<and> rows e d' = rows e d"
proof -
  have ord: "range_order (ord_ids o')" "range_order (ord_msgs o')" and inv: "gm_inv (ps_buffers uc)"
    using assms(2,3) by (auto simp: orders_ok_def ps_inv_def)
  have ne: "ps_buffers uc \<noteq> []"
    using assms(4) by auto
  obtain g d1 where g: "get e (flush_ids (ord_ids o') (ps_buffers uc)) d = (g, d1)" by fastforce
  show ?thesis
  proof (cases g)
    case (Inl x)
    with g get_fail [OF assms(1)] ne show ?thesis
      by (auto simp: Flush_def flush_snapshot_eq)
  next
    case (Inr ex)
    obtain m where "m \<in> set (flush_msgs (ord_msgs o') ex (ps_buffers uc))" and "\<not> pg_row m"
      using flush_msgs_nul [OF ord(2) inv assms(4,5)] by blast
    from upsert_refuses [OF assms(1) this] obtain x d2 where
      "upsert e (ord_sessions o') (flush_msgs (ord_msgs o') ex (ps_buffers uc)) d1 = (Inl x, d2)"
      and "rows e d2 = rows e d1" by blast
    with g Inr get_ok [OF assms(1), of _ d ex d1] ne show ?thesis
      by (auto simp: Flush_def flush_snapshot_eq)
  qed
qed

text \<open>A failed flush has emptied the buffers, and stored what they held or nothing of it.\<close>

lemma Flush_failure:
  assumes "good e" and "Flush (get e) (upsert e) o' (uc, d) = (Inl x, (uc', d'))"
  shows "ps_buffers uc' = []"
    and "rows e d' = rows e d \<or> (\<exists>ex. rows e d' = pg_upsert (rows e d) (flush_msgs (ord_msgs o') ex (ps_buffers uc)))"
proof -
  show "ps_buffers uc' = []"
    using assms(2) by (cases rule: Flush_cases) simp_all
  show "rows e d' = rows e d \<or> (\<exists>ex. rows e d' = pg_upsert (rows e d) (flush_msgs (ord_msgs o') ex (ps_buffers uc)))"
    using assms(2)
  proof (cases rule: Flush_cases)
    case (read_failed y)
    then show ?thesis using get_fail [OF assms(1)] by blast
  next
    case (written ex d1)
    then show ?thesis
      using get_ok [OF assms(1) written(4)] upsert_fail [OF assms(1) written(5)] by auto
  qed simp
qed

lemma ps_exec_total:
  assumes "good e" and "\<forall>o' \<in> set (op_orders ops). orders_ok o'" and "ps_inv uc"
    and "ps_exec (get e) (upsert e) ops (uc, d) = (Inr (), (uc', d'))"
  shows "stored_reply (rows e d') r @ buffered uc' r =
           stored_reply (rows e d) r @ buffered uc r @ deltas r (op_tokens ops) \<and> ps_inv uc'"
  using assms
proof (induction ops arbitrary: uc d)
  case Nil
  then show ?case by (simp add: go_return_def)
next
  case (Cons op ops)
  show ?case
  proof (cases op)
    case (OpAddToken t)
    with Cons.prems Cons.IH [of "AddToken t uc" d] show ?thesis
      by (simp add: ps_inv_AddToken buffered_AddToken)
  next
    case (OpFlush o')
    with Cons.prems(4) obtain uc1 d1 where
        f: "Flush (get e) (upsert e) o' (uc, d) = (Inr (), (uc1, d1))"
      and r: "ps_exec (get e) (upsert e) ops (uc1, d1) = (Inr (), (uc', d'))"
      by (auto elim!: go_bind_cases)
    have "orders_ok o'" using Cons.prems(2) OpFlush by simp
    note f' = Flush_success [OF Cons.prems(1) this Cons.prems(3) f]
    with Cons.IH [OF Cons.prems(1) _ f'(3) r] Cons.prems(2) OpFlush show ?thesis
      by simp
  qed
qed

lemma ps_exec_avail:
  assumes "good e" and "avail e" and "\<forall>o' \<in> set (op_orders ops). orders_ok o'" and "ps_inv uc"
    and "\<forall>t \<in> set (op_tokens ops). event_texts t" and "buffer_texts (ps_buffers uc)"
  shows "\<exists>uc' d'. ps_exec (get e) (upsert e) ops (uc, d) = (Inr (), (uc', d'))"
  using assms
proof (induction ops arbitrary: uc d)
  case Nil
  then show ?case by (simp add: go_return_def)
next
  case (Cons op ops)
  show ?case
  proof (cases op)
    case (OpAddToken t)
    with Cons.prems Cons.IH [of "AddToken t uc" d] show ?thesis
      by (simp add: ps_inv_AddToken buffer_texts_AddToken)
  next
    case (OpFlush o')
    with Cons.prems(3) have o: "orders_ok o'" by simp
    from Flush_avail [OF Cons.prems(1,2) o Cons.prems(4,6)] obtain uc1 d1 where
        f: "Flush (get e) (upsert e) o' (uc, d) = (Inr (), (uc1, d1))" by blast
    have "ps_inv uc1" and "ps_buffers uc1 = []"
      by (rule Flush_success(3,2) [OF Cons.prems(1) o Cons.prems(4) f])+
    with Cons.IH [OF Cons.prems(1,2)] Cons.prems(3,5) OpFlush show ?thesis
      by (simp add: go_bind_def f)
  qed
qed

lemma ps_exec_append:
  "ps_exec (get e) (upsert e) (xs @ ys) =
     go_bind (ps_exec (get e) (upsert e) xs) (\<lambda>_. ps_exec (get e) (upsert e) ys)"
proof (induction xs)
  case (Cons x xs)
  then show ?case
    by (cases x) (auto simp: go_bind_assoc, auto simp: go_bind_def fun_eq_iff)
qed simp

end

lemma op_tokens_append [simp]: "op_tokens (xs @ ys) = op_tokens xs @ op_tokens ys"
  by (induction xs rule: op_tokens.induct) auto

lemma op_orders_append [simp]: "op_orders (xs @ ys) = op_orders xs @ op_orders ys"
  by (induction xs rule: op_orders.induct) auto

lemma op_tokens_map [simp]: "op_tokens (map OpAddToken ts) = ts"
  by (induction ts) auto

lemma op_orders_map [simp]: "op_orders (map OpAddToken ts) = []"
  by (induction ts) auto

lemma ps_exec_adds:
  "ps_exec get upsert (map OpAddToken ts @ ops) (uc, d) = ps_exec get upsert ops (fold AddToken ts uc, d)"
  by (induction ts arbitrary: uc) auto

text \<open>The PostgreSQL store in the use case.\<close>

abbreviation pg_Flush :: "'d gorm_db \<Rightarrow> flush_orders \<Rightarrow> (PersistSessionUseCase \<times> 'd, unit) go_call" where
  "pg_Flush db \<equiv> Flush (store_GetContentByRequestIDs db) (store_BulkUpsertMessages db)"

abbreviation pg_exec :: "'d gorm_db \<Rightarrow> ps_op list \<Rightarrow> (PersistSessionUseCase \<times> 'd, unit) go_call" where
  "pg_exec db \<equiv> ps_exec (store_GetContentByRequestIDs db) (store_BulkUpsertMessages db)"

lemma pg_exec_total:
  assumes "pg_documented db view" and "\<forall>o' \<in> set (op_orders ops). orders_ok o'" and "ps_inv uc"
    and "pg_exec db ops (uc, d) = (Inr (), (uc', d'))"
  shows "stored_reply (pv_messages (view d')) r @ buffered uc' r =
           stored_reply (pv_messages (view d)) r @ buffered uc r @ deltas r (op_tokens ops) \<and> ps_inv uc'"
  using pg.ps_exec_total [of "(db, view)" ops uc d uc' d' r] assms by simp

lemma pg_exec_avail:
  assumes "pg_documented db view" and "pg_available db view"
    and "\<forall>o' \<in> set (op_orders ops). orders_ok o'" and "ps_inv uc"
    and "\<forall>t \<in> set (op_tokens ops). event_texts t" and "buffer_texts (ps_buffers uc)"
  shows "\<exists>uc' d'. pg_exec db ops (uc, d) = (Inr (), (uc', d'))"
  using pg.ps_exec_avail [of "(db, view)" ops uc d] assms by simp

section \<open>Properties\<close>

definition demo_orders :: flush_orders where
  "demo_orders = \<lparr>ord_ids = (\<lambda>ks. ks), ord_msgs = rev, ord_sessions = rev\<rparr>"

lemma demo_orders_ok [simp]: "orders_ok demo_orders"
  by (auto simp: orders_ok_def demo_orders_def)

definition demo_event :: "string \<Rightarrow> string \<Rightarrow> bool \<Rightarrow> TokenEvent" where
  "demo_event r d b =
     \<lparr>te_RequestID = r, te_SessionID = ''s1'', te_UserMessage = ''hi'', te_Delta = d, te_Done = b\<rparr>"

lemma demo_event_texts [simp]: "event_texts (demo_event r d b) \<longleftrightarrow> pg_text r \<and> pg_text d"
  by (simp add: event_texts_def demo_event_def pg_text_ascii ascii_def byte_def)

lemmas demo_texts = pg_text_ascii ascii_def byte_def

text \<open>
  No delta is lost, doubled or reordered by buffering and flushing: however tokens of many
  requests are added and however often the buffers are flushed in between, as long as the flushes
  succeed, the stored reply of every request followed by what is still buffered for it is the reply
  that was stored before followed by its deltas in order.
\<close>

theorem persist_stream_exact:
  assumes "pg_documented db view" and "\<forall>o' \<in> set (op_orders ops). orders_ok o'"
    and "pg_exec db ops (NewPersistSession, d) = (Inr (), (uc', d'))"
  shows "stored_reply (pv_messages (view d')) r @ buffered uc' r =
         stored_reply (pv_messages (view d)) r @ deltas r (op_tokens ops)"
  using pg_exec_total [OF assms(1,2) ps_inv_New assms(3), of r] by simp

theorem persist_stream_exact_witness:
  "\<exists>uc' d'. pg_exec ref_db [OpAddToken (demo_event ''r1'' ''he'' False), OpFlush demo_orders,
       OpAddToken (demo_event ''r2'' ''x'' False), OpAddToken (demo_event ''r1'' ''llo'' False)]
       (NewPersistSession, empty_pg) = (Inr (), (uc', d')) \<and>
     stored_reply (pv_messages (ref_view d')) ''r1'' @ buffered uc' ''r1'' = ''hello''"
proof -
  let ?ops = "[OpAddToken (demo_event ''r1'' ''he'' False), OpFlush demo_orders,
       OpAddToken (demo_event ''r2'' ''x'' False), OpAddToken (demo_event ''r1'' ''llo'' False)]"
  obtain uc' d' where r: "pg_exec ref_db ?ops (NewPersistSession, empty_pg) = (Inr (), (uc', d'))"
    using pg_exec_avail [OF ref_db_documented ref_db_available, of ?ops NewPersistSession empty_pg] by (auto simp: demo_texts)
  have "stored_reply (pv_messages (ref_view d')) ''r1'' @ buffered uc' ''r1'' =
        stored_reply (pv_messages (ref_view empty_pg)) ''r1'' @ deltas ''r1'' (op_tokens ?ops)"
    by (rule persist_stream_exact [OF ref_db_documented _ r]) simp
  also have "\<dots> = ''hello''"
    by (simp add: ref_view_def empty_pg_def stored_reply_def contents_def str_at_def demo_event_def)
  finally show ?thesis using r by blast
qed

text \<open>
  With a database that answers and tokens whose texts PostgreSQL stores, persistence makes
  progress: every run succeeds, whatever the orders in which the maps are ranged over, and one more flush leaves nothing in the buffers, so that
  the database alone then holds, for every request, the old reply followed by all its deltas.
\<close>

theorem persist_flush_completes:
  assumes "pg_documented db view" and "pg_available db view"
    and "\<forall>o' \<in> set (op_orders ops). orders_ok o'" and "orders_ok fin"
    and "\<forall>t \<in> set (op_tokens ops). event_texts t"
  shows "\<exists>uc' d'. pg_exec db (ops @ [OpFlush fin]) (NewPersistSession, d) = (Inr (), (uc', d')) \<and>
           ps_buffers uc' = [] \<and>
           (\<forall>r. stored_reply (pv_messages (view d')) r =
                stored_reply (pv_messages (view d)) r @ deltas r (op_tokens ops))"
proof -
  let ?e = "(db, view)"
  obtain uc' d' where run: "pg_exec db (ops @ [OpFlush fin]) (NewPersistSession, d) = (Inr (), (uc', d'))"
    using pg_exec_avail [OF assms(1,2), of "ops @ [OpFlush fin]" NewPersistSession d] assms(3-5) by auto
  then obtain uc1 d1 where r1: "pg_exec db ops (NewPersistSession, d) = (Inr (), (uc1, d1))"
    and f: "pg_Flush db fin (uc1, d1) = (Inr (), (uc', d'))"
    using pg.ps_exec_append [of ?e ops "[OpFlush fin]"]
    by (auto simp: go_return_def elim!: go_bind_cases)
  have "ps_inv uc1"
    using pg_exec_total [OF assms(1,3) ps_inv_New r1] by simp
  then have empty: "ps_buffers uc' = []"
    using pg.Flush_success(2) [of ?e fin uc1 d1 uc' d'] assms(1,4) f by simp
  then show ?thesis
    using run pg_exec_total [OF assms(1) _ ps_inv_New run] assms(3,4) by auto
qed

theorem persist_flush_completes_witness:
  "\<exists>uc' d'. pg_exec ref_db ([OpAddToken (demo_event ''r1'' ''hel'' False),
        OpAddToken (demo_event ''r1'' ''lo'' True)] @ [OpFlush demo_orders]) (NewPersistSession, empty_pg)
        = (Inr (), (uc', d')) \<and> ps_buffers uc' = [] \<and>
      stored_reply (pv_messages (ref_view d')) ''r1'' = ''hello''"
proof -
  let ?ops = "[OpAddToken (demo_event ''r1'' ''hel'' False), OpAddToken (demo_event ''r1'' ''lo'' True)]"
  obtain uc' d' where "pg_exec ref_db (?ops @ [OpFlush demo_orders]) (NewPersistSession, empty_pg) = (Inr (), (uc', d'))"
    and "ps_buffers uc' = []"
    and "\<forall>r. stored_reply (pv_messages (ref_view d')) r =
             stored_reply (pv_messages (ref_view empty_pg)) r @ deltas r (op_tokens ?ops)"
    using persist_flush_completes [OF ref_db_documented ref_db_available, of ?ops demo_orders empty_pg] by (auto simp: demo_texts)
  then show ?thesis
    by (auto simp: ref_view_def empty_pg_def stored_reply_def contents_def str_at_def demo_event_def)
qed

definition flush_effect :: "Message list \<Rightarrow> snapshot \<Rightarrow> (string \<times> string \<rightharpoonup> string)" where
  "flush_effect stored snap = (\<lambda>(r, role).
     case gm_get snap r of
       None \<Rightarrow> None
     | Some b \<Rightarrow> if role = RoleUser then Some (tb_userMessage b)
                else if role = RoleAssistant then Some (stored_reply stored r @ tb_content b)
                else None)"

lemma contents_flush_effect:
  assumes "range_order it" and "gm_inv snap"
    and ex: "\<And>r. r \<in> set (gm_keys snap) \<Longrightarrow> str_at ex r = stored_reply stored r"
  shows "contents (flush_msgs it ex snap) = flush_effect stored snap"
proof
  fix k :: "string \<times> string"
  obtain r role where k: "k = (r, role)" by (cases k)
  have set: "set (it (gm_keys snap)) = set (gm_keys snap)"
    using assms(1,2) by (simp add: gm_inv_def range_orderD)
  show "contents (flush_msgs it ex snap) k = flush_effect stored snap k"
  proof (cases "gm_get snap r")
    case None
    then show ?thesis
      by (simp add: k flush_effect_def flush_msgs_def contents_pairs)
  next
    case (Some b)
    then have "r \<in> set (gm_keys snap)"
      by (metis domI dom_map_of_conv_image_fst list.set_map)
    with Some show ?thesis
      unfolding k flush_effect_def flush_msgs_def contents_pairs set
      by (auto simp: contents_flush_pair ex)
  qed
qed



text \<open>
  A flush whose read of the stored contents fails has already emptied the buffers and does not
  refill them: it returns the error, the database is as before, and what was buffered is in neither
  place.
\<close>

theorem flush_read_error_drops_buffers:
  assumes "pg_documented db view" and "ps_buffers uc \<noteq> []"
    and "store_GetContentByRequestIDs db (flush_ids (ord_ids o') (ps_buffers uc)) d = (Inl x, d1)"
  shows "\<exists>uc'. pg_Flush db o' (uc, d) = (Inl x, (uc', d1)) \<and> ps_buffers uc' = [] \<and>
           view d1 = view d"
  using GetContent_fail [OF assms(1,3)] assms(2,3) by (simp add: Flush_def flush_snapshot_eq)

text \<open>A database that is down: every statement fails and changes nothing.\<close>

definition down_db :: "pg_view gorm_db" where
  "down_db c d = (Inl (ErrText ''connection refused''), d)"

lemma down_db_documented: "pg_documented down_db ref_view"
  using ref_view_keys ref_view_rows by (simp add: pg_documented_def down_db_def)

theorem flush_read_error_drops_buffers_witness:
  "\<exists>uc'. pg_Flush down_db demo_orders (AddToken (demo_event ''r1'' ''hey'' False) NewPersistSession, empty_pg)
       = (Inl (ErrText ''connection refused''), (uc', empty_pg)) \<and> ps_buffers uc' = []"
  using flush_read_error_drops_buffers [OF down_db_documented,
      of "AddToken (demo_event ''r1'' ''hey'' False) NewPersistSession" demo_orders empty_pg
         "ErrText ''connection refused''" empty_pg]
  by (auto simp: AddToken_def NewPersistSession_def demo_event_def demo_orders_def flush_ids_def
      store_GetContentByRequestIDs_def go_bind_def down_db_def)

text \<open>
  Replaying consumed tokens is not idempotent: if tokens are added and flushed, and then the
  same tokens are delivered again and flushed, each request's stored reply ends with its deltas
  twice, because the flush appends to what the database holds.
\<close>

theorem replay_doubles_reply:
  assumes "pg_documented db view" and "orders_ok o1" and "orders_ok o2"
    and "pg_exec db (map OpAddToken ts @ [OpFlush o1] @ map OpAddToken ts @ [OpFlush o2])
           (NewPersistSession, d) = (Inr (), (uc', d'))"
  shows "stored_reply (pv_messages (view d')) r =
         stored_reply (pv_messages (view d)) r @ deltas r ts @ deltas r ts"
proof -
  let ?e = "(db, view)" and ?pre = "map OpAddToken ts @ [OpFlush o1] @ map OpAddToken ts"
  have ords: "\<forall>o' \<in> set (op_orders ?pre). orders_ok o'"
    using assms(2) by simp
  obtain uc1 d1 where r1: "pg_exec db ?pre (NewPersistSession, d) = (Inr (), (uc1, d1))"
    and f: "pg_Flush db o2 (uc1, d1) = (Inr (), (uc', d'))"
    using assms(4) pg.ps_exec_append [of ?e ?pre "[OpFlush o2]"]
    by (auto simp: go_return_def elim!: go_bind_cases)
  note t = pg_exec_total [OF assms(1) ords ps_inv_New r1, of r]
  have "stored_reply (pv_messages (view d')) r = stored_reply (pv_messages (view d1)) r @ buffered uc1 r"
    using pg.Flush_success(1) [of ?e o2 uc1 d1 uc' d' r] assms(1,3) f t by simp
  with t show ?thesis by simp
qed

theorem replay_doubles_reply_witness:
  "\<exists>uc' d'. pg_exec ref_db (map OpAddToken [demo_event ''r1'' ''ab'' True] @ [OpFlush demo_orders] @
        map OpAddToken [demo_event ''r1'' ''ab'' True] @ [OpFlush demo_orders]) (NewPersistSession, empty_pg)
        = (Inr (), (uc', d')) \<and>
      stored_reply (pv_messages (ref_view d')) ''r1'' = ''abab''"
proof -
  let ?ts = "[demo_event ''r1'' ''ab'' True]"
  let ?ops = "map OpAddToken ?ts @ [OpFlush demo_orders] @ map OpAddToken ?ts @ [OpFlush demo_orders]"
  obtain uc' d' where r: "pg_exec ref_db ?ops (NewPersistSession, empty_pg) = (Inr (), (uc', d'))"
    using pg_exec_avail [OF ref_db_documented ref_db_available, of ?ops NewPersistSession empty_pg] by (auto simp: demo_texts)
  from replay_doubles_reply [OF ref_db_documented demo_orders_ok demo_orders_ok r, of "''r1''"] r show ?thesis
    by (auto simp: ref_view_def empty_pg_def stored_reply_def contents_def str_at_def demo_event_def)
qed

end
