(* ===== verification/Middleware.thy ===== *)
theory Middleware
  imports Wire
begin

text \<open>
  HTTP responses as the gin handlers write them, \<open>middleware/jwt.go\<close>,
  \<open>middleware/async_logger.go\<close> and \<open>cmd/gentoken\<close>.

  The JWT library is not code of the repository: parsing is a parameter \<open>jwt_Parse\<close>, which gets
  the raw token and the key function, and signing a parameter.  \<open>jwt_documented\<close> states what
  \<open>jwt.Parse\<close> documents: it answers without an error only for a token whose signature verifies,
  under the method its header names, with the key the key function returned for that method.
\<close>

section \<open>Errors as texts, responses\<close>

fun Error :: "go_error \<Rightarrow> string" where
  "Error (ErrText s) = s"
| "Error (Wrap p e) = p @ '': '' @ Error e"
| "Error RedisNil = ''redis: nil''"
| "Error CtxErr = ''context canceled''"
| "Error ErrSignatureInvalid = ''signature is invalid''"

record Response =
  rsp_Status :: nat
  rsp_Headers :: "(string \<times> string) list"
  rsp_Body :: string

text \<open>\<open>c.JSON(code, obj)\<close>, \<open>gin.H\{"error": msg\}\<close> and \<open>c.Status(code)\<close>.\<close>

definition c_JSON :: "nat \<Rightarrow> json \<Rightarrow> Response" where
  "c_JSON code obj =
     \<lparr>rsp_Status = code, rsp_Headers = [(''Content-Type'', ''application/json; charset=utf-8'')],
      rsp_Body = print_json obj\<rparr>"

definition gin_error :: "string \<Rightarrow> json" where
  "gin_error msg = JObj [(''error'', JStr msg)]"

definition c_Status :: "nat \<Rightarrow> Response" where
  "c_Status code = \<lparr>rsp_Status = code, rsp_Headers = [], rsp_Body = []\<rparr>"

lemma rsp_Status_simps [simp]: "rsp_Status (c_JSON code obj) = code" "rsp_Status (c_Status code) = code"
  by (simp_all add: c_JSON_def c_Status_def)

section \<open>Tokens of users\<close>

datatype jwt_method = SigningMethodHMAC | OtherMethod string

datatype claim = ClaimString string | ClaimOther json

type_synonym claims = "string \<rightharpoonup> claim"

text \<open>\<open>jwt_Claims\<close> is \<open>None\<close> where the claims are not \<open>jwt.MapClaims\<close>.\<close>

record jwt_token =
  jwt_Valid :: bool
  jwt_Claims :: "claims option"

type_synonym key_func = "jwt_method \<Rightarrow> go_error + string"

type_synonym jwt_parser = "string \<Rightarrow> key_func \<Rightarrow> go_error + jwt_token"

definition UserIDKey :: string where
  "UserIDKey = ''user_id''"

definition hmac_key :: "string \<Rightarrow> key_func" where
  "hmac_key secret method =
     (case method of SigningMethodHMAC \<Rightarrow> Inr secret | _ \<Rightarrow> Inl ErrSignatureInvalid)"

definition ParseJWT :: "jwt_parser \<Rightarrow> string \<Rightarrow> string \<Rightarrow> go_error + string" where
  "ParseJWT jwt_Parse raw secret =
     (case jwt_Parse raw (hmac_key secret) of
        Inl err \<Rightarrow> Inl ErrSignatureInvalid
      | Inr token \<Rightarrow>
          if \<not> jwt_Valid token then Inl ErrSignatureInvalid
          else case jwt_Claims token of
            None \<Rightarrow> Inl ErrSignatureInvalid
          | Some cs \<Rightarrow>
              (case cs UserIDKey of
                 Some (ClaimString userID) \<Rightarrow>
                   if userID = [] then Inl ErrSignatureInvalid else Inr userID
               | _ \<Rightarrow> Inl ErrSignatureInvalid))"

text \<open>
  The middleware in front of a handler, which gets the user id put into the context.  It works on the
  request's \<open>Authorization\<close> header (empty if there is none) and leaves the state alone unless the
  handler runs.
\<close>

definition JWT ::
  "jwt_parser \<Rightarrow> string \<Rightarrow> string \<Rightarrow> (string \<Rightarrow> 's \<Rightarrow> Response \<times> 's) \<Rightarrow> 's \<Rightarrow> Response \<times> 's" where
  "JWT jwt_Parse secret header next s =
     (if \<not> HasPrefix header ''Bearer '' then (c_JSON 401 (gin_error ''missing token''), s)
      else case ParseJWT jwt_Parse (TrimPrefix header ''Bearer '') secret of
        Inl err \<Rightarrow> (c_JSON 401 (gin_error ''invalid token''), s)
      | Inr userID \<Rightarrow> next userID s)"

section \<open>The command that issues tokens\<close>

datatype outcome = Exit nat string | Printed string

text \<open>\<open>sign\<close> is \<open>SignedString\<close> with HS256; the claims are \<open>user_id\<close> and \<open>exp\<close>, a number.\<close>

definition digit_char :: "nat \<Rightarrow> char" where
  "digit_char d = chr (48 + d)"

fun nat_text :: "nat \<Rightarrow> string" where
  "nat_text n = (if n < 10 then [digit_char n] else nat_text (n div 10) @ [digit_char (n mod 10)])"

declare nat_text.simps [simp del]

definition gentoken_claims :: "string \<Rightarrow> nat \<Rightarrow> claims" where
  "gentoken_claims userID now =
     [''user_id'' \<mapsto> ClaimString userID, ''exp'' \<mapsto> ClaimOther (JNum (nat_text (now + 24 * 60 * 60)))]"

definition gentoken ::
  "(string \<Rightarrow> string) \<Rightarrow> string list \<Rightarrow> nat \<Rightarrow> (claims \<Rightarrow> string \<Rightarrow> go_error + string) \<Rightarrow> outcome" where
  "gentoken getenv args now sign =
     (if length args < 2 then Exit 1 ''usage: gentoken <user_id>''
      else
        let userID = args ! 1; secret = getenv ''JWT_SECRET'' in
        if secret = [] then Exit 1 ''JWT_SECRET is not set''
        else case sign (gentoken_claims userID now) secret of
          Inl err \<Rightarrow> Exit 1 (''sign error: '' @ Error err)
        | Inr raw \<Rightarrow> Printed raw)"

section \<open>What the JWT library documents\<close>

text \<open>
  Of a raw token: the method its header names, its claims, the keys under which its signature verifies,
  and whether the times in its claims allow its use now.
\<close>

record jwt_facts =
  jf_method :: "string \<Rightarrow> jwt_method option"
  jf_claims :: "string \<Rightarrow> claims"
  jf_signed :: "string \<Rightarrow> string \<Rightarrow> bool"
  jf_current :: "string \<Rightarrow> bool"

definition jwt_documented :: "jwt_parser \<Rightarrow> jwt_facts \<Rightarrow> bool" where
  "jwt_documented jwt_Parse f \<longleftrightarrow>
     (\<forall>raw kf tok. jwt_Parse raw kf = Inr tok \<longrightarrow>
        (\<exists>m key. jf_method f raw = Some m \<and> kf m = Inr key \<and> jf_signed f raw key \<and> jf_current f raw) \<and>
        jwt_Valid tok \<and> jwt_Claims tok = Some (jf_claims f raw)) \<and>
     (\<forall>raw kf m key. jf_method f raw = Some m \<longrightarrow> kf m = Inr key \<longrightarrow> jf_signed f raw key \<longrightarrow>
        jf_current f raw \<longrightarrow> (\<exists>tok. jwt_Parse raw kf = Inr tok))"

text \<open>A signer whose tokens are HS256 tokens of those claims, verifying under the key and no other.\<close>

definition signer_documented :: "(claims \<Rightarrow> string \<Rightarrow> go_error + string) \<Rightarrow> jwt_facts \<Rightarrow> bool" where
  "signer_documented sign f \<longleftrightarrow>
     (\<forall>cs key raw. sign cs key = Inr raw \<longrightarrow>
        jf_method f raw = Some SigningMethodHMAC \<and> jf_claims f raw = cs \<and>
        (\<forall>key'. jf_signed f raw key' \<longleftrightarrow> key' = key))"

lemma ParseJWT_Inr:
  assumes "jwt_documented jwt_Parse f" and "ParseJWT jwt_Parse raw secret = Inr u"
  shows "jf_method f raw = Some SigningMethodHMAC" and "jf_signed f raw secret" and "jf_current f raw"
    and "jf_claims f raw UserIDKey = Some (ClaimString u)" and "u \<noteq> []"
proof -
  obtain tok cs where tok: "jwt_Parse raw (hmac_key secret) = Inr tok" "jwt_Claims tok = Some cs"
    and u: "cs UserIDKey = Some (ClaimString u)" "u \<noteq> []"
    using assms(2) by (auto simp: ParseJWT_def split: sum.splits option.splits claim.splits if_splits)
  have "(\<exists>m key. jf_method f raw = Some m \<and> hmac_key secret m = Inr key \<and> jf_signed f raw key \<and> jf_current f raw) \<and>
      jwt_Claims tok = Some (jf_claims f raw)"
    using assms(1) tok(1) unfolding jwt_documented_def by blast
  then obtain m key where m: "jf_method f raw = Some m" "hmac_key secret m = Inr key" "jf_signed f raw key"
      "jf_current f raw" and c: "jwt_Claims tok = Some (jf_claims f raw)"
    by blast
  have "m = SigningMethodHMAC" and "key = secret"
    using m(2) by (cases m; simp add: hmac_key_def)+
  with m c tok u show "jf_method f raw = Some SigningMethodHMAC" and "jf_signed f raw secret"
    and "jf_current f raw" and "jf_claims f raw UserIDKey = Some (ClaimString u)" and "u \<noteq> []"
    by simp_all
qed

lemma ParseJWT_accepts:
  assumes "jwt_documented jwt_Parse f" and "jf_method f raw = Some SigningMethodHMAC"
    and "jf_signed f raw secret" and "jf_current f raw"
    and "jf_claims f raw UserIDKey = Some (ClaimString u)" and "u \<noteq> []"
  shows "ParseJWT jwt_Parse raw secret = Inr u"
proof -
  have "hmac_key secret SigningMethodHMAC = Inr secret" by (simp add: hmac_key_def)
  then obtain tok where tok: "jwt_Parse raw (hmac_key secret) = Inr tok"
    using assms(1-4) unfolding jwt_documented_def by blast
  then have "jwt_Valid tok \<and> jwt_Claims tok = Some (jf_claims f raw)"
    using assms(1) unfolding jwt_documented_def by blast
  with tok assms(5,6) show ?thesis by (simp add: ParseJWT_def)
qed

section \<open>The access log\<close>

record logEntry =
  le_method :: string
  le_path :: string
  le_status :: nat
  le_latency :: int
  le_clientIP :: string

definition log_capacity :: nat where
  "log_capacity = 8192"

text \<open>
  \<open>AsyncLogger\<close> after the handler returned: the entry is offered to the channel; the goroutine
  at its other end takes the oldest entry and writes it.
\<close>

definition log_request :: "logEntry \<Rightarrow> logEntry list \<Rightarrow> logEntry list" where
  "log_request e ch = chan_offer log_capacity e ch"

fun log_writer :: "logEntry list \<times> logEntry list \<Rightarrow> logEntry list \<times> logEntry list" where
  "log_writer ([], out) = ([], out)"
| "log_writer (e # ch, out) = (ch, out @ [e])"

datatype log_event = Request logEntry | Write

fun log_run :: "log_event list \<Rightarrow> logEntry list \<times> logEntry list \<Rightarrow> logEntry list \<times> logEntry list" where
  "log_run [] s = s"
| "log_run (Request e # evs) (ch, out) = log_run evs (log_request e ch, out)"
| "log_run (Write # evs) s = log_run evs (log_writer s)"

fun requests :: "log_event list \<Rightarrow> logEntry list" where
  "requests [] = []"
| "requests (Request e # evs) = e # requests evs"
| "requests (Write # evs) = requests evs"

lemma log_run_subseq:
  assumes "length ch \<le> log_capacity" and "log_run evs (ch, out) = (ch', out')"
  shows "length ch' \<le> log_capacity \<and> subseq (out' @ ch') (out @ ch @ requests evs)"
  using assms
proof (induction evs arbitrary: ch out)
  case (Cons ev evs)
  note IH = Cons.IH and prems = Cons.prems
  show ?case
  proof (cases ev)
    case (Request e)
    with Cons.IH [of "log_request e ch" out] Cons.prems
    have "length ch' \<le> log_capacity" and s: "subseq (out' @ ch') (out @ log_request e ch @ requests evs)"
      by (simp_all add: log_request_def length_chan_offer)
    have "subseq (log_request e ch) (ch @ [e])"
      by (simp add: log_request_def subseq_chan_offer)
    then have "subseq (out @ log_request e ch @ requests evs) (out @ (ch @ [e]) @ requests evs)"
      by (intro list_emb_append_mono) auto
    with s have "subseq (out' @ ch') (out @ (ch @ [e]) @ requests evs)"
      by (rule subseq_order.trans)
    with \<open>length ch' \<le> log_capacity\<close> Request show ?thesis by simp
  next
    case Write
    show ?thesis
    proof (cases ch)
      case Nil
      with Write IH [of "[]" out] prems show ?thesis by simp
    next
      case (Cons a r)
      with Write IH [of r "out @ [a]"] prems show ?thesis by simp
    qed
  qed
qed simp

lemma log_run_exact:
  assumes "length ch + length (requests evs) \<le> log_capacity" and "log_run evs (ch, out) = (ch', out')"
  shows "out' @ ch' = out @ ch @ requests evs"
  using assms
proof (induction evs arbitrary: ch out)
  case (Cons ev evs)
  note IH = Cons.IH and prems = Cons.prems
  show ?case
  proof (cases ev)
    case (Request e)
    with Cons.prems have "log_request e ch = ch @ [e]"
      by (simp add: log_request_def chan_offer_room)
    with Request Cons.IH [of "ch @ [e]" out] Cons.prems show ?thesis by simp
  next
    case Write
    show ?thesis
    proof (cases ch)
      case Nil
      with Write IH [of "[]" out] prems show ?thesis by simp
    next
      case (Cons a r)
      with Write IH [of r "out @ [a]"] prems show ?thesis by simp
    qed
  qed
qed simp

section \<open>Properties\<close>

text \<open>
  A protected handler runs only for a user the server has issued a token to: if the middleware
  lets a request through with a user id, its header carries a bearer token that uses HMAC (no other
  algorithm), whose signature verifies with the server's secret, that is current and whose
  \<open>user_id\<close> claim is that non-empty user id; every other request gets status 401 and the
  handler's state is untouched.
\<close>

theorem jwt_guards_handler:
  assumes "jwt_documented jwt_Parse f"
  shows "(\<exists>raw u. header = ''Bearer '' @ raw \<and> jf_method f raw = Some SigningMethodHMAC \<and>
            jf_signed f raw secret \<and> jf_current f raw \<and>
            jf_claims f raw ''user_id'' = Some (ClaimString u) \<and> u \<noteq> [] \<and>
            JWT jwt_Parse secret header next s = next u s) \<or>
         (\<exists>rsp. JWT jwt_Parse secret header next s = (rsp, s) \<and> rsp_Status rsp = 401)"
proof (cases "HasPrefix header ''Bearer ''")
  case True
  then obtain raw where raw: "header = ''Bearer '' @ raw" by (auto simp: HasPrefix_iff)
  have t: "TrimPrefix header ''Bearer '' = raw"
    unfolding raw by (rule TrimPrefix_append)
  show ?thesis
  proof (cases "ParseJWT jwt_Parse raw secret")
    case (Inl e)
    with True t show ?thesis by (simp add: JWT_def)
  next
    case (Inr u)
    then have "JWT jwt_Parse secret header next s = next u s"
      using True t by (simp add: JWT_def)
    with ParseJWT_Inr [OF assms Inr] raw show ?thesis
      by (auto simp: UserIDKey_def)
  qed
qed (simp add: JWT_def)

text \<open>A parser for a toy encoding: the raw token is the key, a colon and the user id.\<close>

definition toy_facts :: jwt_facts where
  "toy_facts =
     \<lparr>jf_method = (\<lambda>raw. Some SigningMethodHMAC),
      jf_claims = (\<lambda>raw. [''user_id'' \<mapsto> ClaimString (drop 1 (dropWhile (\<lambda>c. c \<noteq> CHR '':'') raw))]),
      jf_signed = (\<lambda>raw key. key = takeWhile (\<lambda>c. c \<noteq> CHR '':'') raw),
      jf_current = (\<lambda>raw. True)\<rparr>"

definition toy_Parse :: jwt_parser where
  "toy_Parse raw kf =
     (case kf SigningMethodHMAC of
        Inl e \<Rightarrow> Inl e
      | Inr key \<Rightarrow>
          if jf_signed toy_facts raw key
          then Inr \<lparr>jwt_Valid = True, jwt_Claims = Some (jf_claims toy_facts raw)\<rparr>
          else Inl ErrSignatureInvalid)"

lemma toy_Parse_documented: "jwt_documented toy_Parse toy_facts"
  unfolding jwt_documented_def toy_Parse_def
  by (auto simp: toy_facts_def split: sum.splits if_splits)

theorem jwt_guards_handler_witness:
  "JWT toy_Parse ''key'' ''Bearer key:ann'' (\<lambda>u s. (c_Status 200, u)) [] = (c_Status 200, ''ann'')"
proof -
  have "ParseJWT toy_Parse ''key:ann'' ''key'' = Inr ''ann''"
    by (simp add: ParseJWT_def toy_Parse_def hmac_key_def toy_facts_def UserIDKey_def)
  then have "rsp_Status (fst (JWT toy_Parse ''key'' ''Bearer key:ann'' (\<lambda>u s. (c_Status 200, u)) [])) = 200"
    by (simp add: JWT_def HasPrefix_def TrimPrefix_def)
  then show ?thesis
    using jwt_guards_handler [OF toy_Parse_documented, of "''Bearer key:ann''" "''key''" "\<lambda>u s. (c_Status 200, u)" "[]"]
    by (auto simp: toy_facts_def)
qed

text \<open>
  The tokens \<open>gentoken\<close> prints are the ones the API accepts: a printed token, while it is
  current, is parsed under the same \<open>JWT_SECRET\<close> to the user id given on the command line, and
  under any other secret it is rejected.
\<close>

theorem gentoken_accepted:
  assumes "jwt_documented jwt_Parse f" and "signer_documented sign f"
    and "gentoken getenv args now sign = Printed raw" and "args ! 1 \<noteq> []" and "jf_current f raw"
  shows "ParseJWT jwt_Parse raw secret =
    (if secret = getenv ''JWT_SECRET'' then Inr (args ! 1) else Inl ErrSignatureInvalid)"
proof -
  have "sign (gentoken_claims (args ! 1) now) (getenv ''JWT_SECRET'') = Inr raw"
    using assms(3) by (auto simp: gentoken_def Let_def split: if_splits sum.splits)
  then have r: "jf_method f raw = Some SigningMethodHMAC" "jf_claims f raw = gentoken_claims (args ! 1) now"
    "\<And>key. jf_signed f raw key \<longleftrightarrow> key = getenv ''JWT_SECRET''"
    using assms(2) unfolding signer_documented_def by blast+
  show ?thesis
  proof (cases "secret = getenv ''JWT_SECRET''")
    case True
    then show ?thesis
      using ParseJWT_accepts [OF assms(1) r(1), of secret "args ! 1"] r(2,3) assms(4,5)
      by (simp add: gentoken_claims_def UserIDKey_def)
  next
    case False
    then have "\<nexists>u. ParseJWT jwt_Parse raw secret = Inr u"
      using ParseJWT_Inr(2) [OF assms(1)] r(3) by blast
    moreover have "ParseJWT jwt_Parse raw secret = Inl ErrSignatureInvalid \<or> (\<exists>u. ParseJWT jwt_Parse raw secret = Inr u)"
      by (simp add: ParseJWT_def split: sum.split option.split claim.split)
    ultimately show ?thesis using False by simp
  qed
qed

text \<open>A signer and a parser for it: the raw token is the key, a colon, the user id, a colon and the expiry.\<close>

definition toy_user :: "string \<Rightarrow> string" where
  "toy_user raw = takeWhile (\<lambda>c. c \<noteq> CHR '':'') (drop 1 (dropWhile (\<lambda>c. c \<noteq> CHR '':'') raw))"

definition toy_exp :: "string \<Rightarrow> string" where
  "toy_exp raw = drop 1 (dropWhile (\<lambda>c. c \<noteq> CHR '':'') (drop 1 (dropWhile (\<lambda>c. c \<noteq> CHR '':'') raw)))"

definition toy_signed_facts :: jwt_facts where
  "toy_signed_facts =
     \<lparr>jf_method = (\<lambda>raw. Some SigningMethodHMAC),
      jf_claims = (\<lambda>raw. [''user_id'' \<mapsto> ClaimString (toy_user raw), ''exp'' \<mapsto> ClaimOther (JNum (toy_exp raw))]),
      jf_signed = (\<lambda>raw key. key = takeWhile (\<lambda>c. c \<noteq> CHR '':'') raw),
      jf_current = (\<lambda>raw. True)\<rparr>"

definition toy_signed_Parse :: jwt_parser where
  "toy_signed_Parse raw kf =
     (case kf SigningMethodHMAC of
        Inl e \<Rightarrow> Inl e
      | Inr key \<Rightarrow>
          if jf_signed toy_signed_facts raw key
          then Inr \<lparr>jwt_Valid = True, jwt_Claims = Some (jf_claims toy_signed_facts raw)\<rparr>
          else Inl ErrSignatureInvalid)"

lemma toy_signed_documented: "jwt_documented toy_signed_Parse toy_signed_facts"
  unfolding jwt_documented_def toy_signed_Parse_def
  by (auto simp: toy_signed_facts_def split: sum.splits if_splits)

text \<open>It signs the claims the command makes, if key and user id hold no colon.\<close>

definition toy_sign :: "claims \<Rightarrow> string \<Rightarrow> go_error + string" where
  "toy_sign cs key =
     (case (cs ''user_id'', cs ''exp'') of
        (Some (ClaimString u), Some (ClaimOther (JNum x))) \<Rightarrow>
          if CHR '':'' \<in> set key \<or> CHR '':'' \<in> set u \<or>
             cs \<noteq> [''user_id'' \<mapsto> ClaimString u, ''exp'' \<mapsto> ClaimOther (JNum x)]
          then Inl (ErrText ''unsupported'')
          else Inr (key @ '':'' @ u @ '':'' @ x)
      | _ \<Rightarrow> Inl (ErrText ''unsupported''))"

lemma until_colon:
  "CHR '':'' \<notin> set k \<Longrightarrow> takeWhile (\<lambda>c. c \<noteq> CHR '':'') (k @ CHR '':'' # r) = k"
  "CHR '':'' \<notin> set k \<Longrightarrow> dropWhile (\<lambda>c. c \<noteq> CHR '':'') (k @ CHR '':'' # r) = CHR '':'' # r"
  by (induction k) auto

lemma toy_sign_documented: "signer_documented toy_sign toy_signed_facts"
  unfolding signer_documented_def
proof (intro allI impI)
  fix cs key raw
  assume "toy_sign cs key = Inr raw"
  then obtain u x where n: "CHR '':'' \<notin> set key" "CHR '':'' \<notin> set u"
    and cs: "cs = [''user_id'' \<mapsto> ClaimString u, ''exp'' \<mapsto> ClaimOther (JNum x)]"
    and raw: "raw = key @ CHR '':'' # u @ CHR '':'' # x"
    by (auto simp: toy_sign_def split: option.splits claim.splits json.splits if_splits)
  show "jf_method toy_signed_facts raw = Some SigningMethodHMAC \<and> jf_claims toy_signed_facts raw = cs \<and>
      (\<forall>key'. jf_signed toy_signed_facts raw key' = (key' = key))"
    by (simp add: toy_signed_facts_def toy_user_def toy_exp_def raw until_colon n cs)
qed

theorem gentoken_accepted_witness:
  "\<exists>raw. gentoken (\<lambda>_. ''key'') [''gentoken'', ''ann''] 7 toy_sign = Printed raw \<and>
     ParseJWT toy_signed_Parse raw ''key'' = Inr ''ann'' \<and>
     ParseJWT toy_signed_Parse raw ''yek'' = Inl ErrSignatureInvalid"
proof -
  obtain raw where g: "gentoken (\<lambda>_. ''key'') [''gentoken'', ''ann''] 7 toy_sign = Printed raw"
    by (simp add: gentoken_def gentoken_claims_def toy_sign_def)
  have "jf_current toy_signed_facts raw" by (simp add: toy_signed_facts_def)
  from gentoken_accepted [OF toy_signed_documented toy_sign_documented g _ this] g show ?thesis
    by auto
qed

text \<open>
  The access log never blocks a request and never mixes entries up: under any interleaving of
  requests and writes the entries written and still queued are a subsequence of the requests' ones
  in order, at most 8192 are queued, and if no more than 8192 requests were made nothing is dropped.
\<close>

theorem access_log_order:
  assumes "log_run evs ([], []) = (ch, out)"
  shows "length ch \<le> 8192 \<and> subseq (out @ ch) (requests evs) \<and>
         (length (requests evs) \<le> 8192 \<longrightarrow> out @ ch = requests evs)"
  using log_run_subseq [of "[]" evs "[]" ch out] log_run_exact [of "[]" evs "[]" ch out] assms
  by (simp add: log_capacity_def)

theorem access_log_order_witness:
  "\<exists>ch out. log_run [Request \<lparr>le_method = ''GET'', le_path = ''/'', le_status = 200, le_latency = 1, le_clientIP = ''::1''\<rparr>, Write] ([], []) = (ch, out) \<and>
     out @ ch = [\<lparr>le_method = ''GET'', le_path = ''/'', le_status = 200, le_latency = 1, le_clientIP = ''::1''\<rparr>]"
proof -
  let ?e = "\<lparr>le_method = ''GET'', le_path = ''/'', le_status = 200, le_latency = 1, le_clientIP = ''::1''\<rparr>"
  obtain ch out where r: "log_run [Request ?e, Write] ([], []) = (ch, out)" by fastforce
  from access_log_order [OF r] r show ?thesis by auto
qed

end
