(* ===== verification/ChatHistory.thy ===== *)
theory ChatHistory
  imports RedisStores PersistSession Middleware
begin

text \<open>
  \<open>handler/chat.go\<close> and \<open>usecase/get_history.go\<close>: the two history endpoints behind the check
  that the caller owns the session.  The first answers from the conversation cache in Redis, the
  second from PostgreSQL; both are the parameters of their gateways.
\<close>

section \<open>The handlers\<close>

definition get_history_Execute ::
  "(string \<Rightarrow> ('d, Message list) go_call) \<Rightarrow> string \<Rightarrow> GetHistoryPresenter \<Rightarrow> 'd \<Rightarrow>
   GetHistoryPresenter \<times> 'd" where
  "get_history_Execute getHistory sessionID out d =
     (case getHistory sessionID d of
        (Inl err, d') \<Rightarrow> (PresentError err out, d')
      | (Inr messages, d') \<Rightarrow> (PresentMessages messages out, d'))"

text \<open>\<open>Some\<close> response when the guard answered the request itself (the code's \<open>true\<close>).\<close>

definition guardSession :: "'d redis \<Rightarrow> string \<Rightarrow> string \<Rightarrow> 'd \<Rightarrow> Response option \<times> 'd" where
  "guardSession run userID sessionID d =
     (case GetOwner run sessionID d of
        (Inl err, d') \<Rightarrow>
          if err_is err RedisNil then (Some (c_JSON 403 (gin_error ''forbidden'')), d')
          else (Some (c_JSON 500 (gin_error ''internal error'')), d')
      | (Inr owner, d') \<Rightarrow>
          if owner \<noteq> userID then (Some (c_JSON 403 (gin_error ''forbidden'')), d')
          else (None, d'))"

definition dto_json :: "MessageDTO \<Rightarrow> json" where
  "dto_json m = JObj
     [(''role'', JStr (dto_Role m)), (''content'', JStr (dto_Content m)),
      (''request_id'', JStr (dto_RequestID m))]"

definition dtos_json :: "MessageDTO list \<Rightarrow> json" where
  "dtos_json ms = JArr (map dto_json ms)"

definition handler_GetHistory :: "'d redis \<Rightarrow> string \<Rightarrow> string \<Rightarrow> 'd \<Rightarrow> Response \<times> 'd" where
  "handler_GetHistory run userID sessionID d =
     (case guardSession run userID sessionID d of
        (Some rsp, d1) \<Rightarrow> (rsp, d1)
      | (None, d1) \<Rightarrow>
          (case get_history_Execute (cache_GetHistory run) sessionID new_GetHistoryPresenter d1 of
             (p, d2) \<Rightarrow>
               (case ghp_Err p of
                  Some err \<Rightarrow> (c_JSON 500 (gin_error (Error err)), d2)
                | None \<Rightarrow> (c_JSON 200 (dtos_json (ghp_Messages p)), d2))))"

definition handler_GetHistoryDB ::
  "'d redis \<Rightarrow> 'p gorm_db \<Rightarrow> string \<Rightarrow> string \<Rightarrow> 'd \<times> 'p \<Rightarrow> Response \<times> ('d \<times> 'p)" where
  "handler_GetHistoryDB run db userID sessionID = (\<lambda>(d, q).
     (case guardSession run userID sessionID d of
        (Some rsp, d1) \<Rightarrow> (rsp, (d1, q))
      | (None, d1) \<Rightarrow>
          (case store_GetHistory db sessionID q of
             (Inl err, q1) \<Rightarrow> (c_JSON 500 (gin_error (Error err)), (d1, q1))
           | (Inr messages, q1) \<Rightarrow>
               (c_JSON 200 (dtos_json (ghp_Messages (PresentMessages messages new_GetHistoryPresenter))),
                (d1, q1)))))"

section \<open>The guard\<close>

lemma guardSession_None:
  assumes "redis_documented run view" and "guardSession run u sid d = (None, d')"
  shows "session_owner (view d') sid = Some u"
proof -
  have "GetOwner run sid d = (Inr u, d')"
    using assms(2) by (auto simp: guardSession_def split: prod.splits sum.splits if_splits)
  then have g: "go_bind (run (RGet (owner_key sid))) reply_string d = (Inr u, d')"
    by (simp add: GetOwner_def)
  show ?thesis
    using RGet_effect(3) [OF assms(1) g] by (simp add: session_owner_def)
qed

lemma guardSession_Some:
  "guardSession run u sid d = (Some rsp, d') \<Longrightarrow> rsp_Status rsp = 403 \<or> rsp_Status rsp = 500"
  by (auto simp: guardSession_def split: prod.splits sum.splits if_splits)

text \<open>With a server that answers, the guard decides by the owner alone.\<close>

lemma GetOwner_ref:
  "lookup v (owner_key sid) = None \<Longrightarrow> GetOwner ref_redis sid v = (Inl RedisNil, v)"
  "lookup v (owner_key sid) = Some (VString w, dl) \<Longrightarrow> GetOwner ref_redis sid v = (Inr w, v)"
  by (simp_all add: GetOwner_def go_bind_def ref_redis_def go_return_def go_fail_def)

lemma db_history_cases:
  assumes "redis_documented run view" and "pg_documented db pview"
    and "handler_GetHistoryDB run db u sid (d, q) = (rsp, (d', q'))"
  shows "(session_owner (view d') sid = Some u \<and> pview q' = pview q \<and>
      rsp = c_JSON 200 (dtos_json (map message_dto
        (filter (\<lambda>m. msg_SessionID m = sid) (pv_messages (pview q)))))) \<or>
    (session_owner (view d') sid = Some u \<and> rsp_Status rsp = 500) \<or>
    (q' = q \<and> (rsp_Status rsp = 403 \<or> rsp_Status rsp = 500))"
proof (cases "guardSession run u sid d")
  case (Pair r d1)
  show ?thesis
  proof (cases r)
    case None
    obtain x q1 where h: "store_GetHistory db sid q = (x, q1)" by (cases "store_GetHistory db sid q")
    have "d1 = d'" using assms(3) Pair None h by (simp add: handler_GetHistoryDB_def split: sum.splits)
    with None Pair have own: "session_owner (view d') sid = Some u"
      using guardSession_None [OF assms(1)] by simp
    show ?thesis
    proof (cases x)
      case (Inl e)
      with own assms(3) Pair None h show ?thesis by (simp add: handler_GetHistoryDB_def) auto
    next
      case (Inr ms)
      with GetHistory_ok [OF assms(2), of sid q ms q1] own assms(3) Pair None h show ?thesis
        by (simp add: handler_GetHistoryDB_def PresentMessages_def)
    qed
  next
    case (Some rsp')
    with assms(3) Pair have "rsp' = rsp" and "q' = q" by (simp_all add: handler_GetHistoryDB_def)
    with guardSession_Some [of run u sid d rsp' d1] Pair Some show ?thesis by auto
  qed
qed

section \<open>Properties\<close>

text \<open>
  Only its owner reads a session's cached history: a 200 response of \<open>GET /history\<close> is given only
  when Redis named the caller as the session's owner, and then carries, message for message, what the
  cache returned for that session; every other outcome is a 403 or a 500, and where the owner is
  somebody else the answer is 403 without the cache being read.
\<close>

theorem history_requires_owner:
  assumes "redis_documented run view" and "handler_GetHistory run u sid d = (rsp, d')"
  shows "(\<exists>d1 ms. session_owner (view d1) sid = Some u \<and> cache_GetHistory run sid d1 = (Inr ms, d') \<and>
      rsp = c_JSON 200 (dtos_json (map message_dto ms))) \<or>
    (\<exists>w. GetOwner run sid d = (Inr w, d') \<and> w \<noteq> u \<and> rsp_Status rsp = 403) \<or>
    (\<exists>e d1. GetOwner run sid d = (Inl e, d1) \<and> (rsp_Status rsp = 403 \<or> rsp_Status rsp = 500)) \<or>
    rsp_Status rsp = 500"
proof (cases "guardSession run u sid d")
  case (Pair r d1)
  show ?thesis
  proof (cases r)
    case None
    with Pair have own: "session_owner (view d1) sid = Some u"
      using guardSession_None [OF assms(1)] by simp
    obtain q d2 where c: "cache_GetHistory run sid d1 = (q, d2)" by (cases "cache_GetHistory run sid d1")
    show ?thesis
    proof (cases q)
      case (Inl e)
      with assms(2) Pair None c show ?thesis
        by (simp add: handler_GetHistory_def get_history_Execute_def PresentError_def) auto
    next
      case (Inr ms)
      with assms(2) Pair None c have "rsp = c_JSON 200 (dtos_json (map message_dto ms))" and "d2 = d'"
        by (simp_all add: handler_GetHistory_def get_history_Execute_def PresentMessages_def
            new_GetHistoryPresenter_def)
      with own c Inr show ?thesis by blast
    qed
  next
    case (Some rsp')
    with assms(2) Pair have "rsp' = rsp" and "d1 = d'" by (simp_all add: handler_GetHistory_def)
    with Pair Some show ?thesis
      by (auto simp: guardSession_def split: prod.splits sum.splits if_splits)
  qed
qed

theorem history_requires_owner_witness:
  "\<exists>rsp. handler_GetHistory ref_redis ''bob'' ''s'' (set_key (owner_key ''s'') (VString ''ann'') None empty_redis)
      = (rsp, set_key (owner_key ''s'') (VString ''ann'') None empty_redis) \<and> rsp_Status rsp = 403"
proof -
  let ?v = "set_key (owner_key ''s'') (VString ''ann'') None empty_redis"
  have own: "GetOwner ref_redis ''s'' ?v = (Inr ''ann'', ?v)"
    by (rule GetOwner_ref) (simp add: lookup_set_key alive_def)
  obtain rsp where h: "handler_GetHistory ref_redis ''bob'' ''s'' ?v = (rsp, ?v)" and "rsp_Status rsp \<noteq> 200"
    using own by (simp add: handler_GetHistory_def guardSession_def)
  have "rsp_Status rsp \<noteq> 500"
    using h own by (auto simp: handler_GetHistory_def guardSession_def)
  with history_requires_owner [OF ref_redis_documented h] \<open>rsp_Status rsp \<noteq> 200\<close> own h show ?thesis
    by auto
qed

text \<open>
  The database endpoint returns the session's messages, all of them, in the table's order, to the
  session's owner only: a 200 response carries exactly the stored messages of the session and leaves
  the tables alone; a caller the guard rejects gets 403 or 500 and the database is not asked.
\<close>

theorem history_db_exact:
  assumes "redis_documented run view" and "pg_documented db pview"
    and "handler_GetHistoryDB run db u sid (d, q) = (rsp, (d', q'))"
  shows "(session_owner (view d') sid = Some u \<and> pview q' = pview q \<and>
      rsp = c_JSON 200 (dtos_json (map message_dto
        (filter (\<lambda>m. msg_SessionID m = sid) (pv_messages (pview q)))))) \<or>
    (session_owner (view d') sid = Some u \<and> rsp_Status rsp = 500) \<or>
    (q' = q \<and> (rsp_Status rsp = 403 \<or> rsp_Status rsp = 500))"
  using assms by (rule db_history_cases)

theorem history_db_exact_witness:
  "\<exists>rsp d q. handler_GetHistoryDB ref_redis ref_db ''ann'' ''s1''
      (set_key (owner_key ''s1'') (VString ''ann'') None empty_redis,
       empty_pg\<lparr>pv_messages := [demo_msg ''r1'' RoleUser ''hi'']\<rparr>) = (rsp, (d, q)) \<and>
    rsp = c_JSON 200 (dtos_json [message_dto (demo_msg ''r1'' RoleUser ''hi'')])"
proof -
  let ?v = "set_key (owner_key ''s1'') (VString ''ann'') None empty_redis"
    and ?q = "empty_pg\<lparr>pv_messages := [demo_msg ''r1'' RoleUser ''hi'']\<rparr>"
  have own: "guardSession ref_redis ''ann'' ''s1'' ?v = (None, ?v)"
    by (simp add: guardSession_def GetOwner_ref lookup_set_key alive_def)
  have rows: "ref_view ?q = ?q" by (rule ref_view_id) (simp_all add: demo_texts)
  obtain ms q' where "store_GetHistory ref_db ''s1'' ?q = (Inr ms, q')"
    using GetHistory_avail [OF ref_db_available, of "''s1''" ?q] by (auto simp: demo_texts)
  then obtain rsp d q where h: "handler_GetHistoryDB ref_redis ref_db ''ann'' ''s1'' (?v, ?q) = (rsp, (d, q))"
    and "rsp_Status rsp = 200"
    by (simp add: handler_GetHistoryDB_def own)
  then have "rsp = c_JSON 200 (dtos_json (map message_dto
      (filter (\<lambda>m. msg_SessionID m = ''s1'') (pv_messages (ref_view ?q)))))"
    using history_db_exact [OF ref_redis_documented ref_db_documented h] by auto
  then have "rsp = c_JSON 200 (dtos_json [message_dto (demo_msg ''r1'' RoleUser ''hi'')])"
    unfolding rows by (simp add: demo_msg_def)
  with h show ?thesis by blast
qed

end
