(* ===== verification/TokenHub.thy ===== *)
theory TokenHub
  imports Entities
begin

text \<open>
  \<open>internal/adapter/gateway/hub/token_hub.go\<close>: the registry that hands the tokens arriving
  over gRPC to the HTTP handler that waits for them.  A channel is a reference: the handler keeps
  it after the entry of the \<open>sync.Map\<close> is gone, and a second registration of the same
  request id installs another one.  So the state holds the map from request ids to channel
  references and, apart from it, the buffer of every channel made so far.

  The locale \<open>token_hub\<close> is the contract of the interface \<open>ITokenHub\<close>; the
  HTTP handler and the gRPC server are proved against it.
\<close>

section \<open>The contract of ITokenHub\<close>

text \<open>
  \<open>hchan\<close> is the channel registered for a request id, \<open>hbuf\<close> the tokens waiting in
  a channel, \<open>hcap\<close> a channel's capacity.
\<close>

locale token_hub =
  fixes hreg :: "string \<Rightarrow> 'h \<Rightarrow> 'c \<times> 'h"
    and hclean :: "string \<Rightarrow> 'h \<Rightarrow> 'h"
    and hdeliver :: "string \<Rightarrow> PubSubToken \<Rightarrow> 'h \<Rightarrow> 'h"
    and hrecv :: "'c \<Rightarrow> 'h \<Rightarrow> (PubSubToken \<times> 'h) option"
    and hchan :: "'h \<Rightarrow> string \<Rightarrow> 'c option"
    and hbuf :: "'h \<Rightarrow> 'c \<Rightarrow> PubSubToken list"
    and hinv :: "'h \<Rightarrow> bool"
    and hcap :: nat
  assumes reg_chan: "hreg r h = (c, h') \<Longrightarrow> hchan h' = (hchan h)(r \<mapsto> c)"
    and reg_buf: "hinv h \<Longrightarrow> hreg r h = (c, h') \<Longrightarrow> hbuf h' = (hbuf h)(c := [])"
    and reg_fresh: "hinv h \<Longrightarrow> hreg r h = (c, h') \<Longrightarrow> c \<notin> ran (hchan h)"
    and clean_chan: "hchan (hclean r h) = (hchan h)(r := None)"
    and clean_buf: "hbuf (hclean r h) = hbuf h"
    and deliver_chan: "hchan (hdeliver r t h) = hchan h"
    and deliver_none: "hchan h r = None \<Longrightarrow> hbuf (hdeliver r t h) = hbuf h"
    and deliver_some: "hchan h r = Some c \<Longrightarrow>
          hbuf (hdeliver r t h) = (hbuf h)(c := chan_offer hcap t (hbuf h c))"
    and recv_nil: "hbuf h c = [] \<Longrightarrow> hrecv c h = None"
    and recv_cons: "hbuf h c = t # ts \<Longrightarrow>
          \<exists>h'. hrecv c h = Some (t, h') \<and> hbuf h' = (hbuf h)(c := ts) \<and> hchan h' = hchan h
               \<and> (hinv h \<longrightarrow> hinv h')"
    and inv_inj: "hinv h \<Longrightarrow> hchan h r = Some c \<Longrightarrow> hchan h r' = Some c \<Longrightarrow> r = r'"
    and inv_cap: "hinv h \<Longrightarrow> length (hbuf h c) \<le> hcap"
    and inv_reg: "hinv h \<Longrightarrow> hreg r h = (c, h') \<Longrightarrow> hinv h'"
    and inv_clean: "hinv h \<Longrightarrow> hinv (hclean r h)"
    and inv_deliver: "hinv h \<Longrightarrow> hinv (hdeliver r t h)"
begin

lemma deliver_other:
  assumes "hinv h" and "hchan h r = Some c" and "r' \<noteq> r"
  shows "hbuf (hdeliver r' t h) c = hbuf h c"
proof (cases "hchan h r'")
  case None
  then show ?thesis by (simp add: deliver_none)
next
  case (Some c')
  with assms have "c' \<noteq> c" by (auto dest: inv_inj)
  with Some show ?thesis by (simp add: deliver_some)
qed

lemma deliver_room:
  assumes "hchan h r = Some c" and "length (hbuf h c) < hcap"
  shows "hbuf (hdeliver r t h) c = hbuf h c @ [t]"
  using assms by (simp add: deliver_some chan_offer_room)

text \<open>A run of deliveries to one request within the channel's capacity keeps all, in order.\<close>

lemma deliver_all:
  assumes "hchan h r = Some c" and "length (hbuf h c) + length ts \<le> hcap"
  shows "hbuf (fold (hdeliver r) ts h) c = hbuf h c @ ts \<and> hchan (fold (hdeliver r) ts h) = hchan h"
  using assms
proof (induction ts arbitrary: h)
  case Nil
  then show ?case by simp
next
  case (Cons t ts)
  then have "hbuf (hdeliver r t h) c = hbuf h c @ [t]"
    by (intro deliver_room) auto
  then show ?case
    using Cons.IH [of "hdeliver r t h"] Cons.prems by (simp add: deliver_chan)
qed

end

section \<open>The model of TokenHub\<close>

type_synonym chan_ref = nat

record TokenHub =
  hub_pending :: "string \<rightharpoonup> chan_ref"
  hub_chans :: "chan_ref \<Rightarrow> PubSubToken list"
  hub_next :: chan_ref

definition hub_capacity :: nat where
  "hub_capacity = 1000"

definition hub_New :: TokenHub where
  "hub_New = \<lparr>hub_pending = Map.empty, hub_chans = (\<lambda>_. []), hub_next = 0\<rparr>"

text \<open>
  \<open>Register\<close> makes a channel, stores it and returns it; the cleanup function it returns
  closes over the request id only and is \<open>hub_cleanup\<close>.
\<close>

definition hub_Register :: "string \<Rightarrow> TokenHub \<Rightarrow> chan_ref \<times> TokenHub" where
  "hub_Register requestID h =
     (let ch = hub_next h in
      (ch, h\<lparr>hub_pending := (hub_pending h)(requestID \<mapsto> ch),
             hub_chans := (hub_chans h)(ch := []),
             hub_next := Suc ch\<rparr>))"

definition hub_cleanup :: "string \<Rightarrow> TokenHub \<Rightarrow> TokenHub" where
  "hub_cleanup requestID h = h\<lparr>hub_pending := (hub_pending h)(requestID := None)\<rparr>"

definition hub_Deliver :: "string \<Rightarrow> PubSubToken \<Rightarrow> TokenHub \<Rightarrow> TokenHub" where
  "hub_Deliver requestID token h =
     (case hub_pending h requestID of
        None \<Rightarrow> h
      | Some ch \<Rightarrow> h\<lparr>hub_chans := (hub_chans h)(ch := chan_offer hub_capacity token (hub_chans h ch))\<rparr>)"

text \<open>The handler's receive on the channel; \<open>None\<close> when it would block.\<close>

definition hub_recv :: "chan_ref \<Rightarrow> TokenHub \<Rightarrow> (PubSubToken \<times> TokenHub) option" where
  "hub_recv ch h =
     (case hub_chans h ch of
        [] \<Rightarrow> None
      | t # ts \<Rightarrow> Some (t, h\<lparr>hub_chans := (hub_chans h)(ch := ts)\<rparr>))"

definition hub_inv :: "TokenHub \<Rightarrow> bool" where
  "hub_inv h \<longleftrightarrow>
     (\<forall>r c. hub_pending h r = Some c \<longrightarrow> c < hub_next h) \<and>
     (\<forall>r r' c. hub_pending h r = Some c \<longrightarrow> hub_pending h r' = Some c \<longrightarrow> r = r') \<and>
     (\<forall>c. length (hub_chans h c) \<le> hub_capacity)"

lemmas hub_op_defs = hub_Register_def hub_cleanup_def hub_Deliver_def hub_recv_def

lemma hub_inv_New [simp]: "hub_inv hub_New"
  by (simp add: hub_inv_def hub_New_def)

lemma hub_inv_Register: "hub_inv h \<Longrightarrow> hub_Register r h = (c, h') \<Longrightarrow> hub_inv h'"
  by (fastforce simp: hub_inv_def hub_Register_def Let_def split: if_splits)

lemma hub_inv_snd_Register: "hub_inv h \<Longrightarrow> hub_inv (snd (hub_Register r h))"
  by (rule hub_inv_Register [OF _ surjective_pairing])

lemma hub_inv_cleanup: "hub_inv h \<Longrightarrow> hub_inv (hub_cleanup r h)"
  by (auto simp: hub_inv_def hub_cleanup_def)

lemma hub_inv_Deliver: "hub_inv h \<Longrightarrow> hub_inv (hub_Deliver r t h)"
  by (auto simp: hub_inv_def hub_Deliver_def length_chan_offer split: option.split)

lemma hub_inv_recv: "hub_inv h \<Longrightarrow> hub_recv c h = Some (t, h') \<Longrightarrow> hub_inv h'"
  by (fastforce simp: hub_inv_def hub_recv_def split: list.splits if_splits dest: spec [where x = c])

interpretation hub: token_hub hub_Register hub_cleanup hub_Deliver hub_recv
    hub_pending hub_chans hub_inv hub_capacity
proof (unfold_locales, goal_cases)
  case (3 h r c h')
  then show ?case by (force simp: hub_inv_def hub_Register_def Let_def ran_def)
next
  case (10 h c t ts)
  then show ?case
    using hub_inv_recv [of h c t] by (auto simp: hub_recv_def)
next
  case (13 h r c h')
  then show ?case by (rule hub_inv_Register)
qed (auto simp: hub_op_defs Let_def hub_inv_def length_chan_offer split: option.splits)

section \<open>Interleavings\<close>

text \<open>
  The hub is called from every handler and every gRPC stream at once; each of its operations is
  atomic.  A schedule is a list of operations; running it logs each receive with its channel.  A
  receive on an empty channel blocks and is no step.
\<close>

datatype hub_op =
    OpRegister string
  | OpCleanup string
  | OpDeliver string PubSubToken
  | OpRecv chan_ref

fun hub_step :: "hub_op \<Rightarrow> TokenHub \<Rightarrow> (chan_ref \<times> PubSubToken) list \<times> TokenHub" where
  "hub_step (OpRegister r) h = ([], snd (hub_Register r h))"
| "hub_step (OpCleanup r) h = ([], hub_cleanup r h)"
| "hub_step (OpDeliver r t) h = ([], hub_Deliver r t h)"
| "hub_step (OpRecv c) h =
     (case hub_recv c h of None \<Rightarrow> ([], h) | Some (t, h') \<Rightarrow> ([(c, t)], h'))"

fun hub_run :: "hub_op list \<Rightarrow> TokenHub \<Rightarrow> (chan_ref \<times> PubSubToken) list \<times> TokenHub" where
  "hub_run [] h = ([], h)"
| "hub_run (op # ops) h =
     (let (l, h') = hub_step op h; (l', h'') = hub_run ops h' in (l @ l', h''))"

text \<open>What a schedule delivers to a request, and what a log says a channel's reader got.\<close>

fun delivered :: "string \<Rightarrow> hub_op list \<Rightarrow> PubSubToken list" where
  "delivered r [] = []"
| "delivered r (OpDeliver r' t # ops) = (if r' = r then t # delivered r ops else delivered r ops)"
| "delivered r (_ # ops) = delivered r ops"

definition received :: "chan_ref \<Rightarrow> (chan_ref \<times> PubSubToken) list \<Rightarrow> PubSubToken list" where
  "received c l = map snd (filter (\<lambda>(c', _). c' = c) l)"

lemma received_simps [simp]:
  "received c [] = []"
  "received c ((c', t) # l) = (if c' = c then t # received c l else received c l)"
  "received c (l @ l') = received c l @ received c l'"
  by (simp_all add: received_def)

lemma hub_inv_step: "hub_inv h \<Longrightarrow> hub_inv (snd (hub_step op h))"
  by (cases op) (auto intro: hub_inv_cleanup hub_inv_Deliver hub_inv_recv
      hub_inv_snd_Register split: option.split)

lemma hub_inv_run: "hub_inv h \<Longrightarrow> hub_inv (snd (hub_run ops h))"
proof (induction ops arbitrary: h)
  case (Cons op ops)
  then have "hub_inv (snd (hub_step op h))"
    by (blast intro: hub_inv_step)
  from Cons.IH [OF this] show ?case
    by (simp add: case_prod_beta Let_def)
qed simp

text \<open>
  One step, seen from a registered channel: what it received followed by what is left in the buffer
  is the old buffer with the step's delivery offered to it.
\<close>

lemma hub_step_channel:
  assumes "hub_inv h" and "hub_pending h r = Some c"
    and "op \<noteq> OpRegister r" and "op \<noteq> OpCleanup r"
    and "hub_step op h = (l, h')"
  shows "hub_pending h' r = Some c"
    and "received c l @ hub_chans h' c =
           (case delivered r [op] of [] \<Rightarrow> hub_chans h c
            | t # _ \<Rightarrow> chan_offer hub_capacity t (hub_chans h c))"
proof -
  show "hub_pending h' r = Some c"
    using assms by (cases op) (auto simp: hub_op_defs Let_def split: option.splits list.splits)
  show "received c l @ hub_chans h' c =
           (case delivered r [op] of [] \<Rightarrow> hub_chans h c
            | t # _ \<Rightarrow> chan_offer hub_capacity t (hub_chans h c))"
  proof (cases op)
    case (OpRegister r')
    moreover have "c < hub_next h" using assms(1,2) by (auto simp: hub_inv_def)
    ultimately show ?thesis using assms by (auto simp: hub_Register_def Let_def)
  next
    case (OpCleanup r')
    with assms show ?thesis by (auto simp: hub_cleanup_def)
  next
    case (OpDeliver r' t)
    with assms show ?thesis
      using hub.deliver_other [of h r c r' t] by (auto simp: hub.deliver_some)
  next
    case (OpRecv c')
    with assms show ?thesis by (auto simp: hub_recv_def split: list.splits)
  qed
qed

lemma delivered_Cons: "delivered r (op # ops) = delivered r [op] @ delivered r ops"
  by (cases op) auto

lemma length_delivered_single: "length (delivered r [op]) \<le> 1"
  by (cases op) auto

lemma hub_run_exact:
  assumes "hub_inv h" and "hub_pending h r = Some c"
    and "OpRegister r \<notin> set ops" and "OpCleanup r \<notin> set ops"
    and "length (hub_chans h c) + length (delivered r ops) \<le> hub_capacity"
    and "hub_run ops h = (l, h')"
  shows "received c l @ hub_chans h' c = hub_chans h c @ delivered r ops"
  using assms
proof (induction ops arbitrary: h l)
  case Nil
  then show ?case by simp
next
  case (Cons op ops)
  obtain l1 h1 l2 where s: "hub_step op h = (l1, h1)" and run: "hub_run ops h1 = (l2, h')"
    and l: "l = l1 @ l2"
    using Cons.prems(6) by (auto simp: Let_def split: prod.splits)
  have nop: "op \<noteq> OpRegister r" "op \<noteq> OpCleanup r"
    using Cons.prems(3,4) by auto
  have p1: "hub_pending h1 r = Some c"
    by (rule hub_step_channel(1) [OF Cons.prems(1,2) nop s])
  have b1: "received c l1 @ hub_chans h1 c = hub_chans h c @ delivered r [op]"
    using hub_step_channel(2) [OF Cons.prems(1,2) nop s] Cons.prems(5)
    by (cases op) (auto simp: chan_offer_room split: if_splits)
  then have "length (received c l1) + length (hub_chans h1 c) = length (hub_chans h c) + length (delivered r [op])"
    by (metis length_append)
  with Cons.prems(5) have room: "length (hub_chans h1 c) + length (delivered r ops) \<le> hub_capacity"
    by (subst (asm) delivered_Cons) simp
  have inv1: "hub_inv h1"
    using hub_inv_step [OF Cons.prems(1), of op] s by simp
  have "received c l2 @ hub_chans h' c = hub_chans h1 c @ delivered r ops"
    using Cons.IH [OF inv1 p1 _ _ room run] Cons.prems(3,4) by simp
  then have "received c l @ hub_chans h' c = (received c l1 @ hub_chans h1 c) @ delivered r ops"
    by (simp add: l)
  also have "\<dots> = hub_chans h c @ delivered r (op # ops)"
    by (simp only: b1 append.assoc delivered_Cons [of r op ops])
  finally show ?case .
qed

lemma hub_run_subseq:
  assumes "hub_inv h" and "hub_pending h r = Some c"
    and "OpRegister r \<notin> set ops" and "OpCleanup r \<notin> set ops"
    and "hub_run ops h = (l, h')"
  shows "subseq (received c l @ hub_chans h' c) (hub_chans h c @ delivered r ops)"
  using assms
proof (induction ops arbitrary: h l)
  case Nil
  then show ?case by simp
next
  case (Cons op ops)
  obtain l1 h1 l2 where s: "hub_step op h = (l1, h1)" and run: "hub_run ops h1 = (l2, h')"
    and l: "l = l1 @ l2"
    using Cons.prems(5) by (auto simp: Let_def split: prod.splits)
  have nop: "op \<noteq> OpRegister r" "op \<noteq> OpCleanup r"
    using Cons.prems(3,4) by auto
  have p1: "hub_pending h1 r = Some c"
    by (rule hub_step_channel(1) [OF Cons.prems(1,2) nop s])
  have b1: "subseq (received c l1 @ hub_chans h1 c) (hub_chans h c @ delivered r [op])"
    using hub_step_channel(2) [OF Cons.prems(1,2) nop s] subseq_chan_offer [OF subseq_order.refl]
    by (cases op) (auto split: if_splits)
  have inv1: "hub_inv h1"
    using hub_inv_step [OF Cons.prems(1), of op] s by simp
  have "subseq (received c l2 @ hub_chans h' c) (hub_chans h1 c @ delivered r ops)"
    using Cons.IH [OF inv1 p1 _ _ run] Cons.prems(3,4) by simp
  then have "subseq (received c l1 @ received c l2 @ hub_chans h' c)
               (received c l1 @ hub_chans h1 c @ delivered r ops)"
    by (rule list_emb_append_mono [OF subseq_order.refl])
  also have "subseq \<dots> ((hub_chans h c @ delivered r [op]) @ delivered r ops)"
    using list_emb_append_mono [OF b1, of "delivered r ops" "delivered r ops"] by simp
  finally show ?case
    by (subst delivered_Cons) (simp add: l)
qed

lemma hub_run_detached:
  assumes "hub_inv h" and "c < hub_next h" and "c \<notin> ran (hub_pending h)"
    and "hub_run ops h = (l, h')"
  shows "received c l @ hub_chans h' c = hub_chans h c"
  using assms
proof (induction ops arbitrary: h l)
  case Nil
  then show ?case by simp
next
  case (Cons op ops)
  obtain l1 h1 l2 where s: "hub_step op h = (l1, h1)" and run: "hub_run ops h1 = (l2, h')"
    and l: "l = l1 @ l2"
    using Cons.prems(4) by (auto simp: Let_def split: prod.splits)
  have inv1: "hub_inv h1"
    using hub_inv_step [OF Cons.prems(1), of op] s by simp
  have "c < hub_next h1 \<and> c \<notin> ran (hub_pending h1) \<and> received c l1 @ hub_chans h1 c = hub_chans h c"
    using s Cons.prems(2,3)
    by (cases op) (auto simp: hub_op_defs Let_def ran_def split: option.splits list.splits if_splits)
  with Cons.IH [OF inv1 _ _ run] show ?case
    by (simp add: l) 
qed

section \<open>Properties\<close>

text \<open>
  (C6) A handler that registers a request gets exactly the tokens delivered to that request, in the
  order of delivery and each once, however the schedule interleaves it with other handlers and
  streams: what it has received, followed by what waits in its channel, is the list of deliveries,
  as long as no more than the channel's 1000 are made and nobody registers or cleans up the same
  request id meanwhile.
\<close>

theorem hub_stream_exact:
  assumes "hub_inv h" and "hub_Register r h = (c, h0)"
    and "OpRegister r \<notin> set ops" and "OpCleanup r \<notin> set ops"
    and "length (delivered r ops) \<le> hub_capacity"
    and "hub_run ops h0 = (l, h')"
  shows "received c l @ hub_chans h' c = delivered r ops"
proof -
  have "hub_inv h0"
    by (rule hub_inv_Register [OF assms(1,2)])
  moreover have "hub_pending h0 r = Some c" and "hub_chans h0 c = []"
    using assms(2) hub.reg_buf [OF assms(1,2)] by (auto simp: hub.reg_chan)
  ultimately show ?thesis
    using hub_run_exact [of h0 r c ops l h'] assms by simp
qed

definition demo_token :: "string \<Rightarrow> bool \<Rightarrow> PubSubToken" where
  "demo_token d b = \<lparr>pt_RequestID = ''r1'', pt_Delta = d, pt_Done = b\<rparr>"

theorem hub_stream_exact_witness:
  "\<exists>l h'. hub_run [OpDeliver ''r1'' (demo_token ''a'' False), OpRegister ''r2'', OpRecv 0,
                OpDeliver ''r2'' (demo_token ''x'' False), OpDeliver ''r1'' (demo_token [] True)]
             (snd (hub_Register ''r1'' hub_New)) = (l, h') \<and>
         received 0 l @ hub_chans h' 0 = [demo_token ''a'' False, demo_token [] True]"
proof -
  let ?ops = "[OpDeliver ''r1'' (demo_token ''a'' False), OpRegister ''r2'', OpRecv 0,
               OpDeliver ''r2'' (demo_token ''x'' False), OpDeliver ''r1'' (demo_token [] True)]"
  obtain l h' where run: "hub_run ?ops (snd (hub_Register ''r1'' hub_New)) = (l, h')"
    by (cases "hub_run ?ops (snd (hub_Register ''r1'' hub_New))") auto
  have "received 0 l @ hub_chans h' 0 = delivered ''r1'' ?ops"
    by (rule hub_stream_exact [OF hub_inv_New _ _ _ _ run])
      (simp_all add: hub_Register_def hub_New_def hub_capacity_def)
  with run show ?thesis by auto
qed

text \<open>
  Under any load the hub never reorders, duplicates or invents a token: what a registered
  channel's reader got and still has waiting is a subsequence of what was delivered to its request,
  and the channel never holds more than 1000 tokens (the rest is dropped, the sender not blocked).
\<close>

theorem hub_stream_bounded:
  assumes "hub_inv h" and "hub_Register r h = (c, h0)"
    and "OpRegister r \<notin> set ops" and "OpCleanup r \<notin> set ops"
    and "hub_run ops h0 = (l, h')"
  shows "subseq (received c l @ hub_chans h' c) (delivered r ops) \<and> length (hub_chans h' c) \<le> 1000"
proof
  have inv0: "hub_inv h0"
    by (rule hub_inv_Register [OF assms(1,2)])
  moreover have "hub_pending h0 r = Some c" and "hub_chans h0 c = []"
    using assms(2) hub.reg_buf [OF assms(1,2)] by (auto simp: hub.reg_chan)
  ultimately show "subseq (received c l @ hub_chans h' c) (delivered r ops)"
    using hub_run_subseq [of h0 r c ops l h'] assms by simp
  have "hub_inv h'"
    using hub_inv_run [OF inv0, of ops] assms(5) by simp
  from hub.inv_cap [OF this] show "length (hub_chans h' c) \<le> 1000"
    by (simp add: hub_capacity_def)
qed

theorem hub_stream_bounded_witness:
  "\<exists>l h'. hub_run [OpRecv 0, OpDeliver ''r1'' (demo_token ''a'' True), OpRecv 0]
             (snd (hub_Register ''r1'' hub_New)) = (l, h') \<and>
         subseq (received 0 l @ hub_chans h' 0) [demo_token ''a'' True]"
proof -
  let ?ops = "[OpRecv 0, OpDeliver ''r1'' (demo_token ''a'' True), OpRecv 0]"
  obtain l h' where run: "hub_run ?ops (snd (hub_Register ''r1'' hub_New)) = (l, h')"
    by (cases "hub_run ?ops (snd (hub_Register ''r1'' hub_New))") auto
  have "subseq (received 0 l @ hub_chans h' 0) (delivered ''r1'' ?ops) \<and> length (hub_chans h' 0) \<le> 1000"
    by (rule hub_stream_bounded [OF hub_inv_New _ _ _ run])
      (simp_all add: hub_Register_def hub_New_def)
  with run show ?thesis by auto
qed

text \<open>
  The deferred cleanup of the handler detaches its channel for good: after it, no later
  delivery, to any request and in any interleaving, reaches the channel, and its number is not
  given to another request.
\<close>

theorem hub_cleanup_detaches:
  assumes "hub_inv h" and "hub_pending h r = Some c" and "hub_run ops (hub_cleanup r h) = (l, h')"
  shows "received c l @ hub_chans h' c = hub_chans h c"
proof -
  have "c < hub_next h" and "c \<notin> ran ((hub_pending h)(r := None))"
    using assms(1,2) by (auto simp: hub_inv_def ran_def)
  then show ?thesis
    using hub_run_detached [OF hub_inv_cleanup [OF assms(1)] _ _ assms(3), of c]
    by (simp add: hub_cleanup_def)
qed

theorem hub_cleanup_detaches_witness:
  "\<exists>l h'. hub_run [OpDeliver ''r1'' (demo_token ''late'' True), OpRegister ''r1'',
                OpDeliver ''r1'' (demo_token ''b'' True)]
             (hub_cleanup ''r1'' (snd (hub_Register ''r1'' hub_New))) = (l, h') \<and>
         received 0 l @ hub_chans h' 0 = []"
proof -
  let ?h = "snd (hub_Register ''r1'' hub_New)"
  let ?ops = "[OpDeliver ''r1'' (demo_token ''late'' True), OpRegister ''r1'',
               OpDeliver ''r1'' (demo_token ''b'' True)]"
  obtain l h' where run: "hub_run ?ops (hub_cleanup ''r1'' ?h) = (l, h')"
    by (cases "hub_run ?ops (hub_cleanup ''r1'' ?h)") auto
  have "received 0 l @ hub_chans h' 0 = hub_chans ?h 0"
    by (rule hub_cleanup_detaches [OF hub_inv_snd_Register [OF hub_inv_New] _ run])
      (simp add: hub_Register_def hub_New_def)
  with run show ?thesis by (auto simp: hub_Register_def hub_New_def)
qed

end
