(* ===== verification/TokenGenerator.thy ===== *)
theory TokenGenerator
  imports Wire
begin

text \<open>
  \<open>internal/framework/llm/mock.go\<close> and the choice of the generator in \<open>cmd/worker/main.go\<close>.
  A generator's channel is modelled by what it carries: the list of tokens until it is closed.  The
  response is chosen at random, so its index is a parameter; \<open>strings.Fields\<close> is translated with
  the white space of \<open>unicode.IsSpace\<close>, over bytes.
\<close>

section \<open>White space\<close>

definition space_runes :: "string list" where
  "space_runes = map encode_rune
     ([9, 10, 11, 12, 13, 32, 133, 160, 5760] @ [8192..<8203] @ [8232, 8233, 8239, 8287, 12288])"

text \<open>The first rune of a string: its bytes; one byte where the encoding is invalid.\<close>

definition head_rune :: "string \<Rightarrow> string" where
  "head_rune s = take (max 1 (rune_len s)) s"

definition tail_runes :: "string \<Rightarrow> string" where
  "tail_runes s = drop (max 1 (rune_len s)) s"

text \<open>\<open>strings.Fields\<close>: \<open>cur\<close> is the field being read.\<close>

function fields_from :: "string \<Rightarrow> string \<Rightarrow> string list" where
  "fields_from cur s =
     (if s = [] then (if cur = [] then [] else [cur])
      else if head_rune s \<in> set space_runes
      then (if cur = [] then [] else [cur]) @ fields_from [] (tail_runes s)
      else fields_from (cur @ head_rune s) (tail_runes s))"
  by pat_completeness auto
termination
  by (relation "measure (\<lambda>(cur, s). length s)") (auto simp: tail_runes_def)

declare fields_from.simps [simp del]

definition Fields :: "string \<Rightarrow> string list" where
  "Fields s = fields_from [] s"

section \<open>The mock generator\<close>

definition responses :: "string list" where
  "responses =
     [''Xin ch'' @ [CHR 0xC3, CHR 0xA0] @ ''o! T'' @ [CHR 0xC3, CHR 0xB4] @ ''i l'' @
         [CHR 0xC3, CHR 0xA0] @ '' m'' @ [CHR 0xE1, CHR 0xBB, CHR 0x99] @ ''t AI tr'' @
         [CHR 0xE1, CHR 0xBB, CHR 0xA3] @ '' l'' @ [CHR 0xC3, CHR 0xBD] @ ''. T'' @
         [CHR 0xC3, CHR 0xB4] @ ''i c'' @ [CHR 0xC3, CHR 0xB3] @ '' th'' @
         [CHR 0xE1, CHR 0xBB, CHR 0x83] @ '' gi'' @ [CHR 0xC3, CHR 0xBA] @ ''p g'' @
         [CHR 0xC3, CHR 0xAC] @ '' cho b'' @ [CHR 0xE1, CHR 0xBA, CHR 0xA1] @ ''n?'',
      [CHR 0xC4, CHR 0x90, CHR 0xC3, CHR 0xA2] @ ''y l'' @ [CHR 0xC3, CHR 0xA0] @ '' m'' @
         [CHR 0xE1, CHR 0xBB, CHR 0x99] @ ''t h'' @ [CHR 0xE1, CHR 0xBB, CHR 0x87] @ '' th'' @
         [CHR 0xE1, CHR 0xBB, CHR 0x91] @ ''ng event-driven streaming s'' @
         [CHR 0xE1, CHR 0xBB, CHR 0xAD] @ '' d'' @ [CHR 0xE1, CHR 0xBB, CHR 0xA5] @ ''ng Kafka v'' @
         [CHR 0xC3, CHR 0xA0] @ '' Go.'',
      ''Latency l'' @ [CHR 0xC3, CHR 0xA0] @ '' th'' @ [CHR 0xE1, CHR 0xBB, CHR 0x9D] @ ''i gian '' @
         [CHR 0xC4, CHR 0x91, CHR 0xE1, CHR 0xBB, CHR 0x83] @ '' m'' @ [CHR 0xE1, CHR 0xBB, CHR 0x99] @
         ''t packet '' @ [CHR 0xC4, CHR 0x91] @ ''i t'' @ [CHR 0xE1, CHR 0xBB, CHR 0xAB] @
         '' sender '' @ [CHR 0xC4, CHR 0x91, CHR 0xE1, CHR 0xBA, CHR 0xBF] @ ''n receiver.'',
      ''Throughput l'' @ [CHR 0xC3, CHR 0xA0] @ '' l'' @
         [CHR 0xC6, CHR 0xB0, CHR 0xE1, CHR 0xBB, CHR 0xA3] @ ''ng data th'' @
         [CHR 0xE1, CHR 0xBB, CHR 0xB1] @ ''c s'' @ [CHR 0xE1, CHR 0xBB, CHR 0xB1] @ '' '' @
         [CHR 0xC4, CHR 0x91, CHR 0xC6, CHR 0xB0, CHR 0xE1, CHR 0xBB, CHR 0xA3] @ ''c truy'' @
         [CHR 0xE1, CHR 0xBB, CHR 0x81] @ ''n th'' @ [CHR 0xC3, CHR 0xA0] @ ''nh c'' @
         [CHR 0xC3, CHR 0xB4] @ ''ng m'' @ [CHR 0xE1, CHR 0xBB, CHR 0x97] @ ''i gi'' @
         [CHR 0xC3, CHR 0xA2] @ ''y.'',
      ''Redis sorted sets r'' @ [CHR 0xE1, CHR 0xBA, CHR 0xA5] @ ''t ph'' @ [CHR 0xC3, CHR 0xB9] @
         '' h'' @ [CHR 0xE1, CHR 0xBB, CHR 0xA3] @ ''p '' @
         [CHR 0xC4, CHR 0x91, CHR 0xE1, CHR 0xBB, CHR 0x83] @ '' l'' @ [CHR 0xC6, CHR 0xB0] @
         ''u conversation history theo th'' @ [CHR 0xE1, CHR 0xBB, CHR 0xA9] @ '' t'' @
         [CHR 0xE1, CHR 0xBB, CHR 0xB1] @ '' th'' @ [CHR 0xE1, CHR 0xBB, CHR 0x9D] @ ''i gian.'']"

text \<open>What the goroutine sends for the chosen response, and its channel's content if the context lasts.\<close>

definition word_tokens :: "string list \<Rightarrow> string list" where
  "word_tokens words = map (\<lambda>(i, word). if 0 < i then '' '' @ word else word) (enumerate 0 words)"

definition mock_Generate :: "nat \<Rightarrow> string \<Rightarrow> go_error + string list" where
  "mock_Generate intn content = Inr (word_tokens (Fields (responses ! intn)))"

text \<open>\<open>newTokenGenerator\<close>.\<close>

datatype ITokenGenerator = MockLLMStrategy

definition newTokenGenerator :: "string \<Rightarrow> go_error + ITokenGenerator" where
  "newTokenGenerator provider =
     (if provider = ''mock'' \<or> provider = [] then Inr MockLLMStrategy
      else Inl (ErrText (''unknown LLM provider: '' @ provider)))"

section \<open>Words and texts\<close>

text \<open>A string of valid encoding without white space; words with one space between them.\<close>

function word_ok :: "string \<Rightarrow> bool" where
  "word_ok s \<longleftrightarrow>
     (if s = [] then True
      else 0 < rune_len s \<and> head_rune s \<notin> set space_runes \<and> word_ok (tail_runes s))"
  by pat_completeness auto
termination
  by (relation "measure length") (auto simp: tail_runes_def)

declare word_ok.simps [simp del]

definition unwords :: "string list \<Rightarrow> string" where
  "unwords ws = concat (word_tokens ws)"

lemma tokens_from_Suc:
  "map (\<lambda>(i, word). if 0 < i then '' '' @ word else word) (enumerate (Suc n) ws) = map (\<lambda>w. '' '' @ w) ws"
  by (induction ws arbitrary: n) simp_all

lemma word_tokens_Cons: "word_tokens (w # ws) = w # map (\<lambda>w. '' '' @ w) ws"
  using tokens_from_Suc [of 0 ws] by (simp add: word_tokens_def)

lemma unwords_simps [simp]:
  "unwords [] = []" "unwords [w] = w"
  "unwords (w # w' # ws) = w @ '' '' @ unwords (w' # ws)"
  by (simp_all add: unwords_def word_tokens_Cons) (simp add: word_tokens_def)

lemma head_tail_append:
  assumes "0 < rune_len s"
  shows "head_rune (s @ t) = head_rune s" and "tail_runes (s @ t) = tail_runes s @ t"
proof -
  have "s @ t = take (rune_len s) s @ drop (rune_len s) s @ t" by simp
  then have "rune_len (s @ t) = rune_len s"
    using rune_len_append [OF assms] by metis
  then show "head_rune (s @ t) = head_rune s" and "tail_runes (s @ t) = tail_runes s @ t"
    using assms rune_len_le [of s] by (simp_all add: head_rune_def tail_runes_def)
qed

lemma fields_from_word: "word_ok w \<Longrightarrow> fields_from cur (w @ t) = fields_from (cur @ w) t"
proof (induction w arbitrary: cur rule: word_ok.induct)
  case (1 s)
  show ?case
  proof (cases "s = []")
    case False
    with "1.prems" have s: "0 < rune_len s" "head_rune s \<notin> set space_runes" "word_ok (tail_runes s)"
      by (auto simp: word_ok.simps [of s])
    have "cur @ s = (cur @ head_rune s) @ tail_runes s"
      by (simp add: head_rune_def tail_runes_def)
    then show ?thesis
      using "1.IH" [OF False s(3), of "cur @ head_rune s"] s False
      by (subst fields_from.simps) (simp add: head_tail_append)
  qed simp
qed

lemma space_runes_literal:
  "space_runes =
     [[CHR 0x09], [CHR 0x0A], [CHR 0x0B], [CHR 0x0C], [CHR 0x0D], [CHR 0x20], [CHR 0xC2, CHR 0x85],
      [CHR 0xC2, CHR 0xA0], [CHR 0xE1, CHR 0x9A, CHR 0x80], [CHR 0xE2, CHR 0x80, CHR 0x80],
      [CHR 0xE2, CHR 0x80, CHR 0x81], [CHR 0xE2, CHR 0x80, CHR 0x82], [CHR 0xE2, CHR 0x80, CHR 0x83],
      [CHR 0xE2, CHR 0x80, CHR 0x84], [CHR 0xE2, CHR 0x80, CHR 0x85], [CHR 0xE2, CHR 0x80, CHR 0x86],
      [CHR 0xE2, CHR 0x80, CHR 0x87], [CHR 0xE2, CHR 0x80, CHR 0x88], [CHR 0xE2, CHR 0x80, CHR 0x89],
      [CHR 0xE2, CHR 0x80, CHR 0x8A], [CHR 0xE2, CHR 0x80, CHR 0xA8], [CHR 0xE2, CHR 0x80, CHR 0xA9],
      [CHR 0xE2, CHR 0x80, CHR 0xAF], [CHR 0xE2, CHR 0x81, CHR 0x9F], [CHR 0xE3, CHR 0x80, CHR 0x80]]"
  by (simp add: space_runes_def encode_rune_def upt_rec chr_def char_of_def bit_Suc_0_iff)

lemma fields_from_space: "fields_from cur ('' '' @ t) = (if cur = [] then [] else [cur]) @ fields_from [] t"
proof -
  have "rune_len (CHR '' '' # t) = 1" by (simp add: byte_def)
  then show ?thesis
    by (subst fields_from.simps)
      (simp add: head_rune_def tail_runes_def space_runes_literal)
qed

text \<open>Splitting what was joined gives the words back.\<close>

lemma Fields_unwords:
  "(\<And>w. w \<in> set ws \<Longrightarrow> w \<noteq> [] \<and> word_ok w) \<Longrightarrow> Fields (unwords ws) = ws"
proof (induction ws rule: induct_list012)
  case (2 w)
  then show ?case
    using fields_from_word [of w "[]" "[]"] by (simp add: Fields_def fields_from.simps)
next
  case (3 w w' ws)
  then have "fields_from [] (w @ '' '' @ unwords (w' # ws)) = w # fields_from [] (unwords (w' # ws))"
    using fields_from_word [of w "[]"] fields_from_space [of w "unwords (w' # ws)"] by simp
  with 3 show ?case by (simp add: Fields_def)
qed (simp add: Fields_def fields_from.simps)

lemma fields_from_Nil: "fields_from cur [] = (if cur = [] then [] else [cur])"
  by (simp add: fields_from.simps)

lemma fields_from_ascii:
  "byte c < 128 \<Longrightarrow> fields_from cur (c # s) =
     (if [c] \<in> set space_runes then (if cur = [] then [] else [cur]) @ fields_from [] s
      else fields_from (cur @ [c]) s)"
  by (subst fields_from.simps) (simp add: head_rune_def tail_runes_def)

lemma unwords_Fields_responses: "map (\<lambda>s. unwords (Fields s)) responses = responses"
  by (simp add: responses_def Fields_def fields_from_ascii fields_from_Nil fields_from.simps
      space_runes_literal byte_def rune_len.simps head_rune_def tail_runes_def cont_def second_ok_def Let_def)

section \<open>Properties\<close>

text \<open>
  The client reads the chosen response whole: the tokens the mock generator sends, put together, are
  the response text byte for byte, for each of the five responses and whatever the user asked.
\<close>

theorem mock_reply_text:
  "map (\<lambda>i. map_sum id concat (mock_Generate i content)) [0..<5] = map Inr responses"
proof -
  have "5 = length responses" by (simp add: responses_def)
  then have "map (\<lambda>i. map_sum id concat (mock_Generate i content)) [0..<5] =
      map (Inr \<circ> (\<lambda>s. unwords (Fields s))) (map ((!) responses) [0..<length responses])"
    by (simp add: mock_Generate_def unwords_def)
  then show ?thesis
    by (simp only: map_nth map_map [symmetric] unwords_Fields_responses)
qed

end
