(* ===== verification/Publisher.thy ===== *)
theory Publisher
  imports TokenGenerator
begin

text \<open>
  \<open>broker/publisher.go\<close> over a Kafka client, and the use cases that publish:
  \<open>usecase/process_chat_request.go\<close> and \<open>usecase/send_message.go\<close>.

  The Kafka client is not code of the repository: \<open>write\<close> is a parameter,
  \<open>WriteMessages\<close> of one of the three writers with one message.  \<open>kafka_documented\<close>
  states what the client documents of an asynchronous writer: a call that returns nil has queued the
  message behind those queued before it for its topic; one that fails may or may not have queued it.
  \<open>json.Marshal\<close> does not fail on these structs.
\<close>

section \<open>The publisher\<close>

record kafka_message =
  km_Topic :: string
  km_Key :: string
  km_Value :: string

datatype kafka_writer = MainWriter | StreamWriter | PersistWriter

type_synonym 'k kafka = "kafka_writer \<Rightarrow> kafka_message \<Rightarrow> ('k, unit) go_call"

text \<open>The settings \<open>NewEventPublisher\<close> gives its writers; times in milliseconds.\<close>

datatype balancer = HashBalancer

record writer_config =
  wc_Balancer :: balancer
  wc_BatchTimeout :: nat
  wc_BatchSize :: nat
  wc_Async :: bool
  wc_Lz4 :: bool

fun NewEventPublisher :: "kafka_writer \<Rightarrow> writer_config" where
  "NewEventPublisher MainWriter =
     \<lparr>wc_Balancer = HashBalancer, wc_BatchTimeout = 10, wc_BatchSize = 500, wc_Async = True, wc_Lz4 = True\<rparr>"
| "NewEventPublisher StreamWriter =
     \<lparr>wc_Balancer = HashBalancer, wc_BatchTimeout = 0, wc_BatchSize = 1, wc_Async = True, wc_Lz4 = False\<rparr>"
| "NewEventPublisher PersistWriter =
     \<lparr>wc_Balancer = HashBalancer, wc_BatchTimeout = 100, wc_BatchSize = 500, wc_Async = True, wc_Lz4 = True\<rparr>"

definition topicRequests :: string where
  "topicRequests = ''chat.requests''"

definition topicCompleted :: string where
  "topicCompleted = ''chat.completed''"

definition topicStreamFE :: string where
  "topicStreamFE = ''stream-llm-fe''"

definition topicPersistLLM :: string where
  "topicPersistLLM = ''persistence-llm''"

lemma topics_distinct [simp]:
  "topicRequests \<noteq> topicStreamFE" "topicRequests \<noteq> topicPersistLLM" "topicStreamFE \<noteq> topicPersistLLM"
  "topicStreamFE \<noteq> topicRequests" "topicPersistLLM \<noteq> topicRequests" "topicPersistLLM \<noteq> topicStreamFE"
  by (simp_all add: topicRequests_def topicStreamFE_def topicPersistLLM_def)

definition publisher_write :: "'k kafka \<Rightarrow> kafka_writer \<Rightarrow> string \<Rightarrow> string \<Rightarrow> string \<Rightarrow> ('k, unit) go_call" where
  "publisher_write write w topic key data = write w \<lparr>km_Topic = topic, km_Key = key, km_Value = data\<rparr>"

definition PublishRequest :: "'k kafka \<Rightarrow> ChatRequest \<Rightarrow> ('k, unit) go_call" where
  "PublishRequest write req =
     publisher_write write MainWriter topicRequests (cr_SessionID req) (marshal_ChatRequest req)"

definition PublishCompleted :: "'k kafka \<Rightarrow> ChatCompleted \<Rightarrow> ('k, unit) go_call" where
  "PublishCompleted write completed =
     publisher_write write MainWriter topicCompleted (cc_SessionID completed) (marshal_ChatCompleted completed)"

definition PublishToken :: "'k kafka \<Rightarrow> TokenEvent \<Rightarrow> ('k, unit) go_call" where
  "PublishToken write token =
     (let msg = \<lparr>km_Topic = [], km_Key = te_SessionID token, km_Value = marshal_TokenEvent token\<rparr>;
          streamMsg = msg\<lparr>km_Topic := topicStreamFE\<rparr>;
          persistMsg = msg\<lparr>km_Topic := topicPersistLLM\<rparr>
      in go_bind (write StreamWriter streamMsg) (\<lambda>_. write PersistWriter persistMsg))"

text \<open>\<open>close\<close> is \<open>Close\<close> of one of the writers; the errors of the first two are dropped.\<close>

definition publisher_Close :: "(kafka_writer \<Rightarrow> ('k, unit) go_call) \<Rightarrow> ('k, unit) go_call" where
  "publisher_Close close k =
     (case close StreamWriter k of
        (_, k1) \<Rightarrow> (case close PersistWriter k1 of (_, k2) \<Rightarrow> close MainWriter k2))"

section \<open>The use cases\<close>

text \<open>
  The events of a request: one per token, then the done event.  \<open>range tokenCh\<close> is the recursion
  over what the channel carries; an error of the publisher ends it.
\<close>

definition delta_event :: "ChatRequest \<Rightarrow> string \<Rightarrow> TokenEvent" where
  "delta_event req token =
     \<lparr>te_RequestID = cr_RequestID req, te_SessionID = cr_SessionID req, te_UserMessage = cr_Content req,
      te_Delta = token, te_Done = False\<rparr>"

definition done_event :: "ChatRequest \<Rightarrow> TokenEvent" where
  "done_event req =
     \<lparr>te_RequestID = cr_RequestID req, te_SessionID = cr_SessionID req, te_UserMessage = cr_Content req,
      te_Delta = [], te_Done = True\<rparr>"

fun publish_deltas :: "(TokenEvent \<Rightarrow> ('k, unit) go_call) \<Rightarrow> ChatRequest \<Rightarrow> string list \<Rightarrow> ('k, unit) go_call" where
  "publish_deltas publish req [] = go_return ()"
| "publish_deltas publish req (token # tokens) =
     go_bind (publish (delta_event req token)) (\<lambda>_. publish_deltas publish req tokens)"

definition process_Execute ::
  "(string \<Rightarrow> go_error + string list) \<Rightarrow> (TokenEvent \<Rightarrow> ('k, unit) go_call) \<Rightarrow> ChatRequest \<Rightarrow>
   ('k, unit) go_call" where
  "process_Execute generate publish req =
     (case generate (cr_Content req) of
        Inl err \<Rightarrow> go_fail err
      | Inr tokenCh \<Rightarrow>
          go_bind (publish_deltas publish req tokenCh) (\<lambda>_. publish (done_event req)))"

text \<open>\<open>SendMessageUseCase\<close> and the output port it presents to.\<close>

record streamOutputPort =
  so_requestID :: string
  so_err :: "go_error option"

definition new_streamOutputPort :: streamOutputPort where
  "new_streamOutputPort = \<lparr>so_requestID = [], so_err = None\<rparr>"

definition send_Execute ::
  "(ChatRequest \<Rightarrow> ('k, unit) go_call) \<Rightarrow> string \<Rightarrow> string \<Rightarrow> string \<Rightarrow> streamOutputPort \<Rightarrow> 'k \<Rightarrow>
   streamOutputPort \<times> 'k" where
  "send_Execute publish sessionID content requestID out k =
     (let req = \<lparr>cr_RequestID = requestID, cr_SessionID = sessionID, cr_Content = content,
                 cr_Timestamp = ''0''\<rparr>
      in case publish req k of
           (Inl err, k') \<Rightarrow> (out\<lparr>so_err := Some err\<rparr>, k')
         | (Inr _, k') \<Rightarrow> (out\<lparr>so_requestID := requestID\<rparr>, k'))"

section \<open>What the Kafka client documents\<close>

text \<open>\<open>queue\<close>: the messages handed to a topic, in order.\<close>

definition kafka_documented :: "'k kafka \<Rightarrow> ('k \<Rightarrow> string \<Rightarrow> kafka_message list) \<Rightarrow> bool" where
  "kafka_documented write queue \<longleftrightarrow>
     (\<forall>w m k k'. write w m k = (Inr (), k') \<longrightarrow>
        queue k' = (queue k)(km_Topic m := queue k (km_Topic m) @ [m])) \<and>
     (\<forall>w m k e k'. write w m k = (Inl e, k') \<longrightarrow>
        queue k' = queue k \<or> queue k' = (queue k)(km_Topic m := queue k (km_Topic m) @ [m]))"

lemma kafka_documentedD:
  assumes "kafka_documented write queue"
  shows "write w m k = (Inr (), k') \<Longrightarrow> queue k' = (queue k)(km_Topic m := queue k (km_Topic m) @ [m])"
    and "write w m k = (Inl e, k') \<Longrightarrow>
      queue k' = queue k \<or> queue k' = (queue k)(km_Topic m := queue k (km_Topic m) @ [m])"
  using assms unfolding kafka_documented_def by blast+

section \<open>The contract of the token publisher\<close>

text \<open>
  What \<open>ProcessChatRequestUseCase\<close> relies on: a published event is the next one of both streams, and
  a failed call put it on both, on the first only, or on none.
\<close>

locale token_publisher =
  fixes good :: bool
    and publish :: "TokenEvent \<Rightarrow> ('k, unit) go_call"
    and streamed :: "'k \<Rightarrow> 'm list"
    and persisted :: "'k \<Rightarrow> 'm list"
    and message :: "TokenEvent \<Rightarrow> 'm"
  assumes publish_ok: "good \<Longrightarrow> publish t k = (Inr (), k') \<Longrightarrow>
      streamed k' = streamed k @ [message t] \<and> persisted k' = persisted k @ [message t]"
    and publish_err: "good \<Longrightarrow> publish t k = (Inl e, k') \<Longrightarrow>
      (streamed k' = streamed k \<and> persisted k' = persisted k) \<or>
      (streamed k' = streamed k @ [message t] \<and>
        (persisted k' = persisted k \<or> persisted k' = persisted k @ [message t]))"
begin

lemma publish_deltas_ok:
  "good \<Longrightarrow> publish_deltas publish req tokens k = (Inr (), k') \<Longrightarrow>
     streamed k' = streamed k @ map (message \<circ> delta_event req) tokens \<and>
     persisted k' = persisted k @ map (message \<circ> delta_event req) tokens"
proof (induction tokens arbitrary: k)
  case (Cons token tokens)
  from Cons.prems(2) obtain k1 where "publish (delta_event req token) k = (Inr (), k1)"
    and "publish_deltas publish req tokens k1 = (Inr (), k')"
    by (auto elim: go_bind_InrE)
  with publish_ok [OF Cons.prems(1), of "delta_event req token"] Cons.IH [OF Cons.prems(1), of k1] show ?case by simp
qed (simp add: go_return_def)

text \<open>On an error the streams hold a prefix of the events, and the second is at most one behind.\<close>

definition lagging :: "'k \<Rightarrow> 'k \<Rightarrow> TokenEvent list \<Rightarrow> bool" where
  "lagging k k' evs \<longleftrightarrow>
     (\<exists>n m. m \<le> n \<and> n \<le> Suc m \<and> n \<le> length evs \<and>
        streamed k' = streamed k @ map message (take n evs) \<and>
        persisted k' = persisted k @ map message (take m evs))"

lemma laggingI:
  "m \<le> n \<Longrightarrow> n \<le> Suc m \<Longrightarrow> n \<le> length evs \<Longrightarrow> streamed k' = streamed k @ map message (take n evs) \<Longrightarrow>
     persisted k' = persisted k @ map message (take m evs) \<Longrightarrow> lagging k k' evs"
  unfolding lagging_def by blast

lemma lagging_err:
  assumes good and "publish t k = (Inl e, k')"
  shows "lagging k k' (t # evs)"
  using publish_err [OF assms]
proof (elim disjE conjE)
  assume "streamed k' = streamed k" and "persisted k' = persisted k"
  then show ?thesis by (intro laggingI [of 0 0]) simp_all
next
  assume "streamed k' = streamed k @ [message t]" and "persisted k' = persisted k"
  then show ?thesis by (intro laggingI [of 0 1]) simp_all
next
  assume "streamed k' = streamed k @ [message t]" and "persisted k' = persisted k @ [message t]"
  then show ?thesis by (intro laggingI [of 1 1]) simp_all
qed

lemma lagging_Cons:
  assumes good and "publish t k = (Inr (), k1)" and "lagging k1 k' evs"
  shows "lagging k k' (t # evs)"
proof -
  from assms(3) obtain n m where "m \<le> n" "n \<le> Suc m" "n \<le> length evs"
    "streamed k' = streamed k1 @ map message (take n evs)"
    "persisted k' = persisted k1 @ map message (take m evs)"
    unfolding lagging_def by blast
  with publish_ok [OF assms(1,2)] show ?thesis
    by (intro laggingI [of "Suc m" "Suc n"]) simp_all
qed

lemma publish_deltas_err:
  "good \<Longrightarrow> publish_deltas publish req tokens k = (Inl e, k') \<Longrightarrow>
     lagging k k' (map (delta_event req) tokens @ evs)"
proof (induction tokens arbitrary: k)
  case (Cons token tokens)
  from Cons.prems(2) have
    "go_bind (publish (delta_event req token)) (\<lambda>_. publish_deltas publish req tokens) k = (Inl e, k')"
    by simp
  then show ?case
  proof (cases rule: go_bind_cases)
    case (fail e')
    then show ?thesis using lagging_err Cons.prems(1) by simp
  next
    case (step u k1)
    then show ?thesis using lagging_Cons Cons.IH Cons.prems(1) by simp
  qed
qed (simp add: go_return_def)

lemma lagging_append:
  assumes "streamed k1 = streamed k @ map message evs" and "persisted k1 = persisted k @ map message evs"
    and "lagging k1 k' evs'"
  shows "lagging k k' (evs @ evs')"
proof -
  from assms(3) obtain n m where "m \<le> n" "n \<le> Suc m" "n \<le> length evs'"
    "streamed k' = streamed k1 @ map message (take n evs')"
    "persisted k' = persisted k1 @ map message (take m evs')"
    unfolding lagging_def by blast
  with assms(1,2) show ?thesis
    by (intro laggingI [of "length evs + m" "length evs + n"]) simp_all
qed

lemma process_Execute_ok:
  assumes good and "process_Execute generate publish req k = (Inr (), k')"
  obtains tokens where "generate (cr_Content req) = Inr tokens"
    and "streamed k' = streamed k @ map message (map (delta_event req) tokens @ [done_event req])"
    and "persisted k' = persisted k @ map message (map (delta_event req) tokens @ [done_event req])"
proof (cases "generate (cr_Content req)")
  case (Inl e)
  with assms(2) show ?thesis by (simp add: process_Execute_def go_fail_def)
next
  case (Inr tokens)
  with assms(2) have "go_bind (publish_deltas publish req tokens) (\<lambda>_. publish (done_event req)) k = (Inr (), k')"
    by (simp add: process_Execute_def)
  then obtain u k1 where "publish_deltas publish req tokens k = (Inr u, k1)"
    and "publish (done_event req) k1 = (Inr (), k')"
    by (rule go_bind_InrE)
  with publish_deltas_ok [OF assms(1), of req tokens k k1] publish_ok [OF assms(1), of "done_event req" k1 k'] that [OF Inr]
  show ?thesis by simp
qed

lemma process_Execute_err:
  assumes good and "process_Execute generate publish req k = (Inl e, k')"
  shows "(generate (cr_Content req) = Inl e \<and> k' = k) \<or>
    (\<exists>tokens. generate (cr_Content req) = Inr tokens \<and>
       lagging k k' (map (delta_event req) tokens @ [done_event req]))"
proof (cases "generate (cr_Content req)")
  case (Inl e')
  with assms(2) show ?thesis by (simp add: process_Execute_def go_fail_def)
next
  case (Inr tokens)
  with assms(2) have "go_bind (publish_deltas publish req tokens) (\<lambda>_. publish (done_event req)) k = (Inl e, k')"
    by (simp add: process_Execute_def)
  then have "lagging k k' (map (delta_event req) tokens @ [done_event req])"
  proof (cases rule: go_bind_cases)
    case (fail e')
    then show ?thesis using publish_deltas_err [OF assms(1)] by simp
  next
    case (step u k1)
    then have "lagging k1 k' [done_event req]" using lagging_err [OF assms(1)] by simp
    with publish_deltas_ok [OF assms(1), of req tokens k k1] step(1) show ?thesis
      by (intro lagging_append) simp_all
  qed
  with Inr show ?thesis by blast
qed

end

text \<open>The broker's publisher keeps the contract: its streams are the two topics' queues.\<close>

definition token_message :: "string \<Rightarrow> TokenEvent \<Rightarrow> kafka_message" where
  "token_message topic t = \<lparr>km_Topic = topic, km_Key = te_SessionID t, km_Value = marshal_TokenEvent t\<rparr>"

text \<open>A message without its topic: the key, which decides the partition, and the value.\<close>

definition keyed_value :: "kafka_message \<Rightarrow> string \<times> string" where
  "keyed_value m = (km_Key m, km_Value m)"

definition token_value :: "TokenEvent \<Rightarrow> string \<times> string" where
  "token_value t = (te_SessionID t, marshal_TokenEvent t)"

lemma PublishToken_cases:
  assumes "PublishToken write t k = (r, k')"
  obtains e where "write StreamWriter (token_message topicStreamFE t) k = (Inl e, k')" "r = Inl e"
    | k1 where "write StreamWriter (token_message topicStreamFE t) k = (Inr (), k1)"
        and "write PersistWriter (token_message topicPersistLLM t) k1 = (r, k')"
proof -
  have "go_bind (write StreamWriter (token_message topicStreamFE t))
      (\<lambda>_. write PersistWriter (token_message topicPersistLLM t)) k = (r, k')"
    using assms by (simp add: PublishToken_def token_message_def Let_def)
  then show ?thesis
    by (rule go_bind_cases) (auto intro: that)
qed

lemma token_message_Topic [simp]: "km_Topic (token_message topic t) = topic"
  by (simp add: token_message_def)

interpretation broker: token_publisher "kafka_documented kw queue" "PublishToken kw"
    "\<lambda>k. map keyed_value (queue k topicStreamFE)" "\<lambda>k. map keyed_value (queue k topicPersistLLM)"
    token_value
  for kw :: "'k kafka" and queue
proof (unfold_locales, goal_cases)
  case (1 t k k')
  note ok = kafka_documentedD(1) [OF 1(1)]
  from 1(2) show ?case
    by (rule PublishToken_cases) (auto dest!: ok simp: token_message_def keyed_value_def token_value_def)
next
  case (2 t k e k')
  note ok = kafka_documentedD(1) [OF 2(1)] and err = kafka_documentedD(2) [OF 2(1)]
  from 2(2) show ?case
    by (rule PublishToken_cases) (auto dest!: ok err simp: token_message_def keyed_value_def token_value_def)
qed

text \<open>
  A Kafka that keeps queues; with a limit, the writer of the persistence topic fails once its queue
  is that long.
\<close>

definition ref_kafka :: "nat option \<Rightarrow> (string \<Rightarrow> kafka_message list) kafka" where
  "ref_kafka limit w m q =
     (if w = PersistWriter \<and> limit = Some (length (q (km_Topic m))) then (Inl (ErrText ''kafka down''), q)
      else (Inr (), q(km_Topic m := q (km_Topic m) @ [m])))"

lemma ref_kafka_documented: "kafka_documented (ref_kafka limit) (\<lambda>q. q)"
  by (auto simp: kafka_documented_def ref_kafka_def split: if_splits)

definition no_messages :: "string \<Rightarrow> kafka_message list" where
  "no_messages topic = []"

definition demo_request :: ChatRequest where
  "demo_request = \<lparr>cr_RequestID = ''r1'', cr_SessionID = ''s1'', cr_Content = ''hi'', cr_Timestamp = ''0''\<rparr>"

section \<open>Properties\<close>

text \<open>
  A processed request puts its whole reply on both topics: when \<open>Execute\<close> succeeds, the streaming topic
  and the persistence topic got the same messages, in the same order, after what they held: one event
  per generated token, in order, then the done event, all with the request's id and content and keyed
  by the session, so one partition keeps their order.
\<close>

theorem process_publishes_reply:
  assumes "kafka_documented kw queue" and "process_Execute generate (PublishToken kw) req k = (Inr (), k')"
  shows "\<exists>tokens. generate (cr_Content req) = Inr tokens \<and>
    map keyed_value (queue k' topicStreamFE) = map keyed_value (queue k topicStreamFE) @
      map token_value (map (delta_event req) tokens @ [done_event req]) \<and>
    map keyed_value (queue k' topicPersistLLM) = map keyed_value (queue k topicPersistLLM) @
      map token_value (map (delta_event req) tokens @ [done_event req])"
  using broker.process_Execute_ok [OF assms] by metis

theorem process_publishes_reply_witness:
  "\<exists>k'. process_Execute (\<lambda>c. Inr [''a'', '' b'']) (PublishToken (ref_kafka None)) demo_request no_messages
      = (Inr (), k') \<and>
    map keyed_value (k' topicPersistLLM) =
      map token_value [delta_event demo_request ''a'', delta_event demo_request '' b'', done_event demo_request]"
proof -
  obtain k' where run: "process_Execute (\<lambda>c. Inr [''a'', '' b'']) (PublishToken (ref_kafka None))
      demo_request no_messages = (Inr (), k')"
    by (simp add: process_Execute_def go_bind_def PublishToken_def ref_kafka_def go_return_def Let_def)
  from process_publishes_reply [OF ref_kafka_documented run] run show ?thesis
    by (simp add: no_messages_def)
qed

text \<open>
  (C19) What a failed \<open>Execute\<close> leaves behind: nothing if the generator failed; otherwise both topics got a
  prefix of the events, and the persistence topic is at most one event behind the streaming topic,
  which is written first, and never ahead of it.
\<close>

theorem process_error_prefix:
  assumes "kafka_documented kw queue" and "process_Execute generate (PublishToken kw) req k = (Inl e, k')"
  shows "(generate (cr_Content req) = Inl e \<and> k' = k) \<or>
    (\<exists>tokens n m. generate (cr_Content req) = Inr tokens \<and> m \<le> n \<and> n \<le> Suc m \<and>
       map keyed_value (queue k' topicStreamFE) = map keyed_value (queue k topicStreamFE) @
         map token_value (take n (map (delta_event req) tokens @ [done_event req])) \<and>
       map keyed_value (queue k' topicPersistLLM) = map keyed_value (queue k topicPersistLLM) @
         map token_value (take m (map (delta_event req) tokens @ [done_event req])))"
  using broker.process_Execute_err [OF assms] unfolding broker.lagging_def by blast

theorem process_error_prefix_witness:
  "\<exists>e k' n m. process_Execute (\<lambda>c. Inr [''a'', '' b'']) (PublishToken (ref_kafka (Some 1))) demo_request
      no_messages = (Inl e, k') \<and>
    length (k' topicStreamFE) = 2 \<and> m \<le> n \<and> n \<le> Suc m \<and>
    map keyed_value (k' topicPersistLLM) = map token_value
      (take m (map (delta_event demo_request) [''a'', '' b''] @ [done_event demo_request]))"
proof -
  obtain e k' where run: "process_Execute (\<lambda>c. Inr [''a'', '' b'']) (PublishToken (ref_kafka (Some 1)))
      demo_request no_messages = (Inl e, k')" and len: "length (k' topicStreamFE) = 2"
    by (simp add: process_Execute_def go_bind_def PublishToken_def ref_kafka_def no_messages_def Let_def
        topicPersistLLM_def topicStreamFE_def)
  from process_error_prefix [OF ref_kafka_documented run] run len show ?thesis
    by (auto simp: no_messages_def simp del: take_append map_append list.map(2))
qed

end
