(* ===== verification/ChatStream.thy ===== *)
theory ChatStream
  imports TokenHub RedisStores Publisher Middleware
begin

text \<open>
  \<open>handler/chat_stream.go\<close>: one request to \<open>POST /chat/:session_id\<close>, from its body to the
  last line of the streamed response.  The handler runs next to other handlers and gRPC streams, so it
  is a machine of steps (one per call of a shared component, one per case of its \<open>select\<close>) over
  the world it shares with them; the others' hub operations and their effects on Redis and Kafka are
  events of the schedule.  The deferred \<open>cleanup\<close> is part of the step that returns.
\<close>

section \<open>The handler\<close>

record ('d, 'k) api =
  api_redis :: 'd
  api_kafka :: 'k
  api_hub :: TokenHub

datatype stream_pc =
    SClaim string
  | SRegister string
  | SSetCallback string string chan_ref
  | SSend string string chan_ref
  | SStreaming string chan_ref
  | SReturned

text \<open>The response written so far, \<open>None\<close> before a status was set.\<close>

record stream_handler =
  sh_pc :: stream_pc
  sh_rsp :: "Response option"

datatype ('d, 'k) stream_event =
    HClaim
  | HRegister string
  | HSetCallback
  | HSend
  | HReceive
  | HWriteFails
  | HClientGone
  | OtherHub hub_op
  | OtherWorld 'd 'k

definition content_fields :: "string field list" where
  "content_fields = [(''content'', field_string (\<lambda>f s. f s))]"

definition returned :: "Response \<Rightarrow> stream_handler" where
  "returned rsp = \<lparr>sh_pc = SReturned, sh_rsp = Some rsp\<rparr>"

text \<open>The body is bound first, without touching anything shared.\<close>

definition stream_start :: "string \<Rightarrow> stream_handler" where
  "stream_start body =
     (case ShouldBindJSON content_fields [] body of
        None \<Rightarrow> returned (c_JSON 400 (gin_error ''content is required''))
      | Some content \<Rightarrow>
          if content = [] then returned (c_JSON 400 (gin_error ''content is required''))
          else \<lparr>sh_pc = SClaim content, sh_rsp = None\<rparr>)"

definition ndjson_start :: Response where
  "ndjson_start =
     \<lparr>rsp_Status = 200,
      rsp_Headers = [(''Content-Type'', ''application/x-ndjson''), (''X-Accel-Buffering'', ''no'')],
      rsp_Body = []\<rparr>"

definition write_chunk :: "PubSubToken \<Rightarrow> stream_handler \<Rightarrow> stream_handler" where
  "write_chunk token h =
     h\<lparr>sh_rsp := map_option (\<lambda>rsp. rsp\<lparr>rsp_Body := rsp_Body rsp @ encode_tokenChunk (chunk_of token)\<rparr>)
        (sh_rsp h)\<rparr>"

fun stream_step ::
  "'d redis \<Rightarrow> (ChatRequest \<Rightarrow> ('k, unit) go_call) \<Rightarrow> string \<Rightarrow> string \<Rightarrow> string \<Rightarrow>
   ('d, 'k) stream_event \<Rightarrow> stream_pc \<Rightarrow> stream_handler \<Rightarrow> ('d, 'k) api \<Rightarrow>
   (stream_handler \<times> ('d, 'k) api) option" where
  "stream_step run publish addr sessionID userID HClaim (SClaim content) h w =
     (case ClaimOwner run sessionID userID (api_redis w) of
        (Inl err, d) \<Rightarrow> Some (returned (c_JSON 403 (gin_error ''forbidden'')), w\<lparr>api_redis := d\<rparr>)
      | (Inr owned, d) \<Rightarrow>
          if \<not> owned then Some (returned (c_JSON 403 (gin_error ''forbidden'')), w\<lparr>api_redis := d\<rparr>)
          else Some (h\<lparr>sh_pc := SRegister content\<rparr>, w\<lparr>api_redis := d\<rparr>))"
| "stream_step run publish addr sessionID userID (HRegister requestID) (SRegister content) h w =
     (case hub_Register requestID (api_hub w) of
        (ch, hub) \<Rightarrow> Some (h\<lparr>sh_pc := SSetCallback content requestID ch\<rparr>, w\<lparr>api_hub := hub\<rparr>))"
| "stream_step run publish addr sessionID userID HSetCallback (SSetCallback content requestID ch) h w =
     (case SetCallback run requestID addr (api_redis w) of
        (_, d) \<Rightarrow> Some (h\<lparr>sh_pc := SSend content requestID ch\<rparr>, w\<lparr>api_redis := d\<rparr>))"
| "stream_step run publish addr sessionID userID HSend (SSend content requestID ch) h w =
     (case send_Execute publish sessionID content requestID new_streamOutputPort (api_kafka w) of
        (out, k) \<Rightarrow>
          (case so_err out of
             Some err \<Rightarrow>
               Some (returned (c_JSON 500 (gin_error (Error err))),
                     w\<lparr>api_kafka := k, api_hub := hub_cleanup requestID (api_hub w)\<rparr>)
           | None \<Rightarrow>
               Some (\<lparr>sh_pc = SStreaming requestID ch, sh_rsp = Some ndjson_start\<rparr>, w\<lparr>api_kafka := k\<rparr>)))"
| "stream_step run publish addr sessionID userID HReceive (SStreaming requestID ch) h w =
     (case hub_recv ch (api_hub w) of
        None \<Rightarrow> None
      | Some (token, hub) \<Rightarrow>
          if pt_Done token
          then Some ((write_chunk token h)\<lparr>sh_pc := SReturned\<rparr>, w\<lparr>api_hub := hub_cleanup requestID hub\<rparr>)
          else Some (write_chunk token h, w\<lparr>api_hub := hub\<rparr>))"
| "stream_step run publish addr sessionID userID HWriteFails (SStreaming requestID ch) h w =
     (case hub_recv ch (api_hub w) of
        None \<Rightarrow> None
      | Some (token, hub) \<Rightarrow> Some (h\<lparr>sh_pc := SReturned\<rparr>, w\<lparr>api_hub := hub_cleanup requestID hub\<rparr>))"
| "stream_step run publish addr sessionID userID HClientGone (SStreaming requestID ch) h w =
     Some (h\<lparr>sh_pc := SReturned\<rparr>, w\<lparr>api_hub := hub_cleanup requestID (api_hub w)\<rparr>)"
| "stream_step run publish addr sessionID userID (OtherHub op) pc h w =
     Some (h, w\<lparr>api_hub := snd (hub_step op (api_hub w))\<rparr>)"
| "stream_step run publish addr sessionID userID (OtherWorld d k) pc h w =
     Some (h, w\<lparr>api_redis := d, api_kafka := k\<rparr>)"
| "stream_step run publish addr sessionID userID _ _ h w = None"

fun_cases stream_step_cases: "stream_step run publish addr sid uid ev pc h w = Some (h', w')"

fun handler_run where
  "handler_run run publish addr sid uid [] h w = Some (h, w)"
| "handler_run run publish addr sid uid (ev # evs) h w =
     (case stream_step run publish addr sid uid ev (sh_pc h) h w of
        None \<Rightarrow> None
      | Some (h', w') \<Rightarrow> handler_run run publish addr sid uid evs h' w')"

section \<open>From registration to the last line\<close>

fun hub_ops_of :: "('d, 'k) stream_event \<Rightarrow> hub_op list" where
  "hub_ops_of (OtherHub op) = [op]"
| "hub_ops_of _ = []"

definition hub_ops :: "('d, 'k) stream_event list \<Rightarrow> hub_op list" where
  "hub_ops evs = concat (map hub_ops_of evs)"

text \<open>The others leave the request's registration and its channel's reading end alone.\<close>

definition quiet :: "string \<Rightarrow> chan_ref \<Rightarrow> ('d, 'k) stream_event \<Rightarrow> bool" where
  "quiet rid ch ev \<longleftrightarrow>
     (\<forall>op. ev = OtherHub op \<longrightarrow> op \<noteq> OpRegister rid \<and> op \<noteq> OpCleanup rid \<and> op \<noteq> OpRecv ch)"

abbreviation no_done :: "PubSubToken list \<Rightarrow> bool" where
  "no_done ts \<equiv> \<forall>t \<in> set ts. \<not> pt_Done t"

definition chunk_lines :: "PubSubToken list \<Rightarrow> string" where
  "chunk_lines ts = concat (map (encode_tokenChunk \<circ> chunk_of) ts)"

definition streamed_body :: "PubSubToken list \<Rightarrow> Response" where
  "streamed_body ts = ndjson_start\<lparr>rsp_Body := chunk_lines ts\<rparr>"

lemma write_chunk_streamed [simp]:
  "sh_rsp h = Some (streamed_body xs) \<Longrightarrow> sh_rsp (write_chunk t h) = Some (streamed_body (xs @ [t]))"
  "sh_pc (write_chunk t h) = sh_pc h"
  by (simp_all add: write_chunk_def streamed_body_def chunk_lines_def)

lemma streamed_body_Nil [simp]: "streamed_body [] = ndjson_start" "rsp_Status (streamed_body xs) = 200"
  by (simp_all add: streamed_body_def chunk_lines_def ndjson_start_def)

definition waiting :: "string \<Rightarrow> chan_ref \<Rightarrow> PubSubToken list \<Rightarrow> TokenHub \<Rightarrow> bool" where
  "waiting rid ch ts hub \<longleftrightarrow> hub_pending hub rid = Some ch \<and> hub_chans hub ch = ts"

text \<open>
  \<open>D\<close>: what was delivered to the request since it was registered.  It waits in the channel until
  the handler streams; then what was written, without a done token, and what waits make it up; when
  the handler has returned, it wrote a prefix of it that no token follows after a done token, and
  ended with the done token unless the client left or a write failed (\<open>ok\<close> false).
\<close>

definition ended :: "bool \<Rightarrow> PubSubToken list \<Rightarrow> Response \<Rightarrow> bool" where
  "ended ok D rsp \<longleftrightarrow> rsp_Status rsp = 500 \<or>
     (\<exists>xs ys. xs @ ys = D \<and> no_done (butlast xs) \<and> rsp = streamed_body xs \<and>
        (ok \<longrightarrow> xs \<noteq> [] \<and> pt_Done (last xs)))"

definition following ::
  "bool \<Rightarrow> string \<Rightarrow> chan_ref \<Rightarrow> PubSubToken list \<Rightarrow> stream_handler \<Rightarrow> TokenHub \<Rightarrow> bool" where
  "following ok rid ch D h hub \<longleftrightarrow> hub_inv hub \<and>
     (case sh_pc h of
        SSetCallback c r ch' \<Rightarrow> r = rid \<and> ch' = ch \<and> waiting rid ch D hub
      | SSend c r ch' \<Rightarrow> r = rid \<and> ch' = ch \<and> waiting rid ch D hub
      | SStreaming r ch' \<Rightarrow> r = rid \<and> ch' = ch \<and>
          (\<exists>xs ys. xs @ ys = D \<and> no_done xs \<and> waiting rid ch ys hub \<and> sh_rsp h = Some (streamed_body xs))
      | SReturned \<Rightarrow> hub_pending hub rid = None \<and> (\<exists>rsp. sh_rsp h = Some rsp \<and> ended ok D rsp)
      | _ \<Rightarrow> False)"

lemma ended_more: "ended ok D rsp \<Longrightarrow> ended ok (D @ ts) rsp"
  unfolding ended_def by (metis append.assoc)

lemma ended_weaken: "ended ok D rsp \<Longrightarrow> ended (ok \<and> b) D rsp"
  unfolding ended_def by blast

lemma streamed_body_Body [simp]: "rsp_Body (streamed_body xs) = chunk_lines xs"
  by (simp add: streamed_body_def)

lemma ended_body:
  "ended ok D rsp \<Longrightarrow> rsp_Status rsp = 500 \<or>
     (\<exists>xs. (\<exists>ys. xs @ ys = D) \<and> no_done (butlast xs) \<and> rsp_Body rsp = chunk_lines xs)"
  unfolding ended_def by auto

lemma waiting_other:
  assumes "hub_inv hub" and "waiting rid ch ts hub" and "op \<noteq> OpRegister rid" "op \<noteq> OpCleanup rid" "op \<noteq> OpRecv ch"
    and "length ts + length (delivered rid [op]) \<le> hub_capacity"
  shows "waiting rid ch (ts @ delivered rid [op]) (snd (hub_step op hub))"
proof -
  obtain l hub' where s: "hub_step op hub = (l, hub')" by (cases "hub_step op hub")
  have p: "hub_pending hub rid = Some ch" and c: "hub_chans hub ch = ts"
    using assms(2) by (simp_all add: waiting_def)
  have "received ch l = []"
    using s assms(5) by (cases op) (auto split: option.splits)
  with hub_step_channel [OF assms(1) p assms(3,4) s] c assms(6) length_delivered_single [of rid op]
  show ?thesis
    by (cases "delivered rid [op]") (auto simp: waiting_def s chan_offer_room)
qed

lemma pending_other:
  "hub_pending hub rid = None \<Longrightarrow> op \<noteq> OpRegister rid \<Longrightarrow> hub_pending (snd (hub_step op hub)) rid = None"
  by (cases op) (auto simp: hub_op_defs Let_def split: option.splits list.splits)

lemma followingI_streaming:
  "hub_inv hub \<Longrightarrow> sh_pc h = SStreaming rid ch \<Longrightarrow> xs @ ys = D \<Longrightarrow> no_done xs \<Longrightarrow> waiting rid ch ys hub \<Longrightarrow>
     sh_rsp h = Some (streamed_body xs) \<Longrightarrow> following ok rid ch D h hub"
  unfolding following_def by auto

lemma followingI_returned:
  "hub_inv hub \<Longrightarrow> sh_pc h = SReturned \<Longrightarrow> hub_pending hub rid = None \<Longrightarrow> sh_rsp h = Some rsp \<Longrightarrow>
     ended ok D rsp \<Longrightarrow> following ok rid ch D h hub"
  by (simp add: following_def)

lemma following_other:
  assumes "following ok rid ch D h hub" and "quiet rid ch (OtherHub op)"
    and "length (D @ delivered rid [op]) \<le> hub_capacity"
  shows "following ok rid ch (D @ delivered rid [op]) h (snd (hub_step op hub))"
proof -
  have inv: "hub_inv hub" and inv': "hub_inv (snd (hub_step op hub))"
    using assms(1) hub_inv_step by (auto simp: following_def)
  have op: "op \<noteq> OpRegister rid" "op \<noteq> OpCleanup rid" "op \<noteq> OpRecv ch"
    using assms(2) by (auto simp: quiet_def)
  note w = waiting_other [OF inv _ op]
  show ?thesis
  proof (cases "sh_pc h")
    case (SStreaming r ch')
    then obtain xs ys where x: "r = rid" "ch' = ch" "xs @ ys = D" "no_done xs" "waiting rid ch ys hub"
      "sh_rsp h = Some (streamed_body xs)"
      using assms(1) by (auto simp: following_def)
    have "xs @ (ys @ delivered rid [op]) = D @ delivered rid [op]" using x(3) by simp
    moreover have "waiting rid ch (ys @ delivered rid [op]) (snd (hub_step op hub))"
      using x(3,5) assms(3) by (intro w) auto
    ultimately show ?thesis
      using x SStreaming inv' by (intro followingI_streaming) auto
  next
    case SReturned
    with assms(1) inv' pending_other [of hub rid op] op ended_more show ?thesis
      unfolding following_def by auto
  qed (use assms(1,3) inv' w in \<open>auto simp: following_def\<close>)
qed

lemma following_recv:
  assumes "following ok rid ch D h hub" and "sh_pc h = SStreaming r c" and "hub_recv c hub = Some (t, hub')"
  obtains xs ys where "r = rid" "c = ch" "(xs @ [t]) @ ys = D" "no_done xs" "waiting rid ch ys hub'"
    "sh_rsp h = Some (streamed_body xs)" "hub_inv hub'"
proof -
  from assms obtain xs ys where x: "r = rid" "c = ch" "xs @ ys = D" "no_done xs" "waiting rid ch ys hub"
    "sh_rsp h = Some (streamed_body xs)" "hub_inv hub"
    by (auto simp: following_def)
  from x(2,5) assms(3) obtain ys' where "ys = t # ys'" and "waiting rid ch ys' hub'"
    by (auto simp: waiting_def hub_recv_def split: list.splits)
  with x that [of xs ys'] hub_inv_recv [OF x(7), of c t hub'] assms(3) show ?thesis by simp
qed

lemma hub_pending_cleanup [simp]: "hub_pending (hub_cleanup r hub) = (hub_pending hub)(r := None)"
  by (simp add: hub_cleanup_def)

definition keeps_ok :: "('d, 'k) stream_event \<Rightarrow> bool" where
  "keeps_ok ev \<longleftrightarrow> ev \<noteq> HClientGone \<and> ev \<noteq> HWriteFails"

lemma following_receive:
  assumes "following ok rid ch D h (api_hub w)" and "sh_pc h = SStreaming r c"
    and "stream_step run publish addr sid uid HReceive (sh_pc h) h w = Some (h', w')"
  shows "following ok rid ch D h' (api_hub w')"
proof -
  obtain t hub' where rc: "hub_recv c (api_hub w) = Some (t, hub')"
    using assms(2,3) by (auto split: option.splits)
  from following_recv [OF assms(1,2) rc] obtain xs ys where x: "r = rid" "c = ch" "(xs @ [t]) @ ys = D"
    "no_done xs" "waiting rid ch ys hub'" "sh_rsp h = Some (streamed_body xs)" "hub_inv hub'" .
  show ?thesis
  proof (cases "pt_Done t")
    case True
    then have "ended ok D (streamed_body (xs @ [t]))"
      using x(3,4) unfolding ended_def by fastforce
    with True x rc assms(2,3) show ?thesis
      by (intro followingI_returned [where rsp = "streamed_body (xs @ [t])"]) (auto simp: hub_inv_cleanup)
  next
    case False
    with x have "no_done (xs @ [t])" by simp
    with False x rc assms(2,3) show ?thesis
      by (intro followingI_streaming [of _ _ _ _ "xs @ [t]" ys]) auto
  qed
qed

lemma following_leave:
  assumes "following ok rid ch D h (api_hub w)" and "sh_pc h = SStreaming r c" and "\<not> keeps_ok ev"
    and "stream_step run publish addr sid uid ev (sh_pc h) h w = Some (h', w')"
  shows "following False rid ch D h' (api_hub w')"
proof -
  obtain xs ys where x: "r = rid" "c = ch" "xs @ ys = D" "no_done xs" "sh_rsp h = Some (streamed_body xs)"
    "hub_inv (api_hub w)"
    using assms(1,2) by (auto simp: following_def)
  then have e: "ended False D (streamed_body xs)"
    unfolding ended_def by (auto dest: in_set_butlastD)
  have "hub_inv hub'" if "hub_recv c (api_hub w) = Some (t, hub')" for t hub'
    using hub_inv_recv [OF x(6) that] .
  with x e assms(2-4) show ?thesis
    by (intro followingI_returned [where rsp = "streamed_body xs"])
      (auto simp: keeps_ok_def hub_inv_cleanup split: option.splits)
qed

lemma following_step:
  assumes "following ok rid ch D h (api_hub w)" and "quiet rid ch ev"
    and "stream_step run publish addr sid uid ev (sh_pc h) h w = Some (h', w')"
    and "length (D @ delivered rid (hub_ops_of ev)) \<le> hub_capacity"
  shows "following (ok \<and> keeps_ok ev) rid ch (D @ delivered rid (hub_ops_of ev)) h' (api_hub w')"
proof (cases ev)
  case (OtherHub op)
  with assms(3) have "h' = h" and "w' = w\<lparr>api_hub := snd (hub_step op (api_hub w))\<rparr>" by auto
  with assms OtherHub following_other [OF assms(1), of op] show ?thesis by (simp add: keeps_ok_def)
next
  case (OtherWorld d k)
  with assms show ?thesis by (auto simp: keeps_ok_def)
next
  case HReceive
  with assms(3) obtain r c where "sh_pc h = SStreaming r c" by (cases "sh_pc h") auto
  with following_receive [OF assms(1)] assms(3) HReceive show ?thesis by (simp add: keeps_ok_def)
next
  case HWriteFails
  with assms(3) obtain r c where "sh_pc h = SStreaming r c" by (cases "sh_pc h") auto
  with following_leave [OF assms(1) _ _ assms(3)] HWriteFails show ?thesis by (simp add: keeps_ok_def)
next
  case HClientGone
  with assms(3) obtain r c where "sh_pc h = SStreaming r c" by (cases "sh_pc h") auto
  with following_leave [OF assms(1) _ _ assms(3)] HClientGone show ?thesis by (simp add: keeps_ok_def)
next
  case HSend
  with assms(3) obtain content r c where pc: "sh_pc h = SSend content r c" by (cases "sh_pc h") auto
  with assms(1) have x: "r = rid" "c = ch" "waiting rid ch D (api_hub w)" "hub_inv (api_hub w)"
    by (auto simp: following_def)
  show ?thesis
  proof (cases "sh_pc h' = SReturned")
    case True
    with pc x HSend assms(3) show ?thesis
      by (auto simp: keeps_ok_def following_def ended_def returned_def hub_inv_cleanup
          split: prod.splits option.splits)
  next
    case False
    with pc HSend assms(3) have "sh_pc h' = SStreaming r c" "sh_rsp h' = Some (streamed_body [])" "api_hub w' = api_hub w"
      by (auto simp: returned_def split: prod.splits option.splits)
    with x HSend show ?thesis
      by (intro followingI_streaming [of _ _ _ _ "[]" D]) auto
  qed
qed (use assms in \<open>auto simp: following_def keeps_ok_def elim!: stream_step_cases split: prod.splits\<close>)

lemma following_run:
  "handler_run run publish addr sid uid evs h w = Some (h', w') \<Longrightarrow> following ok rid ch D h (api_hub w) \<Longrightarrow>
     (\<And>ev. ev \<in> set evs \<Longrightarrow> quiet rid ch ev) \<Longrightarrow> length (D @ delivered rid (hub_ops evs)) \<le> hub_capacity \<Longrightarrow>
     following (ok \<and> (\<forall>ev \<in> set evs. keeps_ok ev)) rid ch (D @ delivered rid (hub_ops evs)) h' (api_hub w')"
proof (induction evs arbitrary: h w ok D)
  case (Cons ev evs)
  from Cons.prems(1) obtain h1 w1 where s: "stream_step run publish addr sid uid ev (sh_pc h) h w = Some (h1, w1)"
    and r: "handler_run run publish addr sid uid evs h1 w1 = Some (h', w')"
    by (auto split: option.splits)
  have d: "delivered rid (hub_ops (ev # evs)) = delivered rid (hub_ops_of ev) @ delivered rid (hub_ops evs)"
    by (cases ev) (simp_all add: hub_ops_def delivered_Cons [of rid _ "concat (map hub_ops_of evs)"])
  have "following (ok \<and> keeps_ok ev) rid ch (D @ delivered rid (hub_ops_of ev)) h1 (api_hub w1)"
    by (rule following_step [OF Cons.prems(2) Cons.prems(3) s]) (use Cons.prems(4) d in auto)
  from Cons.IH [OF r this] Cons.prems(3,4) d show ?case
    by (simp add: conj_assoc)
qed (simp add: hub_ops_def)

lemma registered_following:
  assumes "hub_inv (api_hub w0)"
    and "stream_step run publish addr sid uid (HRegister rid) (SRegister content) h0 w0 = Some (h1, w1)"
  shows "following ok rid (hub_next (api_hub w0)) [] h1 (api_hub w1)"
  using assms hub_inv_snd_Register [OF assms(1), of rid]
  by (auto simp: following_def waiting_def hub_Register_def Let_def)

text \<open>The reply a client is to get: the tokens up to the first done token.\<close>

fun upto_done :: "PubSubToken list \<Rightarrow> PubSubToken list" where
  "upto_done [] = []"
| "upto_done (t # ts) = (if pt_Done t then [t] else t # upto_done ts)"

lemma upto_done_split:
  "xs \<noteq> [] \<Longrightarrow> no_done (butlast xs) \<Longrightarrow> pt_Done (last xs) \<Longrightarrow> upto_done (xs @ ys) = xs"
proof (induction xs)
  case (Cons x xs)
  then show ?case by (cases "xs = []") auto
qed simp

text \<open>
  What the handler needed to get where it is: a body with content and, \<open>c\<close>, a confirmed claim.
\<close>

definition cleared :: "bool \<Rightarrow> string \<Rightarrow> stream_handler \<Rightarrow> bool" where
  "cleared c body h \<longleftrightarrow>
     (let bound = (\<exists>s. ShouldBindJSON content_fields [] body = Some s \<and> s \<noteq> []) in
      case sh_pc h of
        SClaim s \<Rightarrow> bound
      | SReturned \<Rightarrow> (\<exists>rsp. sh_rsp h = Some rsp \<and>
          (rsp_Status rsp = 400 \<or> rsp_Status rsp = 403 \<or>
           (rsp_Status rsp = 200 \<or> rsp_Status rsp = 500) \<and> bound \<and> c))
      | SStreaming r ch \<Rightarrow> (\<exists>rsp. sh_rsp h = Some rsp \<and> rsp_Status rsp = 200) \<and> bound \<and> c
      | _ \<Rightarrow> bound \<and> c)"

lemma write_chunk_status:
  "sh_rsp h = Some rsp \<Longrightarrow> \<exists>rsp'. sh_rsp (write_chunk t h) = Some rsp' \<and> rsp_Status rsp' = rsp_Status rsp"
  by (simp add: write_chunk_def)

lemma ndjson_start_Status [simp]: "rsp_Status ndjson_start = 200"
  by (simp add: ndjson_start_def)

lemma cleared_start: "cleared c body (stream_start body)"
  by (simp add: cleared_def stream_start_def returned_def split: option.split)

lemma cleared_mono: "cleared c body h \<Longrightarrow> (c \<Longrightarrow> c') \<Longrightarrow> cleared c' body h"
  by (auto simp: cleared_def Let_def split: stream_pc.splits)

lemma cleared_claim:
  assumes "stream_step run publish addr sid uid HClaim (sh_pc h) h w = Some (h', w')" and "cleared c body h"
  shows "cleared (ClaimOwner run sid uid (api_redis w) = (Inr True, api_redis w')) body h'"
proof -
  from assms(1) obtain s where "sh_pc h = SClaim s" by (cases "sh_pc h") auto
  with assms show ?thesis
    by (auto simp: cleared_def returned_def Let_def split: prod.splits sum.splits if_splits)
qed

lemma cleared_receive:
  assumes "stream_step run publish addr sid uid HReceive (sh_pc h) h w = Some (h', w')" and "cleared c body h"
  shows "cleared c body h'"
proof -
  from assms(1) obtain r ch where pc: "sh_pc h = SStreaming r ch" by (cases "sh_pc h") auto
  then obtain t where "sh_rsp h' = sh_rsp (write_chunk t h)" and "sh_pc h' = SReturned \<or> sh_pc h' = sh_pc h"
    using assms(1) by (auto split: option.splits if_splits)
  moreover obtain rsp where "sh_rsp h = Some rsp" "rsp_Status rsp = 200"
    using pc assms(2) by (auto simp: cleared_def Let_def)
  ultimately show ?thesis
    using pc assms(2) write_chunk_status [of h rsp t] by (auto simp: cleared_def Let_def)
qed

lemma cleared_step:
  assumes "stream_step run publish addr sid uid ev (sh_pc h) h w = Some (h', w')" and "cleared c body h"
    and "ev \<noteq> HClaim"
  shows "cleared c body h'"
proof (cases ev)
  case HReceive
  with cleared_receive assms show ?thesis by blast
next
  case HSend
  with assms(1) obtain s r ch where "sh_pc h = SSend s r ch" by (cases "sh_pc h") auto
  with HSend assms show ?thesis
    by (auto simp: cleared_def returned_def Let_def split: prod.splits option.splits)
next
  case HSetCallback
  with assms(1) obtain s r ch where "sh_pc h = SSetCallback s r ch" by (cases "sh_pc h") auto
  with HSetCallback assms show ?thesis
    by (auto simp: cleared_def Let_def split: prod.splits)
next
  case (HRegister r)
  with assms(1) obtain s where "sh_pc h = SRegister s" by (cases "sh_pc h") auto
  with HRegister assms show ?thesis
    by (auto simp: cleared_def Let_def split: prod.splits)
next
  case HWriteFails
  with assms(1) obtain r ch where "sh_pc h = SStreaming r ch" by (cases "sh_pc h") auto
  with HWriteFails assms show ?thesis
    by (auto simp: cleared_def Let_def split: option.splits)
next
  case HClientGone
  with assms(1) obtain r ch where "sh_pc h = SStreaming r ch" by (cases "sh_pc h") auto
  with HClientGone assms show ?thesis
    by (auto simp: cleared_def Let_def)
qed (use assms in auto)

text \<open>A claim confirmed in a run is an owner seen in Redis at that moment of the run.\<close>

lemma cleared_run:
  assumes "redis_documented run view"
  shows "handler_run run publish addr sid uid evs h w = Some (h', w') \<Longrightarrow> cleared c body h \<Longrightarrow>
    cleared (c \<or> (\<exists>evs1 h1 w1. prefix evs1 evs \<and> handler_run run publish addr sid uid evs1 h w = Some (h1, w1) \<and>
      session_owner (view (api_redis w1)) sid = Some uid)) body h'"
proof (induction evs arbitrary: h w c)
  case (Cons ev evs)
  from Cons.prems(1) obtain h1 w1 where s: "stream_step run publish addr sid uid ev (sh_pc h) h w = Some (h1, w1)"
    and r: "handler_run run publish addr sid uid evs h1 w1 = Some (h', w')"
    by (auto split: option.splits)
  let ?own = "\<lambda>w. session_owner (view (api_redis w)) sid = Some uid"
  have "cleared (c \<or> ?own w1) body h1"
  proof (cases "ev = HClaim")
    case True
    then show ?thesis
      using cleared_claim [of run publish addr sid uid h w h1 w1 c body] s Cons.prems(2)
        ClaimOwner_Inr [OF assms, of sid uid "api_redis w" True "api_redis w1"]
      by (auto elim!: cleared_mono simp: session_owner_entries)
  next
    case False
    with cleared_step [OF s Cons.prems(2)] show ?thesis by (auto elim: cleared_mono)
  qed
  note IH = Cons.IH [OF r this]
  show ?case
  proof (rule cleared_mono [OF IH], elim disjE exE conjE)
    assume own: "?own w1"
    have "prefix [ev] (ev # evs)" by simp
    with s own show "c \<or> (\<exists>evs1 h1 w1. prefix evs1 (ev # evs) \<and>
        handler_run run publish addr sid uid evs1 h w = Some (h1, w1) \<and> ?own w1)"
      by (intro disjI2 exI [of _ "[ev]"] exI [of _ h1] exI [of _ w1]) simp
  next
    fix evs1 h2 w2
    assume "prefix evs1 evs" and "handler_run run publish addr sid uid evs1 h1 w1 = Some (h2, w2)" and "?own w2"
    with s show "c \<or> (\<exists>evs1 h1 w1. prefix evs1 (ev # evs) \<and>
        handler_run run publish addr sid uid evs1 h w = Some (h1, w1) \<and> ?own w1)"
      by (intro disjI2 exI [of _ "ev # evs1"] exI [of _ h2] exI [of _ w2]) simp
  qed simp
qed (auto elim: cleared_mono)

text \<open>A request of one delta and the done token.\<close>

definition demo_run :: "(redis_view, string \<Rightarrow> kafka_message list) stream_event list" where
  "demo_run =
     [HSetCallback, HSend, OtherHub (OpDeliver ''r1'' (demo_token ''a'' False)), HReceive,
      OtherHub (OpDeliver ''r1'' (demo_token [] True)), HReceive]"

definition demo_handler :: stream_handler where
  "demo_handler = \<lparr>sh_pc = SRegister ''hi'', sh_rsp = None\<rparr>"

definition demo_api :: "(redis_view, string \<Rightarrow> kafka_message list) api" where
  "demo_api = \<lparr>api_redis = empty_redis, api_kafka = no_messages, api_hub = hub_New\<rparr>"

abbreviation demo_publish :: "ChatRequest \<Rightarrow> (string \<Rightarrow> kafka_message list, unit) go_call" where
  "demo_publish \<equiv> PublishRequest (ref_kafka None)"

lemma demo_registers:
  "\<exists>h1 w1 h2 w2. stream_step ref_redis demo_publish ''api:1'' ''s1'' ''ann'' (HRegister ''r1'') (SRegister ''hi'')
      demo_handler demo_api = Some (h1, w1) \<and>
    handler_run ref_redis demo_publish ''api:1'' ''s1'' ''ann'' demo_run h1 w1 = Some (h2, w2) \<and>
    sh_pc h2 = SReturned \<and> sh_rsp h2 = Some (streamed_body [demo_token ''a'' False, demo_token [] True])"
  by (simp add: demo_api_def demo_handler_def demo_run_def demo_token_def hub_op_defs hub_New_def Let_def
      SetCallback_def go_bind_def go_return_def ref_redis_def send_Execute_def PublishRequest_def publisher_write_def
      ref_kafka_def new_streamOutputPort_def chan_offer_def hub_capacity_def write_chunk_def streamed_body_def chunk_lines_def
      ndjson_start_def)

lemma demo_quiet:
  "ev \<in> set demo_run \<Longrightarrow> quiet ''r1'' (hub_next (api_hub demo_api)) ev"
  "ev \<in> set demo_run \<Longrightarrow> ev \<noteq> HClientGone \<and> ev \<noteq> HWriteFails"
  "delivered ''r1'' (hub_ops demo_run) = [demo_token ''a'' False, demo_token [] True]"
  by (auto simp: demo_run_def quiet_def hub_ops_def)

lemma reply_complete:
  assumes "hub_inv (api_hub w0)"
    and "stream_step run publish addr sid uid (HRegister rid) (SRegister content) h0 w0 = Some (h1, w1)"
    and "handler_run run publish addr sid uid evs h1 w1 = Some (h2, w2)"
    and "\<And>ev. ev \<in> set evs \<Longrightarrow> quiet rid (hub_next (api_hub w0)) ev"
    and "length (delivered rid (hub_ops evs)) \<le> 1000"
    and "\<And>ev. ev \<in> set evs \<Longrightarrow> ev \<noteq> HClientGone \<and> ev \<noteq> HWriteFails"
    and "sh_pc h2 = SReturned" and "sh_rsp h2 = Some rsp" and "rsp_Status rsp = 200"
  shows "rsp_Body rsp = chunk_lines (upto_done (delivered rid (hub_ops evs))) \<and>
    hub_pending (api_hub w2) rid = None"
proof -
  have "following (True \<and> (\<forall>ev \<in> set evs. keeps_ok ev)) rid (hub_next (api_hub w0))
      ([] @ delivered rid (hub_ops evs)) h2 (api_hub w2)"
    by (rule following_run [OF assms(3) registered_following [OF assms(1,2)] assms(4)])
      (use assms(5) in \<open>auto simp: hub_capacity_def\<close>)
  with assms(6) have f: "following True rid (hub_next (api_hub w0)) (delivered rid (hub_ops evs)) h2 (api_hub w2)"
    by (simp add: keeps_ok_def)
  then have "ended True (delivered rid (hub_ops evs)) rsp" and p: "hub_pending (api_hub w2) rid = None"
    using assms(7,8) by (auto simp: following_def)
  then obtain xs ys where x: "xs @ ys = delivered rid (hub_ops evs)" "no_done (butlast xs)"
    "rsp = streamed_body xs" "xs \<noteq> []" "pt_Done (last xs)"
    using assms(9) by (auto simp: ended_def)
  have "upto_done (delivered rid (hub_ops evs)) = xs"
    using upto_done_split [OF x(4,2,5), of ys] x(1) by simp
  with x(3) p show ?thesis by (simp add: streamed_body_def)
qed

section \<open>Properties\<close>

text \<open>
  (C5) A client gets its reply completely, whatever else the server does: from the registration of the
  request on, under every schedule of other handlers, gRPC streams, Redis and Kafka, when the handler
  has answered 200 and returned without the client leaving or a write failing, the body is one line
  per token delivered to the request, in order and each once, up to and including the first done
  token, and the request is no longer registered.  The others must not register, clean up or read for
  the same id, and at most the channel's 1000 tokens may be delivered.
\<close>

theorem stream_reply_complete:
  assumes "hub_inv (api_hub w0)"
    and "stream_step run publish addr sid uid (HRegister rid) (SRegister content) h0 w0 = Some (h1, w1)"
    and "handler_run run publish addr sid uid evs h1 w1 = Some (h2, w2)"
    and "\<And>ev. ev \<in> set evs \<Longrightarrow> quiet rid (hub_next (api_hub w0)) ev"
    and "length (delivered rid (hub_ops evs)) \<le> 1000"
    and "\<And>ev. ev \<in> set evs \<Longrightarrow> ev \<noteq> HClientGone \<and> ev \<noteq> HWriteFails"
    and "sh_pc h2 = SReturned" and "sh_rsp h2 = Some rsp" and "rsp_Status rsp = 200"
  shows "rsp_Body rsp = chunk_lines (upto_done (delivered rid (hub_ops evs))) \<and>
    hub_pending (api_hub w2) rid = None"
  using assms by (rule reply_complete)

theorem stream_reply_complete_witness:
  "\<exists>w1 h1 h2 w2 rsp. handler_run ref_redis demo_publish ''api:1'' ''s1'' ''ann'' demo_run h1 w1 = Some (h2, w2) \<and>
     sh_rsp h2 = Some rsp \<and> rsp_Body rsp = chunk_lines [demo_token ''a'' False, demo_token [] True] \<and>
     hub_pending (api_hub w2) ''r1'' = None"
proof -
  obtain h1 w1 h2 w2 where
    1: "stream_step ref_redis demo_publish ''api:1'' ''s1'' ''ann'' (HRegister ''r1'') (SRegister ''hi'')
      demo_handler demo_api = Some (h1, w1)"
    and 2: "handler_run ref_redis demo_publish ''api:1'' ''s1'' ''ann'' demo_run h1 w1 = Some (h2, w2)"
    and 3: "sh_pc h2 = SReturned" "sh_rsp h2 = Some (streamed_body [demo_token ''a'' False, demo_token [] True])"
    using demo_registers by blast
  have inv: "hub_inv (api_hub demo_api)" by (simp add: demo_api_def)
  have len: "length (delivered ''r1'' (hub_ops demo_run)) \<le> 1000" by (simp add: demo_quiet)
  have "chunk_lines (upto_done [demo_token ''a'' False, demo_token [] True]) =
      chunk_lines [demo_token ''a'' False, demo_token [] True]"
    by (simp add: demo_token_def)
  with stream_reply_complete [OF inv 1 2 demo_quiet(1) len demo_quiet(2) 3] 2 3(2) show ?thesis
    unfolding demo_quiet(3) by fastforce
qed



text \<open>
  (C14) Nobody gets tokens generated for a session that is not theirs: whenever the handler has gone past
  the claim (it registered or published the request, or answered 200 or 500), the body had a non-empty
  content, and at some moment of the run Redis had the caller as the session's owner; a handler that
  returned otherwise answered 400 or 403.
\<close>

theorem stream_publish_authorized:
  assumes "redis_documented run view" and "handler_run run publish addr sid uid evs (stream_start body) w = Some (h, w')"
  shows "(\<exists>rsp. sh_pc h = SReturned \<and> sh_rsp h = Some rsp \<and> (rsp_Status rsp = 400 \<or> rsp_Status rsp = 403)) \<or>
    (\<exists>c. sh_pc h = SClaim c) \<or>
    ((\<exists>c. ShouldBindJSON content_fields [] body = Some c \<and> c \<noteq> []) \<and>
     (\<exists>evs1 h1 w1. prefix evs1 evs \<and> handler_run run publish addr sid uid evs1 (stream_start body) w = Some (h1, w1) \<and>
        session_owner (view (api_redis w1)) sid = Some uid))"
proof -
  have "cleared (False \<or> (\<exists>evs1 h1 w1. prefix evs1 evs \<and>
      handler_run run publish addr sid uid evs1 (stream_start body) w = Some (h1, w1) \<and>
      session_owner (view (api_redis w1)) sid = Some uid)) body h"
    by (rule cleared_run [OF assms cleared_start])
  then show ?thesis
    by (cases "sh_pc h") (auto simp: cleared_def Let_def)
qed

definition demo_body :: string where
  "demo_body = ''{'' @ [CHR 0x22] @ ''content'' @ [CHR 0x22] @ '':'' @ [CHR 0x22] @ ''a'' @ [CHR 0x22] @ ''}''"

lemma demo_start: "stream_start demo_body = \<lparr>sh_pc = SClaim ''a'', sh_rsp = None\<rparr>"
proof -
  have "ShouldBindJSON content_fields [] demo_body = Some ''a''" by code_simp
  then show ?thesis by (simp add: stream_start_def)
qed

theorem stream_publish_authorized_witness:
  "\<exists>h w'. handler_run ref_redis demo_publish ''api:1'' ''s1'' ''ann'' [HClaim, HRegister ''r1''] (stream_start demo_body)
      demo_api = Some (h, w') \<and> sh_pc h = SSetCallback ''a'' ''r1'' 0 \<and>
    (\<exists>evs1 h1 w1. handler_run ref_redis demo_publish ''api:1'' ''s1'' ''ann'' evs1 (stream_start demo_body) demo_api
        = Some (h1, w1) \<and> session_owner (api_redis w1) ''s1'' = Some ''ann'')"
proof -
  obtain h w' where r: "handler_run ref_redis demo_publish ''api:1'' ''s1'' ''ann'' [HClaim, HRegister ''r1'']
      (stream_start demo_body) demo_api = Some (h, w')" and h: "sh_pc h = SSetCallback ''a'' ''r1'' 0"
    by (simp add: demo_start demo_api_def ClaimOwner_ref hub_Register_def hub_New_def Let_def)
  from stream_publish_authorized [OF ref_redis_documented r] r h show ?thesis
    by auto
qed

end
