(* ===== verification/Config.thy ===== *)
theory Config
  imports Middleware
begin

text \<open>
  \<open>config/config.go\<close>: the configuration read from the environment, a parameter
  \<open>getenv\<close> (the empty string for a variable that is not set), with \<open>strings.Replace\<close>,
  \<open>strings.Split\<close> and \<open>strconv.Atoi\<close> (64-bit); and what the programs derive from it:
  \<open>framework/redis\<close>'s address and the listeners of \<open>cmd/api\<close>.
\<close>

section \<open>Strings and numbers\<close>

text \<open>\<open>strings.Replace(s, old, new, 1)\<close> for a non-empty \<open>old\<close>.\<close>

fun replace_first :: "string \<Rightarrow> string \<Rightarrow> string \<Rightarrow> string" where
  "replace_first old new [] = (if old = [] then new else [])"
| "replace_first old new (c # s) =
     (if HasPrefix (c # s) old then new @ TrimPrefix (c # s) old else c # replace_first old new s)"

text \<open>\<open>strings.Split\<close> at a separator of one byte.\<close>

fun split_at :: "char \<Rightarrow> string \<Rightarrow> string list" where
  "split_at sep [] = [[]]"
| "split_at sep (c # s) =
     (if c = sep then [] # split_at sep s
      else case split_at sep s of [] \<Rightarrow> [[c]] | p # ps \<Rightarrow> (c # p) # ps)"

text \<open>
  \<open>strconv.Atoi\<close>: an optional sign and decimal digits, the value in the range of \<open>int\<close>;
  \<open>None\<close> for an error.
\<close>

definition decimal :: "string \<Rightarrow> int option" where
  "decimal ds = (if ds = [] \<or> \<not> list_all digit ds then None else Some (int (digits_value ds)))"

definition in_int64 :: "int \<Rightarrow> bool" where
  "in_int64 n \<longleftrightarrow> - (2 ^ 63) \<le> n \<and> n < 2 ^ 63"

definition Atoi :: "string \<Rightarrow> int option" where
  "Atoi s =
     (let neg = (s \<noteq> [] \<and> hd s = CHR ''-'');
          ds = (if s \<noteq> [] \<and> (hd s = CHR ''-'' \<or> hd s = CHR ''+'') then tl s else s)
      in case decimal ds of
           None \<Rightarrow> None
         | Some v \<Rightarrow> let n = (if neg then - v else v) in if in_int64 n then Some n else None)"

section \<open>The configuration\<close>

record Config =
  cfg_KafkaBrokers :: "string list"
  cfg_RedisURL :: string
  cfg_DatabaseURL :: string
  cfg_RedisTTL :: int
  cfg_LLMProvider :: string
  cfg_OpenAIAPIKey :: string
  cfg_JWTSecret :: string
  cfg_Port :: string
  cfg_CallbackSecret :: string
  cfg_APIHost :: string
  cfg_GRPCPort :: string
  cfg_GRPCAdvertisedAddr :: string

definition redis_ttl :: "string \<Rightarrow> int" where
  "redis_ttl v = (if v \<noteq> [] then (case Atoi v of Some n \<Rightarrow> n | None \<Rightarrow> 86400) else 86400)"

definition config_Load :: "(string \<Rightarrow> string) \<Rightarrow> Config" where
  "config_Load getenv =
     (let dbURL = replace_first ''postgresql+asyncpg://'' ''postgresql://'' (getenv ''DATABASE_URL'');
          ttl = redis_ttl (getenv ''REDIS_TTL'');
          port = (if getenv ''PORT'' = [] then ''8000'' else getenv ''PORT'');
          grpcPort = (if getenv ''GRPC_PORT'' = [] then ''50051'' else getenv ''GRPC_PORT'');
          grpcAdvertisedAddr = (if getenv ''GRPC_ADVERTISED_ADDR'' = [] then ''api:'' @ grpcPort
                                else getenv ''GRPC_ADVERTISED_ADDR'');
          brokers = split_at (CHR '','') (getenv ''KAFKA_BOOTSTRAP_SERVERS'')
      in \<lparr>cfg_KafkaBrokers = brokers, cfg_RedisURL = getenv ''REDIS_URL'', cfg_DatabaseURL = dbURL,
          cfg_RedisTTL = ttl, cfg_LLMProvider = getenv ''LLM_PROVIDER'',
          cfg_OpenAIAPIKey = getenv ''OPENAI_API_KEY'', cfg_JWTSecret = getenv ''JWT_SECRET'',
          cfg_Port = port, cfg_CallbackSecret = getenv ''CALLBACK_SECRET'',
          cfg_APIHost = getenv ''API_HOST'', cfg_GRPCPort = grpcPort,
          cfg_GRPCAdvertisedAddr = grpcAdvertisedAddr\<rparr>)"

text \<open>The Redis client: address, pool size, idle connections; and the API's two listeners.\<close>

definition parseAddr :: "string \<Rightarrow> string" where
  "parseAddr url = TrimPrefix url ''redis://''"

definition redis_NewClient :: "Config \<Rightarrow> string \<times> nat \<times> nat" where
  "redis_NewClient cfg = (parseAddr (cfg_RedisURL cfg), 1024, 16)"

definition api_listeners :: "Config \<Rightarrow> string \<times> string" where
  "api_listeners cfg = ('':'' @ cfg_Port cfg, '':'' @ cfg_GRPCPort cfg)"

section \<open>Splitting and numbers, back and forth\<close>

fun join_with :: "char \<Rightarrow> string list \<Rightarrow> string" where
  "join_with sep [] = []"
| "join_with sep [p] = p"
| "join_with sep (p # q # ps) = p @ sep # join_with sep (q # ps)"

lemma split_at_nonempty [simp]: "split_at sep s \<noteq> []"
  by (induction s) (auto split: list.split)

lemma join_with_Cons: "ps \<noteq> [] \<Longrightarrow> join_with sep (p # ps) = p @ sep # join_with sep ps"
  by (cases ps) simp_all

lemma join_split: "join_with sep (split_at sep s) = s"
proof (induction s)
  case (Cons c s)
  obtain p ps where "split_at sep s = p # ps" by (cases "split_at sep s") auto
  with Cons show ?case by (cases ps) (auto simp: join_with_Cons)
qed simp

lemma split_no_sep: "p \<in> set (split_at sep s) \<Longrightarrow> sep \<notin> set p"
proof (induction s arbitrary: p)
  case (Cons c s)
  obtain q ps where "split_at sep s = q # ps" by (cases "split_at sep s") auto
  with Cons show ?case by (auto split: if_splits)
qed simp

lemma split_join: "ps \<noteq> [] \<Longrightarrow> (\<And>p. p \<in> set ps \<Longrightarrow> sep \<notin> set p) \<Longrightarrow> split_at sep (join_with sep ps) = ps"
proof (induction sep ps rule: join_with.induct)
  case (2 sep p)
  then have "sep \<notin> set p" by simp
  then show ?case by (induction p) auto
next
  case (3 sep p q ps)
  then have IH: "split_at sep (join_with sep (q # ps)) = q # ps" and p: "sep \<notin> set p" by auto
  from p show ?case by (induction p) (auto simp: IH)
qed simp

text \<open>The decimal text of an integer.\<close>

definition int_text :: "int \<Rightarrow> string" where
  "int_text n = (if n < 0 then CHR ''-'' # nat_text (nat (- n)) else nat_text (nat n))"

lemma digit_char_byte [simp]: "d < 10 \<Longrightarrow> byte (digit_char d) = 48 + d"
  by (simp add: digit_char_def byte_chr)

lemma nat_text_digits: "nat_text n \<noteq> [] \<and> list_all digit (nat_text n) \<and> digits_value (nat_text n) = n"
proof (induction n rule: nat_text.induct)
  case (1 n)
  show ?case
  proof (cases "n < 10")
    case True
    then show ?thesis by (subst (1 2 3) nat_text.simps) (simp add: digit_def digits_value_def)
  next
    case False
    with 1 have "list_all digit (nat_text (n div 10))" and "digits_value (nat_text (n div 10)) = n div 10" by auto
    with False show ?thesis
      by (subst (1 2 3) nat_text.simps) (simp add: digit_def digits_value_def)
  qed
qed

lemma nat_text_hd: "hd (nat_text n) \<noteq> CHR ''-'' \<and> hd (nat_text n) \<noteq> CHR ''+''"
proof -
  have "digit (hd (nat_text n))"
    using nat_text_digits [of n] by (cases "nat_text n") auto
  then show ?thesis by (auto simp: digit_def byte_def)
qed

lemma Atoi_int_text: "in_int64 n \<Longrightarrow> Atoi (int_text n) = Some n"
  using nat_text_digits [of "nat n"] nat_text_digits [of "nat (- n)"] nat_text_hd [of "nat n"]
  by (auto simp: Atoi_def int_text_def decimal_def Let_def)

section \<open>Properties\<close>

text \<open>
  The broker list is read back as it was written: joining non-empty names without commas by commas
  in \<open>KAFKA_BOOTSTRAP_SERVERS\<close> gives the configuration exactly those names; and whatever the
  variable holds, the names joined again are its value and none contains a comma.
\<close>

theorem brokers_roundtrip:
  assumes "names \<noteq> []" and "\<And>p. p \<in> set names \<Longrightarrow> CHR '','' \<notin> set p"
    and "getenv ''KAFKA_BOOTSTRAP_SERVERS'' = join_with (CHR '','') names"
  shows "cfg_KafkaBrokers (config_Load getenv) = names"
  using split_join [OF assms(1,2)] assms(3) by (simp add: config_Load_def Let_def)

theorem brokers_roundtrip_witness:
  "cfg_KafkaBrokers (config_Load (\<lambda>v. ''k1:9092,k2:9092'')) = [''k1:9092'', ''k2:9092'']"
  by (rule brokers_roundtrip) auto

text \<open>
  The history's time to live is what \<open>REDIS_TTL\<close> says: every 64-bit integer written in decimal is
  read as itself (negative ones too, without complaint); a text that is no integer of 64 bits, and no
  text at all, give one day.
\<close>

theorem redis_ttl_roundtrip:
  "(in_int64 n \<longrightarrow> getenv ''REDIS_TTL'' = int_text n \<longrightarrow> cfg_RedisTTL (config_Load getenv) = n) \<and>
   (Atoi (getenv ''REDIS_TTL'') = None \<longrightarrow> cfg_RedisTTL (config_Load getenv) = 86400)"
proof -
  have "int_text n \<noteq> []"
    using nat_text_digits [of "nat n"] by (simp add: int_text_def)
  then show ?thesis
    by (auto simp: config_Load_def redis_ttl_def Atoi_int_text Let_def)
qed

theorem redis_ttl_roundtrip_witness:
  "cfg_RedisTTL (config_Load (\<lambda>v. int_text (-5))) = -5 \<and> cfg_RedisTTL (config_Load (\<lambda>v. ''1h'')) = 86400"
proof -
  have "in_int64 (-5)" by (simp add: in_int64_def)
  moreover have "Atoi ''1h'' = None" by (simp add: Atoi_def decimal_def digit_def byte_def)
  ultimately show ?thesis
    using redis_ttl_roundtrip [of "-5" "\<lambda>v. int_text (-5)"] redis_ttl_roundtrip [of "-5" "\<lambda>v. ''1h''"] by blast
qed

end
