(* ===== verification/ApiServer.thy ===== *)
theory ApiServer
  imports ChatHistory ChatStream Config
begin

text \<open>
  The API server as \<open>startServer\<close> of \<open>cmd/api/main.go\<close> puts it together: the routes of the
  two handlers behind the JWT middleware, with the access log around them.

  gin is not code of the repository: its router is a parameter that picks the route of a request and
  gives the path parameter; \<open>gin_documented\<close> says it picks one of the registered routes, for its
  method.  \<open>gin.Recovery\<close> only answers panics, and the model has none.
\<close>

section \<open>Routes\<close>

datatype api_handler = RouteGetHistory | RouteGetHistoryDB | RouteStream

type_synonym route = "string \<times> string \<times> api_handler"

definition chat_RegisterRoutes :: "route list" where
  "chat_RegisterRoutes =
     [(''GET'', ''/history/:session_id'', RouteGetHistory), (''GET'', ''/history/:session_id/db'', RouteGetHistoryDB)]"

definition stream_RegisterRoutes :: "route list" where
  "stream_RegisterRoutes = [(''POST'', ''/chat/:session_id'', RouteStream)]"

definition api_routes :: "route list" where
  "api_routes = chat_RegisterRoutes @ stream_RegisterRoutes"

text \<open>The router: the handler, the route's full path and \<open>session_id\<close>.\<close>

type_synonym router = "route list \<Rightarrow> string \<Rightarrow> string \<Rightarrow> (api_handler \<times> string \<times> string) option"

definition gin_documented :: "router \<Rightarrow> bool" where
  "gin_documented pick \<longleftrightarrow>
     (\<forall>routes m p h full sid. pick routes m p = Some (h, full, sid) \<longrightarrow> (m, full, h) \<in> set routes)"

section \<open>A request\<close>

record http_request =
  rq_Method :: string
  rq_Path :: string
  rq_Authorization :: string
  rq_Body :: string
  rq_ClientIP :: string

text \<open>
  An answered request, or one for which the streaming handler has started: it runs as the machine of
  \<open>ChatStream\<close>, for that user and session.
\<close>

datatype api_outcome = Answered Response | Streams string string stream_handler

record ('d, 'p) api_state =
  as_redis :: 'd
  as_db :: 'p
  as_log :: "logEntry list"

definition not_found :: Response where
  "not_found = \<lparr>rsp_Status = 404, rsp_Headers = [(''Content-Type'', ''text/plain'')], rsp_Body = ''404 page not found''\<rparr>"

text \<open>The handlers behind the middleware, which passes the user id on.\<close>

definition api_next ::
  "'d redis \<Rightarrow> 'p gorm_db \<Rightarrow> api_handler \<Rightarrow> string \<Rightarrow> string \<Rightarrow> string \<Rightarrow> 'd \<times> 'p \<Rightarrow> api_outcome \<times> ('d \<times> 'p)" where
  "api_next run db h sessionID body userID = (\<lambda>(d, q).
     (case h of
        RouteGetHistory \<Rightarrow> (case handler_GetHistory run userID sessionID d of (rsp, d') \<Rightarrow> (Answered rsp, (d', q)))
      | RouteGetHistoryDB \<Rightarrow>
          (case handler_GetHistoryDB run db userID sessionID (d, q) of (rsp, s) \<Rightarrow> (Answered rsp, s))
      | RouteStream \<Rightarrow> (Streams userID sessionID (stream_start body), (d, q))))"

text \<open>The user id \<open>JWT\<close> puts into the context, or the response with which it aborts.\<close>

definition authenticate :: "jwt_parser \<Rightarrow> string \<Rightarrow> string \<Rightarrow> Response + string" where
  "authenticate jwt_Parse secret header =
     (case JWT jwt_Parse secret header (\<lambda>userID _. (c_Status 200, Some userID)) None of
        (rsp, None) \<Rightarrow> Inl rsp
      | (_, Some userID) \<Rightarrow> Inr userID)"

definition api_route ::
  "'d redis \<Rightarrow> 'p gorm_db \<Rightarrow> jwt_parser \<Rightarrow> Config \<Rightarrow> router \<Rightarrow> http_request \<Rightarrow> 'd \<times> 'p \<Rightarrow>
   (api_outcome \<times> string) \<times> ('d \<times> 'p)" where
  "api_route run db jwt_Parse cfg pick rq s =
     (case pick api_routes (rq_Method rq) (rq_Path rq) of
        None \<Rightarrow> ((Answered not_found, []), s)
      | Some (h, full, sessionID) \<Rightarrow>
          (case authenticate jwt_Parse (cfg_JWTSecret cfg) (rq_Authorization rq) of
             Inl rsp \<Rightarrow> ((Answered rsp, full), s)
           | Inr userID \<Rightarrow>
               (case api_next run db h sessionID (rq_Body rq) userID s of (out, s') \<Rightarrow> ((out, full), s'))))"

text \<open>The access log's entry for an answered request; \<open>latency\<close> is the time it took.\<close>

definition api_serve ::
  "'d redis \<Rightarrow> 'p gorm_db \<Rightarrow> jwt_parser \<Rightarrow> Config \<Rightarrow> router \<Rightarrow> int \<Rightarrow> http_request \<Rightarrow>
   ('d, 'p) api_state \<Rightarrow> api_outcome \<times> ('d, 'p) api_state" where
  "api_serve run db jwt_Parse cfg pick latency rq s =
     (case api_route run db jwt_Parse cfg pick rq (as_redis s, as_db s) of
        ((Answered rsp, full), (d, q)) \<Rightarrow>
          (Answered rsp,
           \<lparr>as_redis = d, as_db = q,
            as_log = log_request \<lparr>le_method = rq_Method rq, le_path = full, le_status = rsp_Status rsp,
              le_latency = latency, le_clientIP = rq_ClientIP rq\<rparr> (as_log s)\<rparr>)
      | ((out, full), (d, q)) \<Rightarrow> (out, s\<lparr>as_redis := d, as_db := q\<rparr>))"

lemma JWT_authenticate:
  "JWT jwt_Parse secret header next s =
     (case authenticate jwt_Parse secret header of Inl rsp \<Rightarrow> (rsp, s) | Inr userID \<Rightarrow> next userID s)"
  by (simp add: authenticate_def JWT_def split: sum.split)

lemma authenticate_Inl: "authenticate jwt_Parse secret header = Inl rsp \<Longrightarrow> rsp_Status rsp = 401"
  by (auto simp: authenticate_def JWT_def split: sum.splits if_splits)

lemma authenticate_Inr:
  assumes "jwt_documented jwt_Parse f" and "authenticate jwt_Parse secret header = Inr u"
  shows "\<exists>raw. header = ''Bearer '' @ raw \<and> jf_method f raw = Some SigningMethodHMAC \<and> jf_signed f raw secret \<and>
    jf_current f raw \<and> jf_claims f raw UserIDKey = Some (ClaimString u) \<and> u \<noteq> []"
proof -
  have b: "HasPrefix header ''Bearer ''"
    and p: "ParseJWT jwt_Parse (TrimPrefix header ''Bearer '') secret = Inr u"
    using assms(2) by (auto simp: authenticate_def JWT_def split: sum.splits if_splits)
  from b obtain raw where raw: "header = ''Bearer '' @ raw" by (auto simp: HasPrefix_iff)
  have "TrimPrefix header ''Bearer '' = raw" unfolding raw by (rule TrimPrefix_append)
  with ParseJWT_Inr [OF assms(1), of raw secret u] p raw show ?thesis by auto
qed

lemma api_serve_next:
  assumes "api_serve run db jwt_Parse cfg pick latency rq s = (out, s')"
    and "pick api_routes (rq_Method rq) (rq_Path rq) = Some (h, full, sid)"
    and "authenticate jwt_Parse (cfg_JWTSecret cfg) (rq_Authorization rq) = Inr u"
  shows "(out, (as_redis s', as_db s')) = api_next run db h sid (rq_Body rq) u (as_redis s, as_db s)"
proof -
  obtain o1 d q where n: "api_next run db h sid (rq_Body rq) u (as_redis s, as_db s) = (o1, (d, q))"
    by (metis prod.collapse)
  then have "api_route run db jwt_Parse cfg pick rq (as_redis s, as_db s) = ((o1, full), (d, q))"
    using assms(2,3) by (simp add: api_route_def)
  with assms(1) n show ?thesis
    by (cases o1) (auto simp: api_serve_def)
qed

section \<open>Properties\<close>


text \<open>A router, a configuration and a request with a token for the toy parser.\<close>

definition demo_route :: "string \<Rightarrow> string \<Rightarrow> (api_handler \<times> string \<times> string) option" where
  "demo_route m p =
     (if m = ''GET'' \<and> p = ''/history/s1/db'' then Some (RouteGetHistoryDB, ''/history/:session_id/db'', ''s1'')
      else if m = ''POST'' \<and> p = ''/chat/s1'' then Some (RouteStream, ''/chat/:session_id'', ''s1'') else None)"

definition demo_pick :: router where
  "demo_pick routes m p =
     (case demo_route m p of
        None \<Rightarrow> None
      | Some (h, full, sid) \<Rightarrow> if (m, full, h) \<in> set routes then Some (h, full, sid) else None)"

lemma demo_pick_documented: "gin_documented demo_pick"
  by (auto simp: gin_documented_def demo_pick_def split: option.splits if_splits)

definition demo_cfg :: Config where
  "demo_cfg = config_Load (\<lambda>v. if v = ''JWT_SECRET'' then ''key'' else [])"

definition demo_http :: "string \<Rightarrow> string \<Rightarrow> http_request" where
  "demo_http m p = \<lparr>rq_Method = m, rq_Path = p, rq_Authorization = ''Bearer key:ann'', rq_Body = [], rq_ClientIP = ''::1''\<rparr>"

definition demo_as :: "(redis_view, pg_view) api_state" where
  "demo_as =
     \<lparr>as_redis = set_key (owner_key ''s1'') (VString ''ann'') None empty_redis,
      as_db = empty_pg\<lparr>pv_messages := [demo_msg ''r1'' RoleUser ''hi'']\<rparr>, as_log = []\<rparr>"

lemma demo_authenticate: "authenticate toy_Parse (cfg_JWTSecret demo_cfg) ''Bearer key:ann'' = Inr ''ann''"
proof -
  have "ParseJWT toy_Parse ''key:ann'' ''key'' = Inr ''ann''"
    by (simp add: ParseJWT_def toy_Parse_def hmac_key_def toy_facts_def UserIDKey_def)
  then show ?thesis
    by (simp add: authenticate_def JWT_def HasPrefix_def TrimPrefix_def demo_cfg_def config_Load_def Let_def)
qed

lemma demo_picks:
  "demo_pick api_routes ''GET'' ''/history/s1/db'' = Some (RouteGetHistoryDB, ''/history/:session_id/db'', ''s1'')"
  "demo_pick api_routes ''POST'' ''/chat/s1'' = Some (RouteStream, ''/chat/:session_id'', ''s1'')"
  by (simp_all add: demo_pick_def demo_route_def api_routes_def chat_RegisterRoutes_def stream_RegisterRoutes_def)


text \<open>
  (C13) What the owner reads is what is stored: when \<open>GET /history/:session_id/db\<close> answers 200, the caller's
  token names the user whom Redis has as the session's owner, the body is the messages of that session
  in the database, all of them and in its order, and the database is unchanged.
\<close>

theorem api_history_exact:
  assumes "jwt_documented jwt_Parse f" and "redis_documented run view" and "pg_documented db pview"
    and "pick api_routes (rq_Method rq) (rq_Path rq) = Some (RouteGetHistoryDB, full, sid)"
    and "api_serve run db jwt_Parse cfg pick latency rq s = (Answered rsp, s')" and "rsp_Status rsp = 200"
  shows "\<exists>raw u. rq_Authorization rq = ''Bearer '' @ raw \<and> jf_signed f raw (cfg_JWTSecret cfg) \<and>
      jf_claims f raw ''user_id'' = Some (ClaimString u) \<and>
      session_owner (view (as_redis s')) sid = Some u \<and> pview (as_db s') = pview (as_db s) \<and>
      rsp = c_JSON 200 (dtos_json (map message_dto
        (filter (\<lambda>m. msg_SessionID m = sid) (pv_messages (pview (as_db s))))))"
proof (cases "authenticate jwt_Parse (cfg_JWTSecret cfg) (rq_Authorization rq)")
  case (Inl rsp')
  with assms(4,5) have "rsp' = rsp" by (simp add: api_serve_def api_route_def)
  with authenticate_Inl [OF Inl] assms(6) show ?thesis by simp
next
  case (Inr u)
  have "handler_GetHistoryDB run db u sid (as_redis s, as_db s) = (rsp, (as_redis s', as_db s'))"
    using api_serve_next [OF assms(5,4) Inr] by (simp add: api_next_def split: prod.splits)
  from db_history_cases [OF assms(2,3) this] assms(6)
  have "session_owner (view (as_redis s')) sid = Some u \<and> pview (as_db s') = pview (as_db s) \<and>
      rsp = c_JSON 200 (dtos_json (map message_dto
        (filter (\<lambda>m. msg_SessionID m = sid) (pv_messages (pview (as_db s))))))"
    by auto
  with authenticate_Inr [OF assms(1) Inr, unfolded UserIDKey_def] show ?thesis by blast
qed

theorem api_history_exact_witness:
  "\<exists>rsp s'. api_serve ref_redis ref_db toy_Parse demo_cfg demo_pick 1 (demo_http ''GET'' ''/history/s1/db'') demo_as
      = (Answered rsp, s') \<and> rsp = c_JSON 200 (dtos_json [message_dto (demo_msg ''r1'' RoleUser ''hi'')])"
proof -
  have own: "guardSession ref_redis ''ann'' ''s1'' (as_redis demo_as) = (None, as_redis demo_as)"
    by (simp add: demo_as_def guardSession_def GetOwner_ref lookup_set_key alive_def)
  obtain ms q' where "store_GetHistory ref_db ''s1'' (as_db demo_as) = (Inr ms, q')"
    using GetHistory_avail [OF ref_db_available, of "''s1''" "as_db demo_as"] by (auto simp: demo_texts)
  then obtain rsp s' where r: "api_serve ref_redis ref_db toy_Parse demo_cfg demo_pick 1
      (demo_http ''GET'' ''/history/s1/db'') demo_as = (Answered rsp, s')" and "rsp_Status rsp = 200"
    by (simp add: api_serve_def api_route_def demo_http_def demo_picks demo_authenticate api_next_def
        handler_GetHistoryDB_def own)
  then have "rsp = c_JSON 200 (dtos_json (map message_dto
      (filter (\<lambda>m. msg_SessionID m = ''s1'') (pv_messages (ref_view (as_db demo_as))))))"
    using api_history_exact [OF toy_Parse_documented ref_redis_documented ref_db_documented _ r, of "''/history/:session_id/db''" "''s1''"]
    by (auto simp: demo_http_def demo_picks)
  moreover have "ref_view (as_db demo_as) = as_db demo_as" by (rule ref_view_id) (simp_all add: demo_as_def demo_texts)
  moreover have "filter (\<lambda>m. msg_SessionID m = ''s1'') (pv_messages (as_db demo_as)) = [demo_msg ''r1'' RoleUser ''hi'']"
    by (simp add: demo_as_def demo_msg_def)
  ultimately show ?thesis using r by auto
qed

text \<open>
  A server started without \<open>JWT_SECRET\<close> is open: nothing checks that the secret is there (the
  gRPC interceptor, the HTTP callback and \<open>gentoken\<close> all do), so every token signed with the empty key
  is accepted, for whatever user it names.
\<close>

theorem unset_jwt_secret_forgeable:
  assumes "jwt_documented jwt_Parse f" and "getenv ''JWT_SECRET'' = []"
    and "jf_method f raw = Some SigningMethodHMAC" and "jf_signed f raw []" and "jf_current f raw"
    and "jf_claims f raw ''user_id'' = Some (ClaimString u)" and "u \<noteq> []"
  shows "JWT jwt_Parse (cfg_JWTSecret (config_Load getenv)) (''Bearer '' @ raw) next s = next u s"
proof -
  have "ParseJWT jwt_Parse raw [] = Inr u"
    by (rule ParseJWT_accepts [OF assms(1,3,4,5)]) (use assms(6,7) in \<open>simp_all add: UserIDKey_def\<close>)
  then show ?thesis
    using assms(2) TrimPrefix_append [of "''Bearer ''" raw] HasPrefix_iff [of "''Bearer '' @ raw" "''Bearer ''"]
    by (simp add: JWT_def config_Load_def Let_def del: append.simps)
qed

theorem unset_jwt_secret_forgeable_witness:
  "JWT toy_Parse (cfg_JWTSecret (config_Load (\<lambda>_. []))) ''Bearer :eve'' (\<lambda>u s. (c_Status 200, u)) [] = (c_Status 200, ''eve'')"
  using unset_jwt_secret_forgeable [OF toy_Parse_documented, of "\<lambda>_. []" "'':eve''" "''eve''" "\<lambda>u s. (c_Status 200, u)" "[]"]
  by (simp add: toy_facts_def)

end
