(* ===== verification/ApiMain.thy ===== *)
theory ApiMain
  imports ApiServer "HOL-Library.Sublist"
begin

text \<open>
  \<open>startServer\<close> of \<open>cmd/api/main.go\<close> as a process: the HTTP and the gRPC server, how they start, and
  how \<open>OnStop\<close> stops them, first the gRPC server with \<open>GracefulStop\<close>, then the HTTP server with
  \<open>Shutdown\<close>, then (the hook of \<open>NewDB\<close>) the database pool.

  \<open>fx\<close>, gRPC and the network are not code of the repository.  What happens is a list of events; the
  machine says which event is possible when, from the order of the calls in the code and from
  what is documented of them: \<open>net/http\<close>'s \<open>Shutdown\<close> closes the listener and returns when no
  request is active, gRPC's \<open>GracefulStop\<close> refuses new streams and returns when none is open, and
  \<open>fx\<close> gives the stop hooks a deadline and ends the process when it passes.
\<close>

section \<open>Constructing the server\<close>

text \<open>\<open>NewSendMessage\<close> takes an address that it ignores.\<close>

definition NewSendMessage :: "'p \<Rightarrow> string \<Rightarrow> 'p" where
  "NewSendMessage publisher callbackAddr = publisher"

definition newSendMessage :: "string \<Rightarrow> 'p \<Rightarrow> Config \<Rightarrow> 'p" where
  "newSendMessage hostname publisher cfg =
     (let callbackAddr = hostname @ '':'' @ cfg_GRPCPort cfg in NewSendMessage publisher callbackAddr)"

record server_options =
  so_httpAddr :: string
  so_grpcAddr :: string
  so_maxConcurrentStreams :: nat
  so_streamSecret :: string

definition server_options :: "Config \<Rightarrow> server_options" where
  "server_options cfg =
     \<lparr>so_httpAddr = '':'' @ cfg_Port cfg, so_grpcAddr = '':'' @ cfg_GRPCPort cfg,
      so_maxConcurrentStreams = 1000, so_streamSecret = cfg_CallbackSecret cfg\<rparr>"

section \<open>The process\<close>

text \<open>
  A stream is known by its connection and the request it serves; a request of HTTP by its id.
  \<open>ap_got\<close>: for each request, the tokens that came for it, the latest last.
\<close>

datatype http_server = HttpNew | HttpStarting | HttpListening | HttpDown

datatype api_phase = Starting | Serving | StoppingGRPC | StoppingHTTP | ClosingDB | Ended nat

text \<open>The phases in the order in which the process goes through them.\<close>

fun phase_rank :: "api_phase \<Rightarrow> nat" where
  "phase_rank Starting = 0"
| "phase_rank Serving = 1"
| "phase_rank StoppingGRPC = 2"
| "phase_rank StoppingHTTP = 3"
| "phase_rank ClosingDB = 4"
| "phase_rank (Ended code) = 5 + code"

lemma phase_rank_inj: "phase_rank p = phase_rank q \<Longrightarrow> p = q"
  by (cases p; cases q) simp_all

instantiation api_phase :: linorder
begin

definition less_eq_api_phase :: "api_phase \<Rightarrow> api_phase \<Rightarrow> bool" where
  "less_eq_api_phase p q \<longleftrightarrow> phase_rank p \<le> phase_rank q"

definition less_api_phase :: "api_phase \<Rightarrow> api_phase \<Rightarrow> bool" where
  "less_api_phase p q \<longleftrightarrow> phase_rank p < phase_rank q"

instance
  by standard (auto simp: less_eq_api_phase_def less_api_phase_def intro: phase_rank_inj)

end

record api_process =
  ap_phase :: api_phase
  ap_http :: http_server
  ap_streams :: "(nat \<times> string) list"
  ap_requests :: "string list"
  ap_got :: "string \<Rightarrow> PubSubToken list"
  ap_dbClosed :: bool

definition api_New :: api_process where
  "api_New =
     \<lparr>ap_phase = Starting, ap_http = HttpNew, ap_streams = [], ap_requests = [], ap_got = (\<lambda>_. []), ap_dbClosed = False\<rparr>"

datatype api_event =
    StartHTTP
  | ListenGRPC "go_error option"
  | HttpListens
  | HttpListenFails go_error
  | StreamOpens nat string
  | TokenArrives nat PubSubToken
  | StreamEnds nat string
  | RequestArrives string
  | RequestEnds string
  | Signal
  | GracefulStopReturns
  | ShutdownReturns
  | DBCloses
  | StopDeadline

text \<open>
  \<open>StartHTTP\<close> and \<open>ListenGRPC r\<close> are \<open>OnStart\<close>: the goroutine of \<open>ListenAndServe\<close>, which
  then listens or fails, its error going nowhere, and \<open>net.Listen\<close> with its result.  When that fails,
  \<open>fx\<close> stops what has started before, which closes the database pool, and ends the process.  A
  request, and a stream, is refused once its server stops.
\<close>

fun api_step :: "nat \<Rightarrow> api_event \<Rightarrow> api_process \<Rightarrow> api_process option" where
  "api_step maxStreams StartHTTP s =
     (if ap_phase s = Starting \<and> ap_http s = HttpNew then Some (s\<lparr>ap_http := HttpStarting\<rparr>) else None)"
| "api_step maxStreams (ListenGRPC r) s =
     (if ap_phase s = Starting \<and> ap_http s \<noteq> HttpNew
      then Some (case r of None \<Rightarrow> s\<lparr>ap_phase := Serving\<rparr>
                 | Some err \<Rightarrow> s\<lparr>ap_phase := Ended 1, ap_http := HttpDown, ap_requests := [], ap_dbClosed := True\<rparr>)
      else None)"
| "api_step maxStreams HttpListens s =
     (if ap_phase s \<le> StoppingGRPC \<and> ap_http s = HttpStarting then Some (s\<lparr>ap_http := HttpListening\<rparr>) else None)"
| "api_step maxStreams (HttpListenFails err) s =
     (if ap_phase s \<le> StoppingGRPC \<and> ap_http s = HttpStarting then Some (s\<lparr>ap_http := HttpDown\<rparr>) else None)"
| "api_step maxStreams (StreamOpens conn r) s =
     (if ap_phase s = Serving \<and> (conn, r) \<notin> set (ap_streams s) \<and>
         length (filter (\<lambda>(c, _). c = conn) (ap_streams s)) < maxStreams
      then Some (s\<lparr>ap_streams := ap_streams s @ [(conn, r)]\<rparr>) else None)"
| "api_step maxStreams (TokenArrives conn t) s =
     (if (conn, pt_RequestID t) \<in> set (ap_streams s)
      then Some (s\<lparr>ap_got := (ap_got s)(pt_RequestID t := ap_got s (pt_RequestID t) @ [t])\<rparr>) else None)"
| "api_step maxStreams (StreamEnds conn r) s =
     (if (conn, r) \<in> set (ap_streams s) then Some (s\<lparr>ap_streams := remove1 (conn, r) (ap_streams s)\<rparr>) else None)"
| "api_step maxStreams (RequestArrives r) s =
     (if ap_phase s \<le> StoppingGRPC \<and> ap_http s = HttpListening \<and> r \<notin> set (ap_requests s)
      then Some (s\<lparr>ap_requests := ap_requests s @ [r]\<rparr>) else None)"
| "api_step maxStreams (RequestEnds r) s =
     (if r \<in> set (ap_requests s) then Some (s\<lparr>ap_requests := remove1 r (ap_requests s)\<rparr>) else None)"
| "api_step maxStreams Signal s =
     (if ap_phase s = Serving then Some (s\<lparr>ap_phase := StoppingGRPC\<rparr>) else None)"
| "api_step maxStreams GracefulStopReturns s =
     (if ap_phase s = StoppingGRPC \<and> ap_streams s = [] then Some (s\<lparr>ap_phase := StoppingHTTP, ap_http := HttpDown\<rparr>) else None)"
| "api_step maxStreams ShutdownReturns s =
     (if ap_phase s = StoppingHTTP \<and> ap_requests s = [] then Some (s\<lparr>ap_phase := ClosingDB\<rparr>) else None)"
| "api_step maxStreams DBCloses s =
     (if ap_phase s = ClosingDB then Some (s\<lparr>ap_phase := Ended 0, ap_dbClosed := True\<rparr>) else None)"
| "api_step maxStreams StopDeadline s =
     (if ap_phase s \<in> {StoppingGRPC, StoppingHTTP, ClosingDB}
      then Some (s\<lparr>ap_phase := Ended 1, ap_http := HttpDown, ap_streams := [], ap_requests := []\<rparr>) else None)"

fun api_run :: "nat \<Rightarrow> api_event list \<Rightarrow> api_process \<Rightarrow> api_process option" where
  "api_run maxStreams [] s = Some s"
| "api_run maxStreams (ev # evs) s =
     (case api_step maxStreams ev s of None \<Rightarrow> None | Some s' \<Rightarrow> api_run maxStreams evs s')"

lemma api_run_append:
  "api_run maxStreams (evs @ evs') s =
     (case api_run maxStreams evs s of None \<Rightarrow> None | Some s' \<Rightarrow> api_run maxStreams evs' s')"
  by (induction evs arbitrary: s) (auto split: option.split)

section \<open>Invariants\<close>

definition api_inv :: "nat \<Rightarrow> api_process \<Rightarrow> bool" where
  "api_inv maxStreams s \<longleftrightarrow>
     (ap_phase s \<in> {Starting, StoppingHTTP, ClosingDB, Ended 0} \<longrightarrow> ap_streams s = []) \<and>
     (ap_phase s \<in> {ClosingDB, Ended 0} \<longrightarrow> ap_requests s = []) \<and>
     (ap_phase s = Ended 0 \<longrightarrow> ap_dbClosed s) \<and> (ap_dbClosed s \<longrightarrow> ap_phase s \<in> {Ended 0, Ended 1}) \<and>
     distinct (ap_streams s) \<and>
     (\<forall>conn. length (filter (\<lambda>(c, _). c = conn) (ap_streams s)) \<le> maxStreams)"

lemma api_inv_New: "api_inv maxStreams api_New"
  by (simp add: api_inv_def api_New_def)

lemma length_filter_remove1: "length (filter P (remove1 x xs)) \<le> length (filter P xs)"
  by (induction xs) auto

lemma api_inv_step:
  assumes "api_step maxStreams ev s = Some s'" and "api_inv maxStreams s"
  shows "api_inv maxStreams s'"
proof (cases ev)
  case (StreamEnds conn r)
  have "length (filter (\<lambda>(c, _). c = conn') (remove1 (conn, r) (ap_streams s))) \<le> maxStreams" for conn'
    using assms(2) by (simp add: api_inv_def le_trans [OF length_filter_remove1])
  with StreamEnds assms show ?thesis
    by (simp add: api_inv_def split: if_splits) clarsimp
next
  case (ListenGRPC x)
  with assms show ?thesis
    by (cases x) (simp_all add: api_inv_def split: if_splits, clarsimp+)
next
  case (RequestArrives r)
  then have "ap_phase s \<notin> {ClosingDB, Ended 0}" and "s' = s\<lparr>ap_requests := ap_requests s @ [r]\<rparr>"
    using assms(1) by (auto simp: less_eq_api_phase_def split: if_splits)
  with assms(2) show ?thesis
    by (simp add: api_inv_def)
qed (use assms in \<open>simp add: api_inv_def split: if_splits, clarsimp?\<close>)+

lemma api_inv_run: "api_run maxStreams evs s = Some s' \<Longrightarrow> api_inv maxStreams s \<Longrightarrow> api_inv maxStreams s'"
  by (induction evs arbitrary: s) (auto split: option.splits intro: api_inv_step)

text \<open>The phases only go forward; once it stops, the server opens no stream.\<close>

lemma phase_forward: "api_step maxStreams ev s = Some s' \<Longrightarrow> ap_phase s \<le> ap_phase s'"
  by (cases ev) (auto simp: less_eq_api_phase_def split: if_splits option.splits)

lemma starved_step:
  assumes "api_step maxStreams ev s = Some s'" and "StoppingGRPC \<le> ap_phase s" and "r \<notin> snd ` set (ap_streams s)"
  shows "r \<notin> snd ` set (ap_streams s') \<and> ap_got s' r = ap_got s r"
proof (cases ev)
  case (StreamOpens conn r')
  with assms(1,2) show ?thesis by (simp add: less_eq_api_phase_def split: if_splits)
next
  case (StreamEnds conn r')
  with assms set_remove1_subset [of "(conn, r')" "ap_streams s"] show ?thesis
    by (auto split: if_splits)
next
  case (TokenArrives conn t)
  with assms have "r \<noteq> pt_RequestID t" by (force split: if_splits)
  with TokenArrives assms show ?thesis by (auto split: if_splits)
qed (use assms in \<open>auto split: if_splits option.splits\<close>)

lemma starved_run:
  "api_run maxStreams evs s = Some s' \<Longrightarrow> StoppingGRPC \<le> ap_phase s \<Longrightarrow> r \<notin> snd ` set (ap_streams s) \<Longrightarrow>
     ap_got s' r = ap_got s r"
proof (induction evs arbitrary: s)
  case (Cons ev evs)
  then obtain s1 where s1: "api_step maxStreams ev s = Some s1" "api_run maxStreams evs s1 = Some s'"
    by (auto split: option.splits)
  have "StoppingGRPC \<le> ap_phase s1"
    using Cons.prems(2) phase_forward [OF s1(1)] by (rule order_trans)
  with starved_step [OF s1(1) Cons.prems(2,3)] Cons.IH [OF s1(2)] show ?case by simp
qed simp

text \<open>The phases in which nobody has told the process to stop.\<close>

abbreviation unstopped :: "api_phase \<Rightarrow> bool" where
  "unstopped ph \<equiv> ph \<in> {Starting, Serving, Ended 1}"

lemma down_step:
  assumes "api_step maxStreams ev s = Some s'" and "ap_http s = HttpDown" and "ap_requests s = []" and "unstopped (ap_phase s)"
    and "ev \<noteq> Signal"
  shows "ap_http s' = HttpDown \<and> ap_requests s' = [] \<and> unstopped (ap_phase s')"
  using assms by (cases ev) (auto split: if_splits option.splits)

lemma down_run:
  "api_run maxStreams evs s = Some s' \<Longrightarrow> ap_http s = HttpDown \<Longrightarrow> ap_requests s = [] \<Longrightarrow> unstopped (ap_phase s) \<Longrightarrow>
     Signal \<notin> set evs \<Longrightarrow> ap_requests s' = [] \<and> unstopped (ap_phase s')"
proof (induction evs arbitrary: s)
  case (Cons ev evs)
  then obtain s1 where s1: "api_step maxStreams ev s = Some s1" "api_run maxStreams evs s1 = Some s'"
    by (auto split: option.splits)
  with down_step [OF s1(1) Cons.prems(2-4)] Cons.IH [OF s1(2)] Cons.prems(5) show ?case by auto
qed simp

text \<open>Until a signal comes, and before it listens, the server has no request.\<close>

lemma quiet_step:
  assumes "api_step maxStreams ev s = Some s'" and "unstopped (ap_phase s)" and "ap_http s \<noteq> HttpListening \<Longrightarrow> ap_requests s = []"
    and "ev \<noteq> Signal"
  shows "unstopped (ap_phase s') \<and> (ap_http s' \<noteq> HttpListening \<longrightarrow> ap_requests s' = [])"
  using assms by (cases ev) (auto split: if_splits option.splits)

lemma quiet_run:
  "api_run maxStreams evs s = Some s' \<Longrightarrow> unstopped (ap_phase s) \<Longrightarrow> (ap_http s \<noteq> HttpListening \<Longrightarrow> ap_requests s = []) \<Longrightarrow>
     Signal \<notin> set evs \<Longrightarrow> unstopped (ap_phase s') \<and> (ap_http s' \<noteq> HttpListening \<longrightarrow> ap_requests s' = [])"
proof (induction evs arbitrary: s)
  case (Cons ev evs)
  then obtain s1 where s1: "api_step maxStreams ev s = Some s1" "api_run maxStreams evs s1 = Some s'"
    by (auto split: option.splits)
  with quiet_step [OF s1(1) Cons.prems(2,3)] Cons.IH [OF s1(2)] Cons.prems(4) show ?case by auto
qed simp

lemma started_run:
  "api_run maxStreams evs s = Some s' \<Longrightarrow> ap_phase s = Starting \<or> ap_phase s = Serving \<Longrightarrow> Signal \<notin> set evs \<Longrightarrow>
     ap_phase s' = Starting \<or> ap_phase s' = Serving \<or> (\<exists>e. ListenGRPC (Some e) \<in> set evs)"
proof (induction evs arbitrary: s)
  case (Cons ev evs)
  then obtain s1 where s1: "api_step maxStreams ev s = Some s1" "api_run maxStreams evs s1 = Some s'"
    by (auto split: option.splits)
  have "ap_phase s1 = Starting \<or> ap_phase s1 = Serving \<or> (\<exists>e. ev = ListenGRPC (Some e))"
    using s1(1) Cons.prems(2,3) by (cases ev) (auto split: if_splits option.splits)
  with Cons.IH [OF s1(2)] Cons.prems(3) show ?case by auto
qed simp

section \<open>Properties\<close>



text \<open>
  (C38) While it stops, the server accepts requests whose replies it has begun to refuse: it stops the gRPC
  server first, and the HTTP server only when the last stream has ended.  A request that has no
  stream when the signal comes, in particular one that arrives afterwards, never gets another token,
  whatever happens until the process ends.
\<close>

theorem stop_starves_requests:
  assumes "api_run maxStreams before api_New = Some s" and "r \<notin> snd ` set (ap_streams s)"
    and "api_run maxStreams (before @ Signal # after) api_New = Some s'"
  shows "ap_got s' r = ap_got s r"
proof -
  obtain s1 where "api_step maxStreams Signal s = Some s1" and run: "api_run maxStreams after s1 = Some s'"
    using assms(1,3) by (auto simp: api_run_append split: option.splits)
  then have "s1 = s\<lparr>ap_phase := StoppingGRPC\<rparr>" by (simp split: if_splits)
  with starved_run [OF run, of r] assms(2) show ?thesis by simp
qed

text \<open>
  Two requests: the first has its stream when the signal comes; the second arrives after it and is
  accepted, and the process ends at the deadline.
\<close>

theorem stop_starves_requests_witness:
  "\<exists>s'. api_run 1000 ([StartHTTP, ListenGRPC None, HttpListens, RequestArrives ''r1'', StreamOpens 0 ''r1''] @
        Signal # [RequestArrives ''r2'', TokenArrives 0 \<lparr>pt_RequestID = ''r1'', pt_Delta = ''a'', pt_Done = False\<rparr>,
          StopDeadline]) api_New = Some s' \<and>
     ap_got s' ''r2'' = [] \<and> length (ap_got s' ''r1'') = 1 \<and> ap_phase s' = Ended 1"
proof -
  let ?before = "[StartHTTP, ListenGRPC None, HttpListens, RequestArrives ''r1'', StreamOpens 0 ''r1'']"
  let ?after = "[RequestArrives ''r2'', TokenArrives 0 \<lparr>pt_RequestID = ''r1'', pt_Delta = ''a'', pt_Done = False\<rparr>, StopDeadline]"
  obtain s where s: "api_run 1000 ?before api_New = Some s" and st: "''r2'' \<notin> snd ` set (ap_streams s)" and g: "ap_got s ''r2'' = []"
    by (simp add: api_New_def less_eq_api_phase_def)
  obtain s' where s': "api_run 1000 (?before @ Signal # ?after) api_New = Some s'"
    and e: "length (ap_got s' ''r1'') = 1" "ap_phase s' = Ended 1"
    by (simp add: api_New_def less_eq_api_phase_def)
  from stop_starves_requests [OF s st s'] s' e g show ?thesis by auto
qed

text \<open>
  A port of the HTTP server that is taken goes unnoticed: the error of \<open>ListenAndServe\<close> is dropped
  and \<open>OnStart\<close> succeeds all the same; once the gRPC server listens, the process goes on, serving
  nobody, until it is told to stop.
\<close>

theorem http_failure_unnoticed:
  assumes "api_run maxStreams (before @ HttpListenFails err # after) api_New = Some s"
    and "Signal \<notin> set (before @ after)"
  shows "ap_requests s = [] \<and> (ap_phase s = Starting \<or> ap_phase s = Serving \<or> (\<exists>e. ListenGRPC (Some e) \<in> set after))"
proof -
  obtain s0 s1 where s0: "api_run maxStreams before api_New = Some s0" and s1: "api_step maxStreams (HttpListenFails err) s0 = Some s1"
    and run: "api_run maxStreams after s1 = Some s"
    using assms(1) by (auto simp: api_run_append split: option.splits)
  from s1 have h: "ap_phase s0 \<le> StoppingGRPC" "ap_http s0 = HttpStarting" "s1 = s0\<lparr>ap_http := HttpDown\<rparr>"
    by (auto split: if_splits)
  moreover have "unstopped (ap_phase s0)" "ap_requests s0 = []"
    using quiet_run [OF s0] h(2) assms(2) by (auto simp: api_New_def)
  ultimately have "ap_http s1 = HttpDown" "ap_requests s1 = []" "ap_phase s1 = Starting \<or> ap_phase s1 = Serving"
    by (auto simp: less_eq_api_phase_def)
  with down_run [OF run] started_run [OF run] assms(2) show ?thesis by auto
qed

theorem http_failure_unnoticed_witness:
  "\<exists>s. api_run 1000 ([StartHTTP] @ HttpListenFails (ErrText ''address in use'') # [ListenGRPC None, StreamOpens 0 ''r1'']) api_New = Some s \<and>
     ap_phase s = Serving \<and> ap_requests s = []"
proof -
  let ?e = "HttpListenFails (ErrText ''address in use'')"
  obtain s where s: "api_run 1000 ([StartHTTP] @ ?e # [ListenGRPC None, StreamOpens 0 ''r1'']) api_New = Some s"
    and "ap_phase s = Serving"
    by (simp add: api_New_def less_eq_api_phase_def)
  with http_failure_unnoticed [OF s] show ?thesis by simp
qed

end
