(* ===== verification/PubSubStream.thy ===== *)
theory PubSubStream
  imports Wire
begin

text \<open>
  \<open>cache/pubsub_stream.go\<close>: one Redis subscription per session, handed from request to request.
  Callers of \<open>Subscribe\<close> and the dispatch goroutines run concurrently; the model is a machine over
  a list of events, one per critical section, Redis round trip or channel operation
  (\<open>pb_step\<close> executes one, \<open>None\<close> when the thread is not there).  Redis is not code of the
  repository: what a round trip answers and which messages arrive are the events' arguments.
\<close>

section \<open>Messages\<close>

definition pubsub_key :: "string \<Rightarrow> string" where
  "pubsub_key sessionID = ''pubsub:session:'' @ sessionID"

text \<open>\<open>json.Marshal\<close> of the map: its keys in order.\<close>

definition publish_payload :: "string \<Rightarrow> string \<Rightarrow> bool \<Rightarrow> string" where
  "publish_payload requestID delta done' = print_json (JObj
     [(''delta'', JStr delta), (''done'', JStr (if done' then ''1'' else ''0'')),
      (''request_id'', JStr requestID)])"

definition pubsub_Publish ::
  "(string \<Rightarrow> string \<Rightarrow> ('d, unit) go_call) \<Rightarrow> string \<Rightarrow> string \<Rightarrow> string \<Rightarrow> bool \<Rightarrow> ('d, unit) go_call" where
  "pubsub_Publish redis_publish sessionID requestID delta done' =
     redis_publish (pubsub_key sessionID) (publish_payload requestID delta done')"

definition payload_token :: "string \<Rightarrow> PubSubToken option" where
  "payload_token payload =
     (case Unmarshal_map payload of
        None \<Rightarrow> None
      | Some data \<Rightarrow> Some \<lparr>pt_RequestID = str_at data ''request_id'', pt_Delta = str_at data ''delta'',
                          pt_Done = (str_at data ''done'' = ''1'')\<rparr>)"

section \<open>The subscriptions\<close>

type_synonym sub_ref = nat

type_synonym ch_ref = nat

text \<open>A call of \<open>Subscribe\<close>, and the dispatch goroutine of a subscription.\<close>

datatype subscribe_pc =
    SubIdle
  | SubReceiving string sub_ref
  | SubLive string sub_ref
  | SubDone sub_ref ch_ref
  | SubFailed

datatype dispatch_pc = NoDispatch | DispReading | DispSending PubSubToken ch_ref | DispClosing | DispGone

text \<open>
  \<open>sessionSub\<close> is split into \<open>pb_current\<close> and \<open>pb_dead\<close>; \<open>pb_sid\<close> is the session a
  dispatch goroutine closes over.
\<close>

record PubSubStream =
  pb_sessions :: "string \<rightharpoonup> sub_ref"
  pb_current :: "sub_ref \<Rightarrow> ch_ref option"
  pb_dead :: "sub_ref \<Rightarrow> bool"
  pb_sid :: "sub_ref \<Rightarrow> string"
  pb_disp :: "sub_ref \<Rightarrow> dispatch_pc"
  pb_nextsub :: sub_ref
  pb_chans :: "ch_ref \<Rightarrow> PubSubToken list"
  pb_nextch :: ch_ref
  pb_calls :: "nat \<Rightarrow> subscribe_pc"

definition NewPubSubStream :: PubSubStream where
  "NewPubSubStream =
     \<lparr>pb_sessions = Map.empty, pb_current = (\<lambda>_. None), pb_dead = (\<lambda>_. False), pb_sid = (\<lambda>_. []),
      pb_disp = (\<lambda>_. NoDispatch), pb_nextsub = 0, pb_chans = (\<lambda>_. []), pb_nextch = 0,
      pb_calls = (\<lambda>_. SubIdle)\<rparr>"

definition pubsub_capacity :: nat where
  "pubsub_capacity = 100"

text \<open>\<open>getOrCreate\<close> under the lock: a live subscription, or a new one registered before Redis answers.\<close>

definition pb_lookup :: "nat \<Rightarrow> string \<Rightarrow> PubSubStream \<Rightarrow> PubSubStream" where
  "pb_lookup i sessionID s =
     (case pb_sessions s sessionID of
        Some ss \<Rightarrow>
          if \<not> pb_dead s ss then s\<lparr>pb_calls := (pb_calls s)(i := SubLive sessionID ss)\<rparr>
          else let n = pb_nextsub s in
            s\<lparr>pb_sessions := (pb_sessions s)(sessionID \<mapsto> n), pb_nextsub := Suc n,
              pb_sid := (pb_sid s)(n := sessionID), pb_calls := (pb_calls s)(i := SubReceiving sessionID n)\<rparr>
      | None \<Rightarrow>
          let n = pb_nextsub s in
            s\<lparr>pb_sessions := (pb_sessions s)(sessionID \<mapsto> n), pb_nextsub := Suc n,
              pb_sid := (pb_sid s)(n := sessionID), pb_calls := (pb_calls s)(i := SubReceiving sessionID n)\<rparr>)"

text \<open>The answer of \<open>ps.Receive\<close>: the dispatch goroutine starts, or the entry is deleted.\<close>

definition pb_receive :: "nat \<Rightarrow> bool \<Rightarrow> PubSubStream \<Rightarrow> PubSubStream option" where
  "pb_receive i ok s =
     (case pb_calls s i of
        SubReceiving sessionID ss \<Rightarrow>
          Some (if ok then s\<lparr>pb_disp := (pb_disp s)(ss := DispReading),
                             pb_calls := (pb_calls s)(i := SubLive sessionID ss)\<rparr>
                else s\<lparr>pb_sessions := (pb_sessions s)(sessionID := None),
                       pb_calls := (pb_calls s)(i := SubFailed)\<rparr>)
      | _ \<Rightarrow> None)"

text \<open>\<open>Subscribe\<close> makes its channel the current one; \<open>cleanup\<close> undoes it if it still is.\<close>

definition pb_set_current :: "nat \<Rightarrow> PubSubStream \<Rightarrow> PubSubStream option" where
  "pb_set_current i s =
     (case pb_calls s i of
        SubLive sessionID ss \<Rightarrow>
          let ch = pb_nextch s in
          Some (s\<lparr>pb_current := (pb_current s)(ss := Some ch), pb_nextch := Suc ch,
                  pb_chans := (pb_chans s)(ch := []), pb_calls := (pb_calls s)(i := SubDone ss ch)\<rparr>)
      | _ \<Rightarrow> None)"

definition pb_cleanup :: "nat \<Rightarrow> PubSubStream \<Rightarrow> PubSubStream option" where
  "pb_cleanup i s =
     (case pb_calls s i of
        SubDone ss ch \<Rightarrow>
          Some (if pb_current s ss = Some ch then s\<lparr>pb_current := (pb_current s)(ss := None)\<rparr> else s)
      | _ \<Rightarrow> None)"

text \<open>The dispatch goroutine: a message, a send into the channel it got, the end of the subscription.\<close>

definition pb_message :: "sub_ref \<Rightarrow> string \<Rightarrow> PubSubStream \<Rightarrow> PubSubStream option" where
  "pb_message ss payload s =
     (if pb_disp s ss = DispReading then
        Some (case payload_token payload of
                None \<Rightarrow> s
              | Some token \<Rightarrow>
                  (case pb_current s ss of
                     None \<Rightarrow> s
                   | Some ch \<Rightarrow> s\<lparr>pb_disp := (pb_disp s)(ss := DispSending token ch)\<rparr>))
      else None)"

definition pb_send :: "sub_ref \<Rightarrow> PubSubStream \<Rightarrow> PubSubStream option" where
  "pb_send ss s =
     (case pb_disp s ss of
        DispSending token ch \<Rightarrow>
          if length (pb_chans s ch) < pubsub_capacity
          then Some (s\<lparr>pb_chans := (pb_chans s)(ch := pb_chans s ch @ [token]),
                       pb_disp := (pb_disp s)(ss := DispReading)\<rparr>)
          else None
      | _ \<Rightarrow> None)"

definition pb_disconnect :: "sub_ref \<Rightarrow> PubSubStream \<Rightarrow> PubSubStream option" where
  "pb_disconnect ss s =
     (if pb_disp s ss = DispReading
      then Some (s\<lparr>pb_dead := (pb_dead s)(ss := True), pb_disp := (pb_disp s)(ss := DispClosing)\<rparr>)
      else None)"

definition pb_delete :: "sub_ref \<Rightarrow> PubSubStream \<Rightarrow> PubSubStream option" where
  "pb_delete ss s =
     (if pb_disp s ss = DispClosing
      then Some (s\<lparr>pb_sessions := (pb_sessions s)(pb_sid s ss := None),
                   pb_disp := (pb_disp s)(ss := DispGone)\<rparr>)
      else None)"

datatype pb_event =
    PbLookup nat string
  | PbReceive nat bool
  | PbSetCurrent nat
  | PbCleanup nat
  | PbMessage sub_ref string
  | PbSend sub_ref
  | PbDisconnect sub_ref
  | PbDelete sub_ref
  | PbRecv ch_ref

text \<open>A step, with what the reader of a channel got.\<close>

fun pb_step :: "pb_event \<Rightarrow> PubSubStream \<Rightarrow> ((ch_ref \<times> PubSubToken) list \<times> PubSubStream) option" where
  "pb_step (PbLookup i sessionID) s =
     (if pb_calls s i = SubIdle then Some ([], pb_lookup i sessionID s) else None)"
| "pb_step (PbReceive i ok) s = map_option (Pair []) (pb_receive i ok s)"
| "pb_step (PbSetCurrent i) s = map_option (Pair []) (pb_set_current i s)"
| "pb_step (PbCleanup i) s = map_option (Pair []) (pb_cleanup i s)"
| "pb_step (PbMessage ss payload) s = map_option (Pair []) (pb_message ss payload s)"
| "pb_step (PbSend ss) s = map_option (Pair []) (pb_send ss s)"
| "pb_step (PbDisconnect ss) s = map_option (Pair []) (pb_disconnect ss s)"
| "pb_step (PbDelete ss) s = map_option (Pair []) (pb_delete ss s)"
| "pb_step (PbRecv ch) s =
     (case pb_chans s ch of
        [] \<Rightarrow> None
      | t # ts \<Rightarrow> Some ([(ch, t)], s\<lparr>pb_chans := (pb_chans s)(ch := ts)\<rparr>))"

fun pb_run :: "pb_event list \<Rightarrow> PubSubStream \<Rightarrow> ((ch_ref \<times> PubSubToken) list \<times> PubSubStream) option" where
  "pb_run [] s = Some ([], s)"
| "pb_run (ev # evs) s =
     (case pb_step ev s of
        None \<Rightarrow> None
      | Some (l, s') \<Rightarrow> (case pb_run evs s' of None \<Rightarrow> None | Some (l', s'') \<Rightarrow> Some (l @ l', s'')))"

lemmas pb_defs = pb_lookup_def pb_receive_def pb_set_current_def pb_cleanup_def pb_message_def pb_send_def
  pb_disconnect_def pb_delete_def Let_def

section \<open>A published token is the one received\<close>

lemma payload_token_payload:
  "payload_token (publish_payload rid delta d) =
     Some \<lparr>pt_RequestID = to_valid_utf8 rid, pt_Delta = to_valid_utf8 delta, pt_Done = d\<rparr>"
proof -
  have "parse_json (publish_payload rid delta d) = Some (utf8_json (JObj
     [(''delta'', JStr delta), (''done'', JStr (if d then ''1'' else ''0'')), (''request_id'', JStr rid)]))"
    unfolding publish_payload_def by (rule parse_print_json) (simp_all add: max_depth_def)
  then show ?thesis
    by (simp add: payload_token_def Unmarshal_map_def str_at_def to_valid_utf8_ascii ascii_def byte_def)
qed

section \<open>Dispatch to the current channel\<close>

text \<open>The tokens of the messages that arrive for a subscription, and what a channel's reader got.\<close>

fun arrived :: "sub_ref \<Rightarrow> pb_event \<Rightarrow> PubSubToken list" where
  "arrived ss (PbMessage ss' payload) =
     (if ss' = ss then (case payload_token payload of None \<Rightarrow> [] | Some t \<Rightarrow> [t]) else [])"
| "arrived ss _ = []"

definition all_arrived :: "sub_ref \<Rightarrow> pb_event list \<Rightarrow> PubSubToken list" where
  "all_arrived ss evs = concat (map (arrived ss) evs)"

definition got :: "ch_ref \<Rightarrow> (ch_ref \<times> PubSubToken) list \<Rightarrow> PubSubToken list" where
  "got ch l = map snd (filter (\<lambda>(c, t). c = ch) l)"

lemma got_simps [simp]:
  "got ch [] = []" "got ch ((c, t) # l) = (if c = ch then t # got ch l else got ch l)"
  "got ch (l @ l') = got ch l @ got ch l'"
  by (simp_all add: got_def)

definition in_hand_of :: "dispatch_pc \<Rightarrow> PubSubToken list" where
  "in_hand_of pc = (case pc of DispSending t ch \<Rightarrow> [t] | _ \<Rightarrow> [])"

text \<open>Only this subscription uses the channel, and its goroutine has been started.\<close>

definition sole_user :: "sub_ref \<Rightarrow> ch_ref \<Rightarrow> PubSubStream \<Rightarrow> bool" where
  "sole_user ss ch s \<longleftrightarrow> pb_current s ss = Some ch \<and> ss < pb_nextsub s \<and>
     (\<forall>ss'. pb_current s ss' = Some ch \<longrightarrow> ss' = ss) \<and>
     (\<forall>ss' t. pb_disp s ss' = DispSending t ch \<longrightarrow> ss' = ss) \<and>
     (\<forall>t c. pb_disp s ss = DispSending t c \<longrightarrow> c = ch) \<and>
     (\<forall>i sid. pb_calls s i \<noteq> SubReceiving sid ss)"

definition hands_over :: "pb_event \<Rightarrow> bool" where
  "hands_over ev \<longleftrightarrow> (\<exists>i. ev = PbSetCurrent i \<or> ev = PbCleanup i)"

lemma sole_userD:
  assumes "sole_user ss ch s"
  shows "pb_current s ss = Some ch" and "ss < pb_nextsub s" and "pb_current s ss' = Some ch \<Longrightarrow> ss' = ss"
    and "pb_disp s ss' = DispSending t ch \<Longrightarrow> ss' = ss" and "pb_disp s ss = DispSending t c \<Longrightarrow> c = ch"
    and "pb_calls s i \<noteq> SubReceiving sid ss"
  using assms unfolding sole_user_def by blast+

lemma sole_userI:
  assumes "pb_current s ss = Some ch" and "ss < pb_nextsub s" and "\<And>ss'. pb_current s ss' = Some ch \<Longrightarrow> ss' = ss"
    and "\<And>ss' t. pb_disp s ss' = DispSending t ch \<Longrightarrow> ss' = ss"
    and "\<And>t c. pb_disp s ss = DispSending t c \<Longrightarrow> c = ch" and "\<And>i sid. pb_calls s i \<noteq> SubReceiving sid ss"
  shows "sole_user ss ch s"
  using assms unfolding sole_user_def by blast

lemma sole_user_idle:
  assumes "sole_user ss ch s" and "pb_current s' = pb_current s" and "pb_nextsub s \<le> pb_nextsub s'"
    and "\<And>ss'. pb_disp s' ss' = pb_disp s ss' \<or> (\<forall>t c. pb_disp s' ss' \<noteq> DispSending t c)"
    and "\<And>i sid. pb_calls s' i \<noteq> SubReceiving sid ss"
  shows "sole_user ss ch s'"
proof (rule sole_userI)
  note u = sole_userD [OF assms(1)]
  show "ss' = ss" if "pb_disp s' ss' = DispSending t ch" for ss' t
    using assms(4) [of ss'] that u(4) [of ss' t] by auto
  show "c = ch" if "pb_disp s' ss = DispSending t c" for t c
    using assms(4) [of ss] that u(5) [of t c] by auto
  show "pb_current s' ss = Some ch" "ss < pb_nextsub s'"
    using u(1,2) assms(2,3) by auto
  show "ss' = ss" if "pb_current s' ss' = Some ch" for ss'
    using u(3) assms(2) that by simp
  show "pb_calls s' i \<noteq> SubReceiving sid ss" for i sid by (rule assms(5))
qed

lemma sole_user_sending:
  assumes "sole_user ss ch s" and "c = ch \<longleftrightarrow> ss' = ss"
  shows "sole_user ss ch (s\<lparr>pb_disp := (pb_disp s)(ss' := DispSending t c)\<rparr>)"
proof (rule sole_userI)
  let ?s = "s\<lparr>pb_disp := (pb_disp s)(ss' := DispSending t c)\<rparr>"
  note u = sole_userD [OF assms(1)]
  show "pb_current ?s ss = Some ch" "ss < pb_nextsub ?s" "pb_calls ?s i \<noteq> SubReceiving sid ss" for i sid
    using u(1,2,6) by simp_all
  show "ss'' = ss" if "pb_current ?s ss'' = Some ch" for ss''
    using u(3) that by simp
  show "ss'' = ss" if "pb_disp ?s ss'' = DispSending t' ch" for ss'' t'
  proof (cases "ss'' = ss'")
    case True
    with that assms(2) show ?thesis by simp
  next
    case False
    with that u(4) show ?thesis by simp
  qed
  show "c' = ch" if "pb_disp ?s ss = DispSending t' c'" for t' c'
  proof (cases "ss = ss'")
    case True
    with that assms(2) show ?thesis by simp
  next
    case False
    with that u(5) show ?thesis by simp
  qed
qed

text \<open>One step: the subscription keeps the channel, and the channel and the goroutine the tokens.\<close>

definition keeps_tokens :: "sub_ref \<Rightarrow> ch_ref \<Rightarrow> pb_event \<Rightarrow> (ch_ref \<times> PubSubToken) list \<Rightarrow> PubSubStream \<Rightarrow> PubSubStream \<Rightarrow> bool" where
  "keeps_tokens ss ch ev l s s' \<longleftrightarrow> sole_user ss ch s' \<and>
     got ch l @ pb_chans s' ch @ in_hand_of (pb_disp s' ss) =
     pb_chans s ch @ in_hand_of (pb_disp s ss) @ arrived ss ev"

lemma lookup_keeps:
  assumes "sole_user ss ch s"
  shows "keeps_tokens ss ch (PbLookup i sid) [] s (pb_lookup i sid s)"
proof -
  note u = sole_userD [OF assms]
  have "sole_user ss ch (pb_lookup i sid s)"
    by (rule sole_user_idle [OF assms]) (use u(2,6) in \<open>auto simp: pb_lookup_def Let_def split: option.split\<close>)
  then show ?thesis
    by (simp add: keeps_tokens_def pb_lookup_def Let_def split: option.split)
qed

lemma receive_keeps:
  assumes "sole_user ss ch s" and "pb_receive i ok s = Some s'"
  shows "keeps_tokens ss ch (PbReceive i ok) [] s s'"
proof -
  note u = sole_userD [OF assms(1)]
  obtain sid n where c: "pb_calls s i = SubReceiving sid n"
    using assms(2) by (auto simp: pb_receive_def split: subscribe_pc.splits)
  have n: "n \<noteq> ss" using u(6) [of i sid] c by auto
  have "sole_user ss ch s'"
    by (rule sole_user_idle [OF assms(1)]) (use u(6) c assms(2) in \<open>auto simp: pb_receive_def split: if_splits\<close>)
  with n c assms(2) show ?thesis
    by (auto simp: keeps_tokens_def pb_receive_def split: if_splits)
qed

lemma message_keeps:
  assumes "sole_user ss ch s" and "pb_message ss' payload s = Some s'"
  shows "keeps_tokens ss ch (PbMessage ss' payload) [] s s'"
proof -
  note u = sole_userD [OF assms(1)]
  have r: "pb_disp s ss' = DispReading" using assms(2) by (simp add: pb_message_def split: if_splits)
  show ?thesis
  proof (cases "payload_token payload")
    case None
    with assms r show ?thesis by (auto simp: keeps_tokens_def pb_message_def)
  next
    case (Some t)
    show ?thesis
    proof (cases "ss' = ss")
      case True
      with Some r u(1) assms(2) have s': "s' = s\<lparr>pb_disp := (pb_disp s)(ss := DispSending t ch)\<rparr>"
        by (simp add: pb_message_def)
      have "sole_user ss ch s'"
        unfolding s' by (rule sole_user_sending [OF assms(1)]) simp
      with s' Some True r show ?thesis by (simp add: keeps_tokens_def in_hand_of_def)
    next
      case False
      with u(3) [of ss'] have "pb_current s ss' \<noteq> Some ch" by blast
      then have "sole_user ss ch s'"
        using assms Some r False sole_user_sending [OF assms(1), of _ ss' t]
        by (auto simp: pb_message_def split: option.splits)
      with False Some r assms(2) show ?thesis
        by (auto simp: keeps_tokens_def pb_message_def split: option.splits)
    qed
  qed
qed

lemma send_keeps:
  assumes "sole_user ss ch s" and "pb_send ss' s = Some s'"
  shows "keeps_tokens ss ch (PbSend ss') [] s s'"
proof -
  note u = sole_userD [OF assms(1)]
  obtain t c where d: "pb_disp s ss' = DispSending t c"
    and s': "s' = s\<lparr>pb_chans := (pb_chans s)(c := pb_chans s c @ [t]), pb_disp := (pb_disp s)(ss' := DispReading)\<rparr>"
    using assms(2) by (auto simp: pb_send_def split: dispatch_pc.splits if_splits)
  have "sole_user ss ch s'"
    by (rule sole_user_idle [OF assms(1)]) (use u(6) s' in auto)
  moreover have "c = ch \<longleftrightarrow> ss' = ss"
    using u(4) [of ss' t] u(5) [of t c] d by auto
  ultimately show ?thesis
    using d by (auto simp: keeps_tokens_def s' in_hand_of_def)
qed

lemma close_keeps:
  assumes "sole_user ss ch s" and "pb_disconnect ss' s = Some s' \<and> ev = PbDisconnect ss' \<or> pb_delete ss' s = Some s' \<and> ev = PbDelete ss'"
  shows "keeps_tokens ss ch ev [] s s'"
proof -
  have "sole_user ss ch s'"
    by (rule sole_user_idle [OF assms(1)])
      (use assms(2) sole_userD(6) [OF assms(1)] in \<open>auto simp: pb_disconnect_def pb_delete_def split: if_splits\<close>)
  with assms(2) show ?thesis
    by (auto simp: keeps_tokens_def pb_disconnect_def pb_delete_def in_hand_of_def split: if_splits)
qed

lemma dispatch_step:
  assumes "sole_user ss ch s" and "\<not> hands_over ev" and "pb_step ev s = Some (l, s')"
  shows "keeps_tokens ss ch ev l s s'"
proof (cases ev)
  case (PbRecv c)
  then obtain t ts where r: "pb_chans s c = t # ts" "l = [(c, t)]" "s' = s\<lparr>pb_chans := (pb_chans s)(c := ts)\<rparr>"
    using assms(3) by (auto split: list.splits)
  have "sole_user ss ch s'"
    by (rule sole_user_idle [OF assms(1)]) (use r sole_userD(6) [OF assms(1)] in auto)
  with PbRecv r show ?thesis by (auto simp: keeps_tokens_def)
next
  case (PbLookup i sid)
  with lookup_keeps [OF assms(1)] assms(3) show ?thesis by (auto split: if_splits)
qed (use assms receive_keeps message_keeps send_keeps close_keeps in \<open>auto simp: hands_over_def\<close>)

lemma dispatch_run:
  "pb_run evs s = Some (l, s') \<Longrightarrow> sole_user ss ch s \<Longrightarrow> (\<And>ev. ev \<in> set evs \<Longrightarrow> \<not> hands_over ev) \<Longrightarrow>
     got ch l @ pb_chans s' ch @ in_hand_of (pb_disp s' ss) =
     pb_chans s ch @ in_hand_of (pb_disp s ss) @ all_arrived ss evs"
proof (induction evs arbitrary: s l)
  case (Cons ev evs)
  from Cons.prems(1) obtain l1 s1 l2 where st: "pb_step ev s = Some (l1, s1)" "pb_run evs s1 = Some (l2, s')"
    and l: "l = l1 @ l2"
    by (auto split: option.splits)
  have h: "\<not> hands_over ev" using Cons.prems(3) by simp
  note step = dispatch_step [OF Cons.prems(2) h st(1), unfolded keeps_tokens_def, THEN conjunct1]
    dispatch_step [OF Cons.prems(2) h st(1), unfolded keeps_tokens_def, THEN conjunct2]
  have "got ch l2 @ pb_chans s' ch @ in_hand_of (pb_disp s' ss) =
      pb_chans s1 ch @ in_hand_of (pb_disp s1 ss) @ all_arrived ss evs"
    using Cons.IH [OF st(2) step(1)] Cons.prems(3) by simp
  then have "got ch l @ pb_chans s' ch @ in_hand_of (pb_disp s' ss) =
      (got ch l1 @ pb_chans s1 ch @ in_hand_of (pb_disp s1 ss)) @ all_arrived ss evs"
    by (simp add: l)
  then show ?case by (simp only: step(2)) (simp add: all_arrived_def)
qed (simp add: all_arrived_def)

section \<open>Properties\<close>


definition demo_payload :: "string \<Rightarrow> string" where
  "demo_payload delta = publish_payload ''r1'' delta False"

text \<open>A subscription set up by the first caller.\<close>

definition demo_subscribed :: PubSubStream where
  "demo_subscribed = snd (the (pb_run [PbLookup 0 ''s1'', PbReceive 0 True, PbSetCurrent 0] NewPubSubStream))"


text \<open>
  A dying dispatch goroutine can delete its successor: between closing \<open>dead\<close> and taking the lock to
  delete the session's entry, another caller replaces the dead subscription by a live one; the delete,
  by session id, then removes the live one, so the next caller opens a second subscription of the
  same session: both are served at the same time and every message of the session is dispatched twice.
\<close>

theorem stale_dispatch_deletes_successor:
  "\<exists>l s. pb_run [PbLookup 0 ''s1'', PbReceive 0 True, PbSetCurrent 0, PbDisconnect 0,
        PbLookup 1 ''s1'', PbReceive 1 True, PbSetCurrent 1, PbDelete 0,
        PbLookup 2 ''s1'', PbReceive 2 True, PbSetCurrent 2,
        PbMessage 1 (demo_payload ''a''), PbSend 1, PbMessage 2 (demo_payload ''a''), PbSend 2]
      NewPubSubStream = Some (l, s) \<and>
    pb_disp s 1 = DispReading \<and> pb_disp s 2 = DispReading \<and> pb_sid s 1 = ''s1'' \<and> pb_sid s 2 = ''s1'' \<and>
    map pt_Delta (pb_chans s 1) = [to_valid_utf8 ''a''] \<and> map pt_Delta (pb_chans s 2) = [to_valid_utf8 ''a'']"
  by (simp add: NewPubSubStream_def pb_defs demo_payload_def payload_token_payload pubsub_capacity_def)

text \<open>
  A failed subscription strands whoever shared it: the entry is in the map before Redis has answered,
  so a second caller takes it and gets a channel and no error; when Redis then refuses, the first
  caller gets the error, and the second waits on a channel no goroutine will ever write to.
\<close>

theorem failed_subscribe_strands_other:
  "\<exists>l s. pb_run [PbLookup 0 ''s1'', PbLookup 1 ''s1'', PbSetCurrent 1, PbReceive 0 False] NewPubSubStream
      = Some (l, s) \<and>
    pb_calls s 0 = SubFailed \<and> pb_calls s 1 = SubDone 0 0 \<and> pb_disp s 0 = NoDispatch \<and> \<not> pb_dead s 0"
  by (simp add: NewPubSubStream_def pb_defs)

end
