(* ===== verification/PersistenceWorker.thy ===== *)
theory PersistenceWorker
  imports PersistSession
begin

text \<open>
  \<open>internal/adapter/controller/consumer/persistence.go\<close>: the consumer loop of \<open>Run\<close>,
  the goroutine it spawns when the token threshold is reached, and \<open>runFlusher\<close>, as three
  threads over one state.  A thread moves by atomic steps: a critical section of the use case, one
  call of the store, one \<open>CompareAndSwap\<close>, one result of the Kafka reader.  A schedule is a
  list of events; \<open>pw_step\<close> executes one (\<open>None\<close> when the thread is not there).  A call
  of the store made with a cancelled context returns the context's error.
\<close>

section \<open>A flush, step by step\<close>

datatype flush_phase =
    AtSnapshot
  | AtRead snapshot
  | AtUpsert snapshot "string \<rightharpoonup> string"
  | AtReturn "go_error + unit"

definition flush_step ::
  "(string list \<Rightarrow> ('d, string \<rightharpoonup> string) go_call) \<Rightarrow>
   ((string list \<Rightarrow> string list) \<Rightarrow> Message list \<Rightarrow> ('d, unit) go_call) \<Rightarrow>
   bool \<Rightarrow> flush_orders \<Rightarrow> flush_phase \<Rightarrow> PersistSessionUseCase \<times> 'd \<Rightarrow>
   flush_phase \<times> (PersistSessionUseCase \<times> 'd)" where
  "flush_step get upsert cancelled o' ph = (\<lambda>(uc, d).
     (case ph of
        AtSnapshot \<Rightarrow>
          (case flush_snapshot uc of
             (None, uc') \<Rightarrow> (AtReturn (Inr ()), (uc', d))
           | (Some snap, uc') \<Rightarrow> (AtRead snap, (uc', d)))
      | AtRead snap \<Rightarrow>
          if cancelled then (AtReturn (Inl CtxErr), (uc, d))
          else (case get (flush_ids (ord_ids o') snap) d of
                  (Inl e, d') \<Rightarrow> (AtReturn (Inl e), (uc, d'))
                | (Inr existing, d') \<Rightarrow> (AtUpsert snap existing, (uc, d')))
      | AtUpsert snap existing \<Rightarrow>
          if cancelled then (AtReturn (Inl CtxErr), (uc, d))
          else (case upsert (ord_sessions o') (flush_msgs (ord_msgs o') existing snap) d of
                  (r, d') \<Rightarrow> (AtReturn r, (uc, d')))
      | AtReturn r \<Rightarrow> (AtReturn r, (uc, d))))"

section \<open>The worker\<close>

datatype consumer_pc = Fetching | Committing string | Decoding string | Checking | Swapping | Returned

datatype flusher_pc = Waiting | TickFlush flush_phase | FinalFlush flush_phase | Stopped

datatype log_entry =
    ReadError go_error
  | CommitError go_error
  | UnmarshalError
  | FlushError go_error
  | Flushed

text \<open>\<open>pw_spawned\<close>: the goroutines of the threshold branch; \<open>pw_done\<close>: \<open>ctx.Done()\<close>.\<close>

record 'd PersistenceWorker =
  pw_useCase :: PersistSessionUseCase
  pw_db :: 'd
  pw_flushing :: bool
  pw_done :: bool
  pw_consumer :: consumer_pc
  pw_flusher :: flusher_pc
  pw_spawned :: "flush_phase list"
  pw_committed :: "string list"
  pw_log :: "log_entry list"

definition pw_New :: "'d \<Rightarrow> 'd PersistenceWorker" where
  "pw_New d =
     \<lparr>pw_useCase = NewPersistSession, pw_db = d, pw_flushing = False, pw_done = False,
      pw_consumer = Fetching, pw_flusher = Waiting, pw_spawned = [], pw_committed = [], pw_log = []\<rparr>"

definition persistTokenThreshold :: int where
  "persistTokenThreshold = 500"

datatype pw_event =
    Cancel
  | Fetched string
  | FetchFails go_error
  | CommitReturns "go_error option"
  | Decode
  | Check
  | Swap
  | SpawnedStep nat flush_orders
  | TickerFires
  | DoneSeen
  | FlusherStep flush_orders

text \<open>\<open>flush\<close> logs what \<open>Flush\<close> returned.\<close>

definition flush_entry :: "go_error + unit \<Rightarrow> log_entry" where
  "flush_entry r = (case r of Inl e \<Rightarrow> FlushError e | Inr _ \<Rightarrow> Flushed)"

fun consume :: "consumer_pc \<Rightarrow> pw_event \<Rightarrow> 'd PersistenceWorker \<Rightarrow> 'd PersistenceWorker option" where
  "consume Fetching (Fetched m) s = Some (s\<lparr>pw_consumer := Committing m\<rparr>)"
| "consume Fetching (FetchFails e) s =
     (if pw_done s then Some (s\<lparr>pw_consumer := Returned\<rparr>)
      else Some (s\<lparr>pw_log := pw_log s @ [ReadError e]\<rparr>))"
| "consume (Committing m) (CommitReturns None) s =
     Some (s\<lparr>pw_committed := pw_committed s @ [m], pw_consumer := Decoding m\<rparr>)"
| "consume (Committing m) (CommitReturns (Some e)) s =
     Some (s\<lparr>pw_log := pw_log s @ [CommitError e], pw_consumer := Decoding m\<rparr>)"
| "consume (Decoding m) Decode s =
     (case unmarshal_TokenEvent m of
        None \<Rightarrow> Some (s\<lparr>pw_log := pw_log s @ [UnmarshalError], pw_consumer := Fetching\<rparr>)
      | Some token \<Rightarrow>
          Some (s\<lparr>pw_useCase := AddToken token (pw_useCase s), pw_consumer := Checking\<rparr>))"
| "consume Checking Check s =
     Some (s\<lparr>pw_consumer :=
              if ShouldFlush persistTokenThreshold (pw_useCase s) then Swapping else Fetching\<rparr>)"
| "consume Swapping Swap s =
     (if pw_flushing s then Some (s\<lparr>pw_consumer := Fetching\<rparr>)
      else Some (s\<lparr>pw_flushing := True, pw_spawned := pw_spawned s @ [AtSnapshot],
                   pw_consumer := Fetching\<rparr>))"
| "consume _ _ s = None"

fun_cases consume_cases: "consume pc ev s = Some s'"

definition consumer_step :: "pw_event \<Rightarrow> 'd PersistenceWorker \<Rightarrow> 'd PersistenceWorker option" where
  "consumer_step ev s = consume (pw_consumer s) ev s"

definition spawned_step where
  "spawned_step get upsert i o' s =
     (if i < length (pw_spawned s) then
        (case pw_spawned s ! i of
           AtReturn r \<Rightarrow>
             Some (s\<lparr>pw_spawned := take i (pw_spawned s) @ drop (Suc i) (pw_spawned s),
                     pw_flushing := False, pw_log := pw_log s @ [flush_entry r]\<rparr>)
         | ph \<Rightarrow>
             (case flush_step get upsert (pw_done s) o' ph (pw_useCase s, pw_db s) of
                (ph', (uc', d')) \<Rightarrow>
                  Some (s\<lparr>pw_spawned := (pw_spawned s)[i := ph'], pw_useCase := uc', pw_db := d'\<rparr>)))
      else None)"

definition flusher_step where
  "flusher_step get upsert o' s =
     (case pw_flusher s of
        TickFlush (AtReturn r) \<Rightarrow>
          Some (s\<lparr>pw_flusher := Waiting, pw_flushing := False, pw_log := pw_log s @ [flush_entry r]\<rparr>)
      | TickFlush ph \<Rightarrow>
          (case flush_step get upsert (pw_done s) o' ph (pw_useCase s, pw_db s) of
             (ph', (uc', d')) \<Rightarrow> Some (s\<lparr>pw_flusher := TickFlush ph', pw_useCase := uc', pw_db := d'\<rparr>))
      | FinalFlush (AtReturn r) \<Rightarrow>
          Some (s\<lparr>pw_flusher := Stopped, pw_log := pw_log s @ [flush_entry r]\<rparr>)
      | FinalFlush ph \<Rightarrow>
          (case flush_step get upsert False o' ph (pw_useCase s, pw_db s) of
             (ph', (uc', d')) \<Rightarrow> Some (s\<lparr>pw_flusher := FinalFlush ph', pw_useCase := uc', pw_db := d'\<rparr>))
      | _ \<Rightarrow> None)"

definition pw_step ::
  "(string list \<Rightarrow> ('d, string \<rightharpoonup> string) go_call) \<Rightarrow>
   ((string list \<Rightarrow> string list) \<Rightarrow> Message list \<Rightarrow> ('d, unit) go_call) \<Rightarrow>
   pw_event \<Rightarrow> 'd PersistenceWorker \<Rightarrow> 'd PersistenceWorker option" where
  "pw_step get upsert ev s =
     (case ev of
        Cancel \<Rightarrow> Some (s\<lparr>pw_done := True\<rparr>)
      | SpawnedStep i o' \<Rightarrow> spawned_step get upsert i o' s
      | TickerFires \<Rightarrow>
          (if pw_flusher s = Waiting then
             Some (if pw_flushing s then s
                   else s\<lparr>pw_flushing := True, pw_flusher := TickFlush AtSnapshot\<rparr>)
           else None)
      | DoneSeen \<Rightarrow>
          (if pw_flusher s = Waiting \<and> pw_done s then Some (s\<lparr>pw_flusher := FinalFlush AtSnapshot\<rparr>)
           else None)
      | FlusherStep o' \<Rightarrow> flusher_step get upsert o' s
      | _ \<Rightarrow> consumer_step ev s)"

fun pw_run where
  "pw_run get upsert [] s = Some s"
| "pw_run get upsert (ev # evs) s =
     (case pw_step get upsert ev s of None \<Rightarrow> None | Some s' \<Rightarrow> pw_run get upsert evs s')"

lemma pw_run_append:
  "pw_run get upsert (evs @ evs') s =
     (case pw_run get upsert evs s of None \<Rightarrow> None | Some s' \<Rightarrow> pw_run get upsert evs' s')"
  by (induction evs arbitrary: s) (auto split: option.split)

section \<open>One guarded flush at a time\<close>

definition tick_phases :: "'d PersistenceWorker \<Rightarrow> flush_phase list" where
  "tick_phases s = (case pw_flusher s of TickFlush ph \<Rightarrow> [ph] | _ \<Rightarrow> [])"

text \<open>The flushes that hold the flag: at most one, and one exactly when the flag is set.\<close>

definition guarded :: "'d PersistenceWorker \<Rightarrow> flush_phase list" where
  "guarded s = pw_spawned s @ tick_phases s"

definition pw_mutex :: "'d PersistenceWorker \<Rightarrow> bool" where
  "pw_mutex s \<longleftrightarrow> length (guarded s) = (if pw_flushing s then 1 else 0)"

lemma pw_mutex_New [simp]: "pw_mutex (pw_New d)"
  by (simp add: pw_mutex_def guarded_def tick_phases_def pw_New_def)

named_theorems pw_defs "definitions of the worker's steps and views"

lemmas [pw_defs] = pw_mutex_def guarded_def tick_phases_def

lemma consumer_step_mutex: "consumer_step ev s = Some s' \<Longrightarrow> pw_mutex s \<Longrightarrow> pw_mutex s'"
  unfolding consumer_step_def
  by (erule consume_cases)
    (auto simp: pw_defs split: option.splits if_splits flusher_pc.splits)

lemma spawned_step_mutex: "spawned_step get upsert i o' s = Some s' \<Longrightarrow> pw_mutex s \<Longrightarrow> pw_mutex s'"
  by (auto simp: spawned_step_def pw_defs split: if_splits flush_phase.splits prod.splits
      flusher_pc.splits)

lemma flusher_step_mutex: "flusher_step get upsert o' s = Some s' \<Longrightarrow> pw_mutex s \<Longrightarrow> pw_mutex s'"
  by (auto simp: flusher_step_def pw_defs split: if_splits flush_phase.splits prod.splits
      flusher_pc.splits)

lemma pw_step_mutex:
  assumes "pw_step get upsert ev s = Some s'" and "pw_mutex s"
  shows "pw_mutex s'"
proof (cases ev)
  case (SpawnedStep i o')
  with assms spawned_step_mutex [of get upsert i o' s s'] show ?thesis by (simp add: pw_step_def)
next
  case (FlusherStep o')
  with assms flusher_step_mutex [of get upsert o' s s'] show ?thesis by (simp add: pw_step_def)
next
  case TickerFires
  with assms show ?thesis
    by (cases "pw_flushing s") (auto simp: pw_step_def pw_defs split: if_splits)
qed (use assms consumer_step_mutex [of ev s s'] in \<open>auto simp: pw_step_def pw_defs split: if_splits\<close>)

lemma pw_run_mutex: "pw_run get upsert evs s = Some s' \<Longrightarrow> pw_mutex s \<Longrightarrow> pw_mutex s'"
  by (induction evs arbitrary: s) (auto split: option.splits dest: pw_step_mutex)

section \<open>Flush steps against the contract of the store\<close>

text \<open>The text a flush in progress has taken from the buffers and not yet stored.\<close>

fun phase_text :: "flush_phase \<Rightarrow> string \<Rightarrow> string" where
  "phase_text (AtRead snap) r = buf_str snap r"
| "phase_text (AtUpsert snap existing) r = buf_str snap r"
| "phase_text _ r = []"

fun phase_failed :: "flush_phase \<Rightarrow> bool" where
  "phase_failed (AtReturn (Inl e)) = True"
| "phase_failed _ = False"

fun phase_ok :: "Message list \<Rightarrow> flush_phase \<Rightarrow> bool" where
  "phase_ok tbl (AtRead snap) = gm_inv snap"
| "phase_ok tbl (AtUpsert snap existing) =
     (gm_inv snap \<and> (\<forall>r \<in> set (gm_keys snap). str_at existing r = stored_reply tbl r))"
| "phase_ok tbl _ = True"

lemma flush_step_simps:
  "flush_step get upsert c o' AtSnapshot (uc, d) =
     (if ps_buffers uc = [] then (AtReturn (Inr ()), (uc, d))
      else (AtRead (ps_buffers uc), (uc\<lparr>ps_buffers := [], ps_count := 0\<rparr>, d)))"
  "flush_step get upsert False o' (AtRead snap) (uc, d) =
     (case get (flush_ids (ord_ids o') snap) d of
        (Inl e, d') \<Rightarrow> (AtReturn (Inl e), (uc, d'))
      | (Inr existing, d') \<Rightarrow> (AtUpsert snap existing, (uc, d')))"
  "flush_step get upsert False o' (AtUpsert snap ex) (uc, d) =
     (case upsert (ord_sessions o') (flush_msgs (ord_msgs o') ex snap) d of
        (r, d') \<Rightarrow> (AtReturn r, (uc, d')))"
  "flush_step get upsert c o' (AtReturn r) x = (AtReturn r, x)"
  "flush_step get upsert True o' (AtRead snap) x = (AtReturn (Inl CtxErr), x)"
  "flush_step get upsert True o' (AtUpsert snap ex) x = (AtReturn (Inl CtxErr), x)"
  by (simp_all add: flush_step_def flush_snapshot_eq split: prod.split)

lemma flush_alone:
  "((\<lambda>(ph, x). flush_step get upsert False o' ph x) ^^ 3) (AtSnapshot, x) =
     (case Flush get upsert o' x of (r, x') \<Rightarrow> (AtReturn r, x'))"
proof -
  obtain uc d where x: "x = (uc, d)" by (cases x)
  show ?thesis
  proof (cases "get (flush_ids (ord_ids o') (ps_buffers uc)) d")
    case (Pair r d1)
    then show ?thesis
      by (cases r; cases "upsert (ord_sessions o') (flush_msgs (ord_msgs o') (projr r) (ps_buffers uc)) d1")
        (simp_all add: x numeral_3_eq_3 flush_step_simps Flush_def flush_snapshot_eq)
  qed
qed

lemma buf_str_None: "r \<notin> set (gm_keys m) \<Longrightarrow> buf_str m r = []"
  by (simp add: buf_str_def map_of_eq_None_iff [THEN iffD2])

section \<open>What a run has in hand\<close>

definition msg_tokens :: "string \<Rightarrow> TokenEvent list" where
  "msg_tokens m = (case unmarshal_TokenEvent m of None \<Rightarrow> [] | Some t \<Rightarrow> [t])"

text \<open>The tokens of the messages a schedule fetches, malformed ones skipped.\<close>

fun ev_tokens :: "pw_event \<Rightarrow> TokenEvent list" where
  "ev_tokens (Fetched m) = msg_tokens m"
| "ev_tokens _ = []"

definition fetched_tokens :: "pw_event list \<Rightarrow> TokenEvent list" where
  "fetched_tokens evs = concat (map ev_tokens evs)"

lemma fetched_tokens_simps [simp]:
  "fetched_tokens [] = []"
  "fetched_tokens (ev # evs) = ev_tokens ev @ fetched_tokens evs"
  "fetched_tokens (evs @ evs') = fetched_tokens evs @ fetched_tokens evs'"
  by (simp_all add: fetched_tokens_def)

fun ev_orders_ok :: "pw_event \<Rightarrow> bool" where
  "ev_orders_ok (SpawnedStep i o') = orders_ok o'"
| "ev_orders_ok (FlusherStep o') = orders_ok o'"
| "ev_orders_ok _ = True"

fun pc_text :: "consumer_pc \<Rightarrow> string \<Rightarrow> string" where
  "pc_text (Committing m) r = deltas r (msg_tokens m)"
| "pc_text (Decoding m) r = deltas r (msg_tokens m)"
| "pc_text _ r = []"

text \<open>Text of a request that was fetched and is not stored: in a flush, buffered, or being added.\<close>

definition in_hand :: "'d PersistenceWorker \<Rightarrow> string \<Rightarrow> string" where
  "in_hand s r =
     concat (map (\<lambda>ph. phase_text ph r) (guarded s)) @ buffered (pw_useCase s) r @ pc_text (pw_consumer s) r"

text \<open>No flush has failed: none is about to report an error and none was logged.\<close>

definition pw_clean :: "'d PersistenceWorker \<Rightarrow> bool" where
  "pw_clean s \<longleftrightarrow>
     (\<forall>ph \<in> set (guarded s). \<not> phase_failed ph) \<and> (\<forall>e. FlushError e \<notin> set (pw_log s))"

lemma in_hand_New [simp]: "in_hand (pw_New d) r = []"
  by (simp add: in_hand_def pw_New_def guarded_def tick_phases_def)

lemma mutex_spawned:
  assumes "pw_mutex s" and "i < length (pw_spawned s)"
  obtains ph where "pw_spawned s = [ph]" and "i = 0" and "tick_phases s = []" and "pw_flushing s"
  using assms
  by (cases "pw_spawned s"; cases "tl (pw_spawned s)")
    (auto simp: pw_mutex_def guarded_def split: if_splits)

lemma mutex_tick:
  assumes "pw_mutex s" and "pw_flusher s = TickFlush ph"
  shows "pw_spawned s = []" and "pw_flushing s"
  using assms by (auto simp: pw_defs split: if_splits)

text \<open>A failure is never forgotten.\<close>

lemma pw_clean_back:
  assumes "pw_mutex s" and "pw_step get upsert ev s = Some s'" and "pw_clean s'"
  shows "pw_clean s"
proof -
  have consumer: "pw_clean s" if "consumer_step ev s = Some s'"
    using that assms(3) unfolding consumer_step_def
    by (elim consume_cases)
      (auto simp: pw_clean_def guarded_def tick_phases_def split: option.splits if_splits)
  show ?thesis
  proof (cases ev)
    case (SpawnedStep i o')
    then have st: "spawned_step get upsert i o' s = Some s'" using assms(2) by (simp add: pw_step_def)
    then have "i < length (pw_spawned s)" by (simp add: spawned_step_def split: if_splits)
    with assms(1) obtain ph where ph: "pw_spawned s = [ph]" "i = 0" "tick_phases s = []"
      by (rule mutex_spawned)
    from st assms(3) ph show ?thesis
      by (cases ph rule: phase_failed.cases)
        (auto simp: spawned_step_def pw_clean_def guarded_def flush_entry_def split: prod.splits)
  next
    case (FlusherStep o')
    then have st: "flusher_step get upsert o' s = Some s'" using assms(2) by (simp add: pw_step_def)
    show ?thesis
    proof (cases "pw_flusher s")
      case (TickFlush ph)
      from st assms(3) TickFlush mutex_tick [OF assms(1) TickFlush] show ?thesis
        by (cases ph rule: phase_failed.cases)
          (auto simp: flusher_step_def pw_clean_def guarded_def tick_phases_def flush_entry_def split: prod.splits)
    next
      case (FinalFlush ph)
      from st assms(3) FinalFlush show ?thesis
        by (cases ph)
          (auto simp: flusher_step_def pw_clean_def guarded_def tick_phases_def split: prod.splits)
    qed (use st in \<open>simp_all add: flusher_step_def\<close>)
  qed (use assms(2,3) consumer in
      \<open>auto simp: pw_step_def pw_clean_def guarded_def tick_phases_def split: if_splits\<close>)
qed

lemma pw_run_clean_back:
  "pw_run get upsert evs s = Some s' \<Longrightarrow> pw_mutex s \<Longrightarrow> pw_clean s' \<Longrightarrow> pw_clean s"
  by (induction evs arbitrary: s)
    (auto split: option.splits dest: pw_step_mutex pw_clean_back)

section \<open>Texts in the buffers\<close>

text \<open>
  As long as every token fetched has texts that PostgreSQL stores, so have the buffers: only
  \<open>AddToken\<close> adds to them.
\<close>

fun pc_tokens :: "consumer_pc \<Rightarrow> TokenEvent list" where
  "pc_tokens (Committing m) = msg_tokens m"
| "pc_tokens (Decoding m) = msg_tokens m"
| "pc_tokens _ = []"

definition pw_texts :: "'d PersistenceWorker \<Rightarrow> bool" where
  "pw_texts s \<longleftrightarrow> buffer_texts (ps_buffers (pw_useCase s)) \<and> (\<forall>t \<in> set (pc_tokens (pw_consumer s)). event_texts t)"

lemma pw_texts_New [simp]: "pw_texts (pw_New d)"
  by (simp add: pw_texts_def pw_New_def)

lemma flush_step_texts:
  "flush_step get upsert c o' ph (uc, d) = (ph', (uc', d')) \<Longrightarrow> buffer_texts (ps_buffers uc) \<Longrightarrow>
     buffer_texts (ps_buffers uc')"
  by (auto simp: flush_step_def flush_snapshot_eq split: flush_phase.splits if_splits prod.splits sum.splits)

lemma pw_step_texts:
  assumes "pw_step get upsert ev s = Some s'" and "\<forall>t \<in> set (ev_tokens ev). event_texts t" and "pw_texts s"
  shows "pw_texts s'"
proof (cases ev)
  case (SpawnedStep i o')
  with assms(1,3) show ?thesis
    by (auto simp: pw_step_def spawned_step_def pw_texts_def split: if_splits flush_phase.splits prod.splits
        dest: flush_step_texts)
next
  case (FlusherStep o')
  with assms(1,3) show ?thesis
    by (auto simp: pw_step_def flusher_step_def pw_texts_def split: flusher_pc.splits flush_phase.splits prod.splits
        dest: flush_step_texts)
qed (use assms in \<open>auto simp: pw_step_def consumer_step_def pw_texts_def msg_tokens_def buffer_texts_AddToken
        elim!: consume_cases split: if_splits option.splits\<close>)

lemma pw_run_texts:
  "pw_run get upsert evs s = Some s' \<Longrightarrow> \<forall>t \<in> set (fetched_tokens evs). event_texts t \<Longrightarrow> pw_texts s \<Longrightarrow> pw_texts s'"
  by (induction evs arbitrary: s) (auto split: option.splits dest: pw_step_texts)

context message_store
begin

lemma flush_step_conserves:
  assumes "good e" and "orders_ok o'" and "ps_inv uc" and "phase_ok (rows e d) ph"
    and "flush_step (get e) (upsert e) c o' ph (uc, d) = (ph', (uc', d'))" and "\<not> phase_failed ph'"
  shows "stored_reply (rows e d') r @ phase_text ph' r @ buffered uc' r =
           stored_reply (rows e d) r @ phase_text ph r @ buffered uc r \<and>
         phase_ok (rows e d') ph' \<and> ps_inv uc'"
proof (cases ph)
  case AtSnapshot
  with assms(3,5) show ?thesis
    by (auto simp: flush_step_def flush_snapshot_eq ps_inv_def split: if_splits)
next
  case (AtRead snap)
  with assms(5,6) obtain ex where c: "\<not> c" and g: "get e (flush_ids (ord_ids o') snap) d = (Inr ex, d')"
    and ph': "ph' = AtUpsert snap ex" and uc': "uc' = uc"
    by (auto simp: flush_step_def split: if_splits prod.splits sum.splits)
  have inv: "gm_inv snap" using assms(4) AtRead by simp
  have ord: "range_order (ord_ids o')" using assms(2) by (simp add: orders_ok_def)
  note gf = get_flush [OF assms(1) ord inv g]
  show ?thesis
    using AtRead assms(3) inv gf by (simp add: ph' uc')
next
  case (AtUpsert snap ex)
  have inv: "gm_inv snap" and ex: "\<And>r. r \<in> set (gm_keys snap) \<Longrightarrow> str_at ex r = stored_reply (rows e d) r"
    using assms(4) unfolding AtUpsert phase_ok.simps by blast+
  have ord: "range_order (ord_msgs o')" using assms(2) by (simp add: orders_ok_def)
  have u: "upsert e (ord_sessions o') (flush_msgs (ord_msgs o') ex snap) d = (Inr (), d')"
    and ph': "ph' = AtReturn (Inr ())" and uc': "uc' = uc"
    using assms(5,6) AtUpsert
    by (auto simp: flush_step_def split: if_splits prod.splits elim!: phase_failed.elims(3))
  have "stored_reply (rows e d') r = stored_reply (rows e d) r @ buf_str snap r"
  proof (cases "gm_get snap r")
    case None
    then show ?thesis
      using upsert_flush(1) [OF assms(1) ord inv u, of r] by (simp add: buf_str_def)
  next
    case (Some b)
    then have "r \<in> set (gm_keys snap)"
      by (metis domI dom_map_of_conv_image_fst list.set_map)
    with Some show ?thesis
      using upsert_flush(1) [OF assms(1) ord inv u, of r] ex by (simp add: buf_str_def)
  qed
  then show ?thesis
    using AtUpsert assms(3) by (simp add: ph' uc')
next
  case (AtReturn x)
  with assms(3,5) show ?thesis by (auto simp: flush_step_def)
qed

definition pw_inv :: "'e \<Rightarrow> 'd PersistenceWorker \<Rightarrow> bool" where
  "pw_inv e s \<longleftrightarrow> pw_mutex s \<and> ps_inv (pw_useCase s) \<and>
     (\<forall>ph \<in> set (guarded s). phase_ok (rows e (pw_db s)) ph) \<and>
     \<not> pw_done s \<and> (pw_flusher s = Waiting \<or> (\<exists>ph. pw_flusher s = TickFlush ph))"

lemma pw_inv_New [simp]: "pw_inv e (pw_New d)"
  by (simp add: pw_inv_def) (simp add: pw_New_def guarded_def tick_phases_def)

definition conserves :: "'e \<Rightarrow> 'd PersistenceWorker \<Rightarrow> 'd PersistenceWorker \<Rightarrow> TokenEvent list \<Rightarrow> bool" where
  "conserves e s s' ts \<longleftrightarrow> pw_inv e s' \<and> pw_clean s \<and>
     (\<forall>r. stored_reply (rows e (pw_db s')) r @ in_hand s' r =
          stored_reply (rows e (pw_db s)) r @ in_hand s r @ deltas r ts)"

lemma consumer_conserves:
  assumes "pw_inv e s" and "consumer_step ev s = Some s'" and "pw_clean s'"
  shows "conserves e s s' (ev_tokens ev)"
proof -
  have "pw_mutex s'"
    using assms(1,2) consumer_step_mutex unfolding pw_inv_def by blast
  with assms show ?thesis
    unfolding consumer_step_def conserves_def
    by (elim consume_cases)
      (auto simp: pw_inv_def pw_clean_def in_hand_def guarded_def tick_phases_def msg_tokens_def
        buffered_AddToken ps_inv_AddToken split: option.splits if_splits)
qed

lemma spawned_conserves:
  assumes "good e" and "orders_ok o'" and "pw_inv e s"
    and "spawned_step (get e) (upsert e) i o' s = Some s'" and "pw_clean s'"
  shows "conserves e s s' []"
proof -
  have mutex: "pw_mutex s" "pw_mutex s'"
    using assms(3,4) spawned_step_mutex unfolding pw_inv_def by blast+
  have "i < length (pw_spawned s)"
    using assms(4) by (simp add: spawned_step_def split: if_splits)
  with mutex(1) obtain ph where ph: "pw_spawned s = [ph]" "i = 0" "tick_phases s = []" "pw_flushing s"
    by (rule mutex_spawned)
  have inv: "ps_inv (pw_useCase s)" "phase_ok (rows e (pw_db s)) ph" "\<not> pw_done s"
    "pw_flusher s = Waiting \<or> (\<exists>ph. pw_flusher s = TickFlush ph)"
    using assms(3) ph by (auto simp: pw_inv_def guarded_def)
  have tick: "tick_phases s' = tick_phases s" if "pw_flusher s' = pw_flusher s"
    using that by (simp add: tick_phases_def)
  show ?thesis
  proof (cases "\<exists>x. ph = AtReturn x")
    case True
    then obtain x where x: "ph = AtReturn x" by blast
    have s': "s' = s\<lparr>pw_spawned := [], pw_flushing := False, pw_log := pw_log s @ [flush_entry x]\<rparr>"
      using assms(4) ph x by (simp add: spawned_step_def)
    have "\<not> phase_failed ph"
      using assms(5) by (cases x) (auto simp: s' x pw_clean_def flush_entry_def)
    with assms(5) mutex(2) inv ph(3) tick show ?thesis
      by (simp add: s' conserves_def pw_inv_def pw_clean_def in_hand_def guarded_def ph x)
  next
    case False
    obtain ph' uc' d' where st: "flush_step (get e) (upsert e) False o' ph (pw_useCase s, pw_db s) = (ph', (uc', d'))"
      by (metis prod_cases3)
    have s': "s' = s\<lparr>pw_spawned := [ph'], pw_useCase := uc', pw_db := d'\<rparr>"
      using assms(4) ph False inv(3) st by (cases ph) (simp_all add: spawned_step_def)
    have "\<not> phase_failed ph'" and nf: "\<not> phase_failed ph"
      using assms(5) False by (auto simp: s' pw_clean_def guarded_def elim: phase_failed.elims)
    from flush_step_conserves [OF assms(1,2) inv(1,2) st this(1)] assms(5) mutex(2) inv ph(3) tick nf
    show ?thesis
      by (simp add: s' conserves_def pw_inv_def pw_clean_def in_hand_def guarded_def ph)
  qed
qed

lemma flusher_conserves:
  assumes "good e" and "orders_ok o'" and "pw_inv e s"
    and "flusher_step (get e) (upsert e) o' s = Some s'" and "pw_clean s'"
  shows "conserves e s s' []"
proof -
  have mutex: "pw_mutex s" "pw_mutex s'"
    using assms(3,4) flusher_step_mutex unfolding pw_inv_def by blast+
  obtain ph where ph: "pw_flusher s = TickFlush ph"
    using assms(3,4) by (auto simp: pw_inv_def flusher_step_def)
  note spawned = mutex_tick [OF mutex(1) ph]
  have inv: "ps_inv (pw_useCase s)" "phase_ok (rows e (pw_db s)) ph" "\<not> pw_done s"
    using assms(3) ph by (auto simp: pw_inv_def guarded_def tick_phases_def)
  show ?thesis
  proof (cases "\<exists>x. ph = AtReturn x")
    case True
    then obtain x where x: "ph = AtReturn x" by blast
    have s': "s' = s\<lparr>pw_flusher := Waiting, pw_flushing := False, pw_log := pw_log s @ [flush_entry x]\<rparr>"
      using assms(4) ph x by (simp add: flusher_step_def)
    have "\<not> phase_failed ph"
      using assms(5) by (cases x) (auto simp: s' x pw_clean_def flush_entry_def)
    with assms(5) mutex(2) inv ph spawned show ?thesis
      by (simp add: s' conserves_def pw_inv_def pw_clean_def in_hand_def guarded_def tick_phases_def x)
  next
    case False
    obtain ph' uc' d' where st: "flush_step (get e) (upsert e) False o' ph (pw_useCase s, pw_db s) = (ph', (uc', d'))"
      by (metis prod_cases3)
    have s': "s' = s\<lparr>pw_flusher := TickFlush ph', pw_useCase := uc', pw_db := d'\<rparr>"
      using assms(4) ph False inv(3) st by (cases ph) (simp_all add: flusher_step_def)
    have "\<not> phase_failed ph'" and nf: "\<not> phase_failed ph"
      using assms(5) False by (auto simp: s' pw_clean_def guarded_def tick_phases_def elim: phase_failed.elims)
    from flush_step_conserves [OF assms(1,2) inv(1,2) st this(1)] assms(5) mutex(2) inv ph spawned nf
    show ?thesis
      by (simp add: s' conserves_def pw_inv_def pw_clean_def in_hand_def guarded_def tick_phases_def)
  qed
qed

lemma pw_step_conserves:
  assumes "good e" and "ev_orders_ok ev" and "ev \<noteq> Cancel" and "pw_inv e s"
    and "pw_step (get e) (upsert e) ev s = Some s'" and "pw_clean s'"
  shows "conserves e s s' (ev_tokens ev)"
proof (cases ev)
  case (SpawnedStep i o')
  with assms show ?thesis using spawned_conserves by (simp add: pw_step_def)
next
  case (FlusherStep o')
  with assms show ?thesis using flusher_conserves by (simp add: pw_step_def)
next
  case TickerFires
  have m: "pw_mutex s'"
    using assms(4,5) pw_step_mutex unfolding pw_inv_def by blast
  show ?thesis
  proof (cases "pw_flushing s")
    case True
    with TickerFires assms show ?thesis by (simp add: pw_step_def conserves_def split: if_splits)
  next
    case False
    with TickerFires assms(5) have s': "s' = s\<lparr>pw_flushing := True, pw_flusher := TickFlush AtSnapshot\<rparr>"
      and w: "pw_flusher s = Waiting"
      by (simp_all add: pw_step_def split: if_splits)
    with TickerFires assms(4,6) m show ?thesis
      by (auto simp: conserves_def pw_inv_def pw_clean_def in_hand_def guarded_def tick_phases_def)
  qed
next
  case DoneSeen
  with assms show ?thesis by (simp add: pw_step_def pw_inv_def split: if_splits)
qed (use assms consumer_conserves [of e s ev s'] in \<open>simp_all add: pw_step_def\<close>)

lemma pw_run_conserves:
  assumes "good e" and "\<forall>ev \<in> set evs. ev_orders_ok ev" and "Cancel \<notin> set evs" and "pw_inv e s"
    and "pw_run (get e) (upsert e) evs s = Some s'" and "pw_clean s'"
  shows "conserves e s s' (fetched_tokens evs)"
  using assms(2-)
proof (induction evs arbitrary: s)
  case Nil
  then show ?case by (simp add: conserves_def)
next
  case (Cons ev evs)
  obtain s1 where s1: "pw_step (get e) (upsert e) ev s = Some s1"
    and r: "pw_run (get e) (upsert e) evs s1 = Some s'"
    using Cons.prems(4) by (auto split: option.splits)
  have "pw_mutex s1"
    using pw_step_mutex [OF s1] Cons.prems(3) by (simp add: pw_inv_def)
  then have "pw_clean s1"
    using pw_run_clean_back [OF r] Cons.prems(5) by blast
  then have 1: "conserves e s s1 (ev_tokens ev)"
    using pw_step_conserves [OF assms(1) _ _ Cons.prems(3) s1] Cons.prems(1,2) by auto
  then have "pw_inv e s1"
    by (simp add: conserves_def)
  then have "conserves e s1 s' (fetched_tokens evs)"
    using Cons.IH [OF _ _ _ r Cons.prems(5)] Cons.prems(1,2) by simp
  with 1 show ?case
    by (simp add: conserves_def)
qed

end

section \<open>Runs\<close>

lemma pw_run_Cons_Some:
  "pw_step get upsert ev s = Some s' \<Longrightarrow> pw_run get upsert (ev # evs) s = pw_run get upsert evs s'"
  by simp

text \<open>The final flush, which nothing else interrupts: it is \<open>Flush\<close>, and then the flusher stops.\<close>

lemma final_flush_run:
  assumes "Flush get upsert o' (pw_useCase s, pw_db s) = (r, (uc', d'))"
    and "pw_flusher s = FinalFlush AtSnapshot"
  shows "\<exists>n. pw_run get upsert (replicate n (FlusherStep o')) s =
    Some (s\<lparr>pw_flusher := Stopped, pw_useCase := uc', pw_db := d', pw_log := pw_log s @ [flush_entry r]\<rparr>)"
proof (cases "ps_buffers (pw_useCase s) = []")
  case True
  with assms have "pw_run get upsert (replicate 2 (FlusherStep o')) s =
    Some (s\<lparr>pw_flusher := Stopped, pw_useCase := uc', pw_db := d', pw_log := pw_log s @ [flush_entry r]\<rparr>)"
    by (simp add: numeral_2_eq_2 pw_step_def flusher_step_def flush_step_simps Flush_def flush_snapshot_eq)
  then show ?thesis by blast
next
  case False
  obtain x d1 where g: "get (flush_ids (ord_ids o') (ps_buffers (pw_useCase s))) (pw_db s) = (x, d1)"
    by fastforce
  show ?thesis
  proof (cases x)
    case (Inl e)
    with assms False g have "pw_run get upsert (replicate 3 (FlusherStep o')) s =
      Some (s\<lparr>pw_flusher := Stopped, pw_useCase := uc', pw_db := d', pw_log := pw_log s @ [flush_entry r]\<rparr>)"
      by (auto simp: numeral_3_eq_3 pw_step_def flusher_step_def flush_step_simps Flush_def flush_snapshot_eq)
    then show ?thesis by blast
  next
    case (Inr ex)
    obtain y d2 where u: "upsert (ord_sessions o') (flush_msgs (ord_msgs o') ex (ps_buffers (pw_useCase s))) d1 = (y, d2)"
      by fastforce
    have "pw_run get upsert (replicate (Suc 3) (FlusherStep o')) s =
      Some (s\<lparr>pw_flusher := Stopped, pw_useCase := uc', pw_db := d', pw_log := pw_log s @ [flush_entry r]\<rparr>)"
      using assms False g u Inr
      by (auto simp: numeral_3_eq_3 pw_step_def flusher_step_def flush_step_simps Flush_def flush_snapshot_eq)
    then show ?thesis by blast
  qed
qed

text \<open>The events that carry one token from Kafka into the buffers.\<close>

definition feed :: "TokenEvent \<Rightarrow> pw_event list" where
  "feed t = [Fetched (marshal_TokenEvent t), CommitReturns None, Decode, Check]"

lemma feed_run:
  assumes "pw_consumer s = Fetching"
  shows "pw_run get upsert (feed t @ evs) s =
    pw_run get upsert evs (s\<lparr>pw_useCase := AddToken (utf8_TokenEvent t) (pw_useCase s),
      pw_committed := pw_committed s @ [marshal_TokenEvent t],
      pw_consumer := if ps_count (pw_useCase s) + 1 < 500 then Fetching else Swapping\<rparr>)"
  using assms
  by (cases s) (simp add: feed_def pw_step_def consumer_step_def ShouldFlush_def persistTokenThreshold_def)

lemma feeds_run:
  assumes "pw_consumer s = Fetching" and "ps_count (pw_useCase s) + int (length ts) < 500"
  shows "pw_run get upsert (concat (map feed ts) @ evs) s =
    pw_run get upsert evs (s\<lparr>pw_useCase := fold AddToken (map utf8_TokenEvent ts) (pw_useCase s),
      pw_committed := pw_committed s @ map marshal_TokenEvent ts\<rparr>)"
  using assms
proof (induction ts arbitrary: s)
  case (Cons t ts)
  then have "ps_count (pw_useCase s) + 1 < 500" by simp
  with Cons show ?case
    by (cases s) (simp add: feed_run Cons.IH)
qed simp

lemma fetched_tokens_feed [simp]:
  "fetched_tokens (concat (map feed ts)) = map utf8_TokenEvent ts"
  "fetched_tokens (feed t) = [utf8_TokenEvent t]"
proof -
  show 1: "fetched_tokens (feed t) = [utf8_TokenEvent t]" for t
    by (simp add: feed_def fetched_tokens_def msg_tokens_def)
  show "fetched_tokens (concat (map feed ts)) = map utf8_TokenEvent ts"
    by (induction ts) (simp_all add: 1)
qed

lemma ps_count_fold [simp]: "ps_count (fold AddToken ts uc) = ps_count uc + int (length ts)"
  by (induction ts arbitrary: uc) auto

lemma pw_New_simps [simp]:
  "pw_useCase (pw_New d) = NewPersistSession" "pw_db (pw_New d) = d" "\<not> pw_flushing (pw_New d)"
  "\<not> pw_done (pw_New d)" "pw_consumer (pw_New d) = Fetching" "pw_flusher (pw_New d) = Waiting"
  "pw_spawned (pw_New d) = []" "pw_committed (pw_New d) = []" "pw_log (pw_New d) = []"
  by (simp_all add: pw_New_def)

lemma ps_inv_fold: "ps_inv (fold AddToken ts NewPersistSession)"
  by (induction ts rule: rev_induct) (simp_all add: ps_inv_AddToken)

abbreviation pg_worker ::
  "'d gorm_db \<Rightarrow> pw_event list \<Rightarrow> 'd PersistenceWorker \<Rightarrow> 'd PersistenceWorker option" where
  "pg_worker db \<equiv> pw_run (store_GetContentByRequestIDs db) (store_BulkUpsertMessages db)"

lemma clean_shutdown:
  assumes "pg_documented db view" and "pg_available db view" and "orders_ok fin"
    and "\<forall>ev \<in> set evs. ev_orders_ok ev" and "Cancel \<notin> set evs"
    and "pg_worker db evs (pw_New d) = Some s" and "pw_clean s"
    and "pw_consumer s = Fetching" and "pw_spawned s = []" and "pw_flusher s = Waiting"
    and "\<forall>t \<in> set (fetched_tokens evs). event_texts t"
  shows "\<exists>n s'. pg_worker db (evs @ [Cancel, FetchFails CtxErr, DoneSeen] @ replicate n (FlusherStep fin))
              (pw_New d) = Some s' \<and>
            pw_consumer s' = Returned \<and> pw_flusher s' = Stopped \<and> ps_buffers (pw_useCase s') = [] \<and>
            (\<forall>r. stored_reply (pv_messages (view (pw_db s'))) r =
                 stored_reply (pv_messages (view d)) r @ deltas r (fetched_tokens evs))"
proof -
  let ?s1 = "s\<lparr>pw_done := True, pw_consumer := Returned, pw_flusher := FinalFlush AtSnapshot\<rparr>"
  have c: "pg.conserves (db, view) (pw_New d) s (fetched_tokens evs)"
    using pg.pw_run_conserves [of "(db, view)" evs "pw_New d" s] assms by simp
  then have inv: "ps_inv (pw_useCase s)"
    by (simp add: pg.conserves_def pg.pw_inv_def)
  have texts: "buffer_texts (ps_buffers (pw_useCase s))"
    using pw_run_texts [OF assms(6,11) pw_texts_New] by (simp add: pw_texts_def)
  obtain uc' d' where f: "pg_Flush db fin (pw_useCase s, pw_db s) = (Inr (), (uc', d'))"
    using pg.Flush_avail [of "(db, view)" fin "pw_useCase s" "pw_db s"] assms(1-3) inv texts by auto
  note fs = pg.Flush_success [of "(db, view)" fin "pw_useCase s" "pw_db s" uc' d']
  have "pg_worker db [Cancel, FetchFails CtxErr, DoneSeen] s = Some ?s1"
    using assms(8,10) by (simp add: pw_step_def consumer_step_def)
  moreover obtain n where "pg_worker db (replicate n (FlusherStep fin)) ?s1 =
      Some (?s1\<lparr>pw_flusher := Stopped, pw_useCase := uc', pw_db := d', pw_log := pw_log ?s1 @ [flush_entry (Inr ())]\<rparr>)"
    using final_flush_run [of _ _ fin ?s1 "Inr ()" uc' d'] f by auto
  ultimately have "pg_worker db (evs @ [Cancel, FetchFails CtxErr, DoneSeen] @ replicate n (FlusherStep fin)) (pw_New d) =
      Some (?s1\<lparr>pw_flusher := Stopped, pw_useCase := uc', pw_db := d', pw_log := pw_log ?s1 @ [flush_entry (Inr ())]\<rparr>)"
    using assms(6) by (simp only: pw_run_append option.case)
  moreover have "stored_reply (pv_messages (view d')) r =
      stored_reply (pv_messages (view d)) r @ deltas r (fetched_tokens evs)" for r
    using fs(1) [of r] c assms(1,3,8-10) inv f
    by (simp add: pg.conserves_def in_hand_def guarded_def tick_phases_def pw_New_def)
  moreover have "ps_buffers uc' = []"
    using fs(2) assms(1,3) inv f by simp
  ultimately show ?thesis
    by (intro exI conjI allI) (assumption, simp_all)
qed

text \<open>A flush of the ticker that runs by itself.\<close>

lemma tick_flush_run:
  assumes "Flush get upsert o' (pw_useCase s, pw_db s) = (r, (uc', d'))" and "ps_buffers (pw_useCase s) \<noteq> []"
    and "pw_flusher s = Waiting" and "\<not> pw_flushing s" and "\<not> pw_done s"
  shows "\<exists>n. pw_run get upsert (TickerFires # replicate n (FlusherStep o')) s =
    Some (s\<lparr>pw_useCase := uc', pw_db := d', pw_log := pw_log s @ [flush_entry r]\<rparr>)"
proof -
  obtain x d1 where g: "get (flush_ids (ord_ids o') (ps_buffers (pw_useCase s))) (pw_db s) = (x, d1)"
    by fastforce
  show ?thesis
  proof (cases x)
    case (Inl e)
    with assms g have "pw_run get upsert (TickerFires # replicate 3 (FlusherStep o')) s =
      Some (s\<lparr>pw_useCase := uc', pw_db := d', pw_log := pw_log s @ [flush_entry r]\<rparr>)"
      by (cases s) (auto simp: numeral_3_eq_3 pw_step_def flusher_step_def flush_step_simps Flush_def flush_snapshot_eq)
    then show ?thesis by blast
  next
    case (Inr ex)
    obtain y d2 where u: "upsert (ord_sessions o') (flush_msgs (ord_msgs o') ex (ps_buffers (pw_useCase s))) d1 = (y, d2)"
      by fastforce
    have "pw_run get upsert (TickerFires # replicate (Suc 3) (FlusherStep o')) s =
      Some (s\<lparr>pw_useCase := uc', pw_db := d', pw_log := pw_log s @ [flush_entry r]\<rparr>)"
      using assms g u Inr
      by (cases s) (auto simp: numeral_3_eq_3 pw_step_def flusher_step_def flush_step_simps Flush_def flush_snapshot_eq)
    then show ?thesis by blast
  qed
qed

section \<open>Properties\<close>

text \<open>
  (C20) The flag \<open>flushing\<close> does what it is for: under every schedule of the consumer, the
  threshold goroutines, the ticker and the shutdown, and with any store, the flushes that took the
  flag are at most one at a time, and the flag is set exactly while one is running.
\<close>

theorem worker_flush_exclusive:
  assumes "pw_run get upsert evs (pw_New d) = Some s"
  shows "length (pw_spawned s) + length (tick_phases s) \<le> 1 \<and>
         (pw_flushing s \<longleftrightarrow> pw_spawned s \<noteq> [] \<or> tick_phases s \<noteq> [])"
  using pw_run_mutex [OF assms pw_mutex_New] by (auto simp: pw_mutex_def guarded_def split: if_splits)

theorem worker_flush_exclusive_witness:
  "\<exists>s. pg_worker ref_db [TickerFires, FlusherStep demo_orders] (pw_New empty_pg) = Some s \<and> pw_flushing s \<and>
     length (pw_spawned s) + length (tick_phases s) \<le> 1"
proof -
  obtain s where s: "pg_worker ref_db [TickerFires, FlusherStep demo_orders] (pw_New empty_pg) = Some s"
    and f: "pw_flushing s"
    by (simp add: pw_step_def flusher_step_def flush_step_simps pw_New_def NewPersistSession_def)
  from worker_flush_exclusive [OF s] s f show ?thesis by blast
qed

text \<open>
  (C7) The persistence worker loses, doubles and reorders nothing while it runs: under every
  schedule before shutdown, with a database that behaves as documented and as long as no flush
  fails, the stored reply of every request followed by the text in hand (in a running flush, in the
  buffers, or of the message just fetched) is the reply stored at the start followed by the deltas
  fetched from Kafka, in order; malformed messages are skipped.
\<close>

theorem worker_conserves_tokens:
  assumes "pg_documented db view" and "\<forall>ev \<in> set evs. ev_orders_ok ev" and "Cancel \<notin> set evs"
    and "pg_worker db evs (pw_New d) = Some s" and "pw_clean s"
  shows "stored_reply (pv_messages (view (pw_db s))) r @ in_hand s r =
         stored_reply (pv_messages (view d)) r @ deltas r (fetched_tokens evs)"
  using pg.pw_run_conserves [of "(db, view)" evs "pw_New d" s] assms
  by (simp add: pg.conserves_def)

definition demo_schedule :: "pw_event list" where
  "demo_schedule = feed (demo_event ''r1'' ''he'' False) @
     [TickerFires, FlusherStep demo_orders, Fetched (marshal_TokenEvent (demo_event ''r1'' ''y'' False))]"

theorem worker_conserves_tokens_witness:
  "\<exists>s. pg_worker ref_db demo_schedule (pw_New empty_pg) = Some s \<and>
     stored_reply (pv_messages (ref_view (pw_db s))) ''r1'' @ in_hand s ''r1'' = ''hey''"
proof -
  obtain s where s: "pg_worker ref_db demo_schedule (pw_New empty_pg) = Some s" and c: "pw_clean s"
    by (simp add: demo_schedule_def feed_run pw_step_def flusher_step_def consumer_step_def
        flush_step_simps pw_New_def NewPersistSession_def AddToken_def pw_clean_def guarded_def tick_phases_def)
  have u: "utf8_TokenEvent (demo_event ''r1'' x False) = demo_event ''r1'' x False" if "ascii x" for x
    using that by (simp add: utf8_TokenEvent_def demo_event_def to_valid_utf8_ascii ascii_def byte_def)
  have "stored_reply (pv_messages (ref_view (pw_db s))) ''r1'' @ in_hand s ''r1'' =
        stored_reply (pv_messages (ref_view empty_pg)) ''r1'' @ deltas ''r1'' (fetched_tokens demo_schedule)"
    by (rule worker_conserves_tokens [OF ref_db_documented _ _ s c])
      (auto simp: demo_schedule_def feed_def)
  also have "\<dots> = ''hey''"
    by (simp add: demo_schedule_def msg_tokens_def u ascii_def byte_def)
      (simp add: ref_view_def empty_pg_def stored_reply_def contents_def str_at_def demo_event_def)
  finally show ?thesis using s by blast
qed

text \<open>
  A clean shutdown stores everything: if the context is cancelled when no flush is in
  progress and none has failed, the fetched texts can be stored and the database answers, the final flush of \<open>runFlusher\<close>
  leaves the database with every request's old reply followed by all deltas that were fetched, and
  the threads end.
\<close>

theorem worker_clean_shutdown:
  assumes "pg_documented db view" and "pg_available db view" and "orders_ok fin"
    and "\<forall>ev \<in> set evs. ev_orders_ok ev" and "Cancel \<notin> set evs"
    and "pg_worker db evs (pw_New d) = Some s" and "pw_clean s"
    and "pw_consumer s = Fetching" and "pw_spawned s = []" and "pw_flusher s = Waiting"
    and "\<forall>t \<in> set (fetched_tokens evs). event_texts t"
  shows "\<exists>n s'. pg_worker db (evs @ [Cancel, FetchFails CtxErr, DoneSeen] @ replicate n (FlusherStep fin))
              (pw_New d) = Some s' \<and>
            pw_consumer s' = Returned \<and> pw_flusher s' = Stopped \<and> ps_buffers (pw_useCase s') = [] \<and>
            (\<forall>r. stored_reply (pv_messages (view (pw_db s'))) r =
                 stored_reply (pv_messages (view d)) r @ deltas r (fetched_tokens evs))"
  using assms by (rule clean_shutdown)

theorem worker_clean_shutdown_witness:
  "\<exists>n s'. pg_worker ref_db (feed (demo_event ''r1'' ''hey'' True) @
        [Cancel, FetchFails CtxErr, DoneSeen] @ replicate n (FlusherStep demo_orders)) (pw_New empty_pg) = Some s' \<and>
      stored_reply (pv_messages (ref_view (pw_db s'))) ''r1'' = ''hey''"
proof -
  let ?evs = "feed (demo_event ''r1'' ''hey'' True)"
  obtain s where s: "pg_worker ref_db ?evs (pw_New empty_pg) = Some s"
    and st: "pw_clean s" "pw_consumer s = Fetching" "pw_spawned s = []" "pw_flusher s = Waiting"
    by (simp add: feed_run [where evs = "[]", simplified] pw_New_def NewPersistSession_def
        pw_clean_def guarded_def tick_phases_def)
  have u: "utf8_TokenEvent (demo_event ''r1'' ''hey'' True) = demo_event ''r1'' ''hey'' True"
    by (simp add: utf8_TokenEvent_def demo_event_def to_valid_utf8_ascii ascii_def byte_def)
  have "\<forall>ev \<in> set ?evs. ev_orders_ok ev" and "Cancel \<notin> set ?evs"
    by (simp_all add: feed_def)
  moreover have "\<forall>t \<in> set (fetched_tokens ?evs). event_texts t"
    by (simp add: u demo_texts)
  moreover note worker_clean_shutdown [OF ref_db_documented ref_db_available demo_orders_ok _ _ s st]
  ultimately
  obtain n s' where run: "pg_worker ref_db (?evs @ [Cancel, FetchFails CtxErr, DoneSeen] @
        replicate n (FlusherStep demo_orders)) (pw_New empty_pg) = Some s'"
    and "stored_reply (pv_messages (ref_view (pw_db s'))) ''r1'' =
         stored_reply (pv_messages (ref_view empty_pg)) ''r1'' @ deltas ''r1'' (fetched_tokens ?evs)"
    by blast
  moreover have "stored_reply (pv_messages (ref_view empty_pg)) ''r1'' = []"
    by (simp add: ref_view_def empty_pg_def stored_reply_def contents_def)
  moreover have "deltas ''r1'' [demo_event ''r1'' ''hey'' True] = ''hey''"
    by (simp add: demo_event_def)
  ultimately have "stored_reply (pv_messages (ref_view (pw_db s'))) ''r1'' = ''hey''"
    by (simp only: fetched_tokens_feed u append_Nil)
  with run show ?thesis by blast
qed

text \<open>
  A shutdown during a threshold flush loses what that flush had taken: the flush runs on the
  cancelled context, so its next statement fails, the buffers were emptied when it began, and the
  final flush sees only what came later.  Here 500 tokens are consumed and their offsets committed,
  the context is cancelled after the snapshot, every thread ends, and the store never got a call.
\<close>

theorem shutdown_drops_inflight_flush:
  assumes "length ts = 500"
  shows "\<exists>evs s. pw_run get upsert evs (pw_New d) = Some s \<and>
           fetched_tokens evs = map utf8_TokenEvent ts \<and> pw_committed s = map marshal_TokenEvent ts \<and>
           pw_consumer s = Returned \<and> pw_flusher s = Stopped \<and> pw_spawned s = [] \<and>
           ps_buffers (pw_useCase s) = [] \<and> pw_db s = d \<and> pw_log s = [FlushError CtxErr, Flushed]"
proof -
  obtain ts' t where ts: "ts = ts' @ [t]" and l: "length ts' = 499"
    using assms by (cases ts rule: rev_cases) auto
  let ?stop = "[Swap, SpawnedStep 0 demo_orders, Cancel, FetchFails CtxErr, SpawnedStep 0 demo_orders,
      SpawnedStep 0 demo_orders, DoneSeen, FlusherStep demo_orders, FlusherStep demo_orders]"
  let ?uc = "fold AddToken (map utf8_TokenEvent ts) NewPersistSession"
  have c: "ps_count (fold AddToken (map utf8_TokenEvent ts') NewPersistSession) = 499"
    using l by (simp add: NewPersistSession_def)
  have ne: "ps_buffers ?uc \<noteq> []"
    using keys_AddToken [of "utf8_TokenEvent t" "fold AddToken (map utf8_TokenEvent ts') NewPersistSession"]
    by (auto simp: ts)
  have "pw_run get upsert (concat (map feed ts') @ feed t @ ?stop) (pw_New d) =
    pw_run get upsert ?stop ((pw_New d)\<lparr>pw_useCase := ?uc,
      pw_committed := map marshal_TokenEvent ts, pw_consumer := Swapping\<rparr>)"
    using l c by (simp add: feeds_run feed_run pw_New_def ts)
  also have "\<dots> = Some ((pw_New d)\<lparr>pw_useCase := ?uc\<lparr>ps_buffers := [], ps_count := 0\<rparr>,
      pw_committed := map marshal_TokenEvent ts, pw_consumer := Returned, pw_done := True,
      pw_flusher := Stopped, pw_log := [FlushError CtxErr, Flushed]\<rparr>)"
    using ne
    by (simp add: pw_step_def consumer_step_def spawned_step_def flusher_step_def flush_step_simps
        pw_New_def flush_entry_def)
  finally have run: "pw_run get upsert (concat (map feed ts') @ feed t @ ?stop) (pw_New d) = \<dots>" .
  have f: "fetched_tokens (concat (map feed ts') @ feed t @ ?stop) = map utf8_TokenEvent ts"
    by (simp add: ts)
  show ?thesis
    by (intro exI conjI) (rule run, rule f, simp_all add: pw_New_def)
qed

theorem shutdown_drops_inflight_flush_witness:
  "\<exists>evs s. pg_worker ref_db evs (pw_New empty_pg) = Some s \<and>
     pw_committed s = map marshal_TokenEvent (replicate 500 (demo_event ''r1'' ''x'' False)) \<and>
     pw_flusher s = Stopped \<and> pw_db s = empty_pg"
proof -
  have "length (replicate 500 (demo_event ''r1'' ''x'' False)) = 500" by simp
  from shutdown_drops_inflight_flush [OF this, of "store_GetContentByRequestIDs ref_db"
      "store_BulkUpsertMessages ref_db" empty_pg] show ?thesis
    by blast
qed

text \<open>
  The steps of a flush that nothing interrupts compose to the use case's \<open>Flush\<close>: the
  same result, the same buffers, the same database, on every path (nothing buffered, a failed read,
  a failed or successful upsert).
\<close>

theorem flush_steps_refine_Flush:
  "((\<lambda>(ph, x). flush_step get upsert False o' ph x) ^^ 3) (AtSnapshot, x) =
     (case Flush get upsert o' x of (r, x') \<Rightarrow> (AtReturn r, x'))"
  by (rule flush_alone)

text \<open>
  (C32) One request with a NUL in its user message (JSON has an escape for it, and no handler refuses it)
  makes the text of every request in the buffers disappear: PostgreSQL refuses the row, the upsert of the
  whole batch fails, and the ticker's flush, which has emptied the buffers, only logs the error.
  The offsets of all these tokens are committed, and no stored message has changed.
\<close>

theorem nul_message_loses_batch:
  assumes "pg_documented db view" and "orders_ok o'" and "length ts < 500" and "\<forall>t \<in> set ts. event_utf8 t"
    and "t \<in> set ts" and "CHR 0x00 \<in> set (te_UserMessage t)"
    and "\<forall>t' \<in> set ts. te_RequestID t' = te_RequestID t \<longrightarrow> te_UserMessage t' = te_UserMessage t"
  shows "\<exists>n s x. pg_worker db (concat (map feed ts) @ TickerFires # replicate n (FlusherStep o')) (pw_New d) = Some s \<and>
           pw_committed s = map marshal_TokenEvent ts \<and> ps_buffers (pw_useCase s) = [] \<and> guarded s = [] \<and>
           pv_messages (view (pw_db s)) = pv_messages (view d) \<and> pw_log s = [FlushError x]"
proof -
  let ?uc = "fold AddToken ts NewPersistSession"
  let ?s = "(pw_New d)\<lparr>pw_useCase := ?uc, pw_committed := map marshal_TokenEvent ts\<rparr>"
  have id: "map utf8_TokenEvent ts = ts"
    using assms(4) by (auto intro!: map_idI event_utf8_id)
  have "ps_count (pw_useCase (pw_New d)) + int (length ts) < 500"
    using assms(3) by (simp add: NewPersistSession_def)
  from feeds_run [OF pw_New_simps(5) this] have fed: "pg_worker db (concat (map feed ts) @ evs) (pw_New d) = pg_worker db evs ?s" for evs
    by (simp only: id pw_New_simps append_Nil)
  have "\<forall>b. gm_get (ps_buffers NewPersistSession) (te_RequestID t) = Some b \<longrightarrow> tb_userMessage b = te_UserMessage t"
    by (simp add: NewPersistSession_def)
  from userMessage_fold [OF this assms(7)] assms(5)
  obtain b where b: "gm_get (ps_buffers ?uc) (te_RequestID t) = Some b" "tb_userMessage b = te_UserMessage t"
    by blast
  have "has_nul (te_RequestID t) b"
    using b(2) assms(6) by (simp add: has_nul_def)
  from pg.Flush_nul [of "(db, view)" o' ?uc "te_RequestID t" b d, OF _ assms(2) ps_inv_fold b(1) this]
  obtain x uc' d' where f: "pg_Flush db o' (?uc, d) = (Inl x, (uc', d'))" "ps_buffers uc' = []"
    "pv_messages (view d') = pv_messages (view d)"
    using assms(1) by auto
  have "ps_buffers ?uc \<noteq> []"
    using b(1) by auto
  then obtain n where n: "pg_worker db (TickerFires # replicate n (FlusherStep o')) ?s =
      Some (?s\<lparr>pw_useCase := uc', pw_db := d', pw_log := pw_log ?s @ [flush_entry (Inl x)]\<rparr>)"
    using tick_flush_run [of _ _ o' ?s "Inl x" uc' d'] f(1) by auto
  show ?thesis
    by (rule exI, rule exI, rule exI, rule conjI, rule trans [OF fed n])
      (simp add: f(2,3) guarded_def tick_phases_def flush_entry_def)
qed

text \<open>The event of a request with a NUL, and one of another request.\<close>

definition nul_event :: TokenEvent where
  "nul_event = (demo_event ''r2'' ''x'' False)\<lparr>te_UserMessage := [CHR 0x00]\<rparr>"

theorem nul_message_loses_batch_witness:
  "\<exists>n s x. pg_worker ref_db (concat (map feed [demo_event ''r1'' ''hey'' False, nul_event]) @
        TickerFires # replicate n (FlusherStep demo_orders)) (pw_New empty_pg) = Some s \<and>
     ps_buffers (pw_useCase s) = [] \<and> pv_messages (ref_view (pw_db s)) = [] \<and> pw_log s = [FlushError x]"
proof -
  let ?ts = "[demo_event ''r1'' ''hey'' False, nul_event]"
  have utf8: "\<forall>t \<in> set ?ts. event_utf8 t"
    by (simp add: nul_event_def demo_event_def event_utf8_def valid_utf8_ascii ascii_def byte_def)
  have "\<forall>t' \<in> set ?ts. te_RequestID t' = te_RequestID nul_event \<longrightarrow> te_UserMessage t' = te_UserMessage nul_event"
    by (simp add: nul_event_def demo_event_def)
  from nul_message_loses_batch [OF ref_db_documented demo_orders_ok _ utf8 _ _ this, of empty_pg]
  have "\<exists>n s x. pg_worker ref_db (concat (map feed ?ts) @ TickerFires # replicate n (FlusherStep demo_orders))
      (pw_New empty_pg) = Some s \<and> ps_buffers (pw_useCase s) = [] \<and>
      pv_messages (ref_view (pw_db s)) = pv_messages (ref_view empty_pg) \<and> pw_log s = [FlushError x]"
    by (fastforce simp: nul_event_def)
  then show ?thesis
    by (simp add: ref_view_def empty_pg_def)
qed

end
