(* ===== verification/Lifecycle.thy ===== *)
theory Lifecycle
  imports GoPrelude "HOL-Library.Sublist"
begin

text \<open>
  What the four long-running programs under \<open>cmd/\<close> share: each appends hooks to the life cycle of
  \<open>fx\<close>, and the hook of a worker starts its \<open>Run\<close> in a goroutine and cancels the context of
  \<open>Run\<close> when the process stops.  \<open>fx\<close> is not code of the repository: which hook it calls
  when is part of the list of events, and \<open>fx_documented\<close> states the documented order.
\<close>

section \<open>A process with hooks\<close>

text \<open>
  \<open>hk_starts\<close>: the hook's \<open>OnStart\<close> starts the goroutine.  The hooks modelled here return no
  error.
\<close>

record 's fx_hook =
  hk_starts :: bool
  hk_OnStop :: "'s \<Rightarrow> 's"

datatype 'e process_event = StartHook nat | StopHook nat | Goroutine 'e | MainReturns

record 's process =
  pr_state :: 's
  pr_running :: bool
  pr_exited :: bool

definition fx_New :: "'s \<Rightarrow> 's process" where
  "fx_New s = \<lparr>pr_state = s, pr_running = False, pr_exited = False\<rparr>"

inductive process_step ::
  "('e \<Rightarrow> 's \<Rightarrow> 's \<Rightarrow> bool) \<Rightarrow> 's fx_hook list \<Rightarrow> 'e process_event \<Rightarrow> 's process \<Rightarrow> 's process \<Rightarrow> bool"
  for step :: "'e \<Rightarrow> 's \<Rightarrow> 's \<Rightarrow> bool" and hooks :: "'s fx_hook list" where
  start_hook: "\<not> pr_exited p \<Longrightarrow> i < length hooks \<Longrightarrow>
    process_step step hooks (StartHook i) p (p\<lparr>pr_running := pr_running p \<or> hk_starts (hooks ! i)\<rparr>)"
| stop_hook: "\<not> pr_exited p \<Longrightarrow> i < length hooks \<Longrightarrow>
    process_step step hooks (StopHook i) p (p\<lparr>pr_state := hk_OnStop (hooks ! i) (pr_state p)\<rparr>)"
| goroutine: "\<not> pr_exited p \<Longrightarrow> pr_running p \<Longrightarrow> step e (pr_state p) s \<Longrightarrow>
    process_step step hooks (Goroutine e) p (p\<lparr>pr_state := s\<rparr>)"
| main_returns: "\<not> pr_exited p \<Longrightarrow> process_step step hooks MainReturns p (p\<lparr>pr_exited := True\<rparr>)"

inductive_cases process_stepE: "process_step step hooks ev p p'"

inductive process_steps ::
  "('e \<Rightarrow> 's \<Rightarrow> 's \<Rightarrow> bool) \<Rightarrow> 's fx_hook list \<Rightarrow> 'e process_event list \<Rightarrow> 's process \<Rightarrow> 's process \<Rightarrow> bool"
  for step :: "'e \<Rightarrow> 's \<Rightarrow> 's \<Rightarrow> bool" and hooks :: "'s fx_hook list" where
  proc_refl: "process_steps step hooks [] p p"
| proc_step: "process_step step hooks ev p p' \<Longrightarrow> process_steps step hooks evs p' p'' \<Longrightarrow>
    process_steps step hooks (ev # evs) p p''"

inductive_simps process_steps_Nil [simp]: "process_steps step hooks [] p p'"
inductive_simps process_steps_Cons: "process_steps step hooks (ev # evs) p p'"

inductive_simps process_step_simps [simp]:
  "process_step step hooks (StartHook i) p p'"
  "process_step step hooks (StopHook i) p p'"
  "process_step step hooks (Goroutine e) p p'"
  "process_step step hooks MainReturns p p'"

lemma process_steps_append:
  "process_steps step hooks (evs @ evs') p p'' \<longleftrightarrow>
     (\<exists>p'. process_steps step hooks evs p p' \<and> process_steps step hooks evs' p' p'')"
  by (induction evs arbitrary: p) (auto simp: process_steps_Cons)

section \<open>What fx documents\<close>

definition hook_starts :: "'e process_event list \<Rightarrow> nat list" where
  "hook_starts evs = concat (map (\<lambda>ev. case ev of StartHook i \<Rightarrow> [i] | _ \<Rightarrow> []) evs)"

definition hook_stops :: "'e process_event list \<Rightarrow> nat list" where
  "hook_stops evs = concat (map (\<lambda>ev. case ev of StopHook i \<Rightarrow> [i] | _ \<Rightarrow> []) evs)"

text \<open>
  Hooks start in the order they were appended and stop in the reverse order, stopping begins when
  all have started, and \<open>main\<close> returns when all have stopped; \<open>n\<close> is the number of hooks.
\<close>

definition fx_documented :: "nat \<Rightarrow> 'e process_event list \<Rightarrow> bool" where
  "fx_documented n evs \<longleftrightarrow>
     prefix (hook_starts evs) [0..<n] \<and> prefix (hook_stops evs) (rev [0..<n]) \<and>
     (\<forall>pre i post. evs = pre @ StopHook i # post \<longrightarrow> hook_starts pre = [0..<n]) \<and>
     (\<forall>pre post. evs = pre @ MainReturns # post \<longrightarrow> hook_stops pre = rev [0..<n])"

lemma hook_simps [simp]:
  "hook_starts [] = []" "hook_stops [] = []"
  "hook_starts (StartHook i # evs) = i # hook_starts evs" "hook_stops (StartHook i # evs) = hook_stops evs"
  "hook_starts (StopHook i # evs) = hook_starts evs" "hook_stops (StopHook i # evs) = i # hook_stops evs"
  "hook_starts (Goroutine e # evs) = hook_starts evs" "hook_stops (Goroutine e # evs) = hook_stops evs"
  "hook_starts (MainReturns # evs) = hook_starts evs" "hook_stops (MainReturns # evs) = hook_stops evs"
  "hook_starts (evs @ evs') = hook_starts evs @ hook_starts evs'"
  "hook_stops (evs @ evs') = hook_stops evs @ hook_stops evs'"
  by (simp_all add: hook_starts_def hook_stops_def)

lemma hook_map_Goroutine [simp]:
  "hook_starts (map Goroutine evs) = []" "hook_stops (map Goroutine evs) = []"
  by (induction evs) simp_all

text \<open>The life of a process: all hooks start, its goroutines run, all hooks stop, it ends.\<close>

definition fx_run :: "nat \<Rightarrow> 'e list \<Rightarrow> 'e process_event list" where
  "fx_run n evs = map StartHook [0..<n] @ map Goroutine evs @ map StopHook (rev [0..<n]) @ [MainReturns]"

lemma hook_map_hooks [simp]:
  "hook_starts (map StartHook is) = is" "hook_stops (map StartHook is) = []"
  "hook_starts (map StopHook is) = []" "hook_stops (map StopHook is) = is"
  by (induction "is") simp_all

lemma in_split_map:
  assumes "xs = pre @ y # post" and "y \<notin> set as" and "xs = as @ bs"
  shows "\<exists>cs. pre = as @ cs \<and> bs = cs @ y # post"
  using assms
proof (induction as arbitrary: xs pre)
  case (Cons a as)
  then obtain pre' where "pre = a # pre'" by (cases pre) auto
  with Cons.IH [of "pre' @ y # post" pre'] Cons.prems show ?case by auto
qed simp

lemma fx_run_documented: "fx_documented n (fx_run n evs)"
proof -
  let ?as = "map StartHook [0..<n] @ map Goroutine evs :: 'a process_event list"
  let ?bs = "map StopHook (rev [0..<n]) @ [MainReturns] :: 'a process_event list"
  have run: "fx_run n evs = ?as @ ?bs"
    by (simp add: fx_run_def)
  have "hook_starts pre = [0..<n]" if e: "?as @ ?bs = pre @ StopHook i # post" for pre i and post :: "'a process_event list"
  proof -
    obtain cs where pre: "pre = ?as @ cs" and bs: "?bs = cs @ StopHook i # post"
      using in_split_map [OF e _ refl] by auto
    from arg_cong [OF bs, of hook_starts] have "hook_starts cs = []"
      by simp
    with pre show ?thesis by simp
  qed
  moreover have "hook_stops pre = rev [0..<n]" if e: "?as @ ?bs = pre @ MainReturns # post" for pre and post :: "'a process_event list"
  proof -
    obtain cs where pre: "pre = (?as @ map StopHook (rev [0..<n])) @ cs" and bs: "[MainReturns] = cs @ MainReturns # post"
      using in_split_map [OF e, of "?as @ map StopHook (rev [0..<n])" "[MainReturns]"] by auto
    from bs have "cs = []" by (cases cs) auto
    with pre show ?thesis by simp
  qed
  ultimately show ?thesis
    unfolding fx_documented_def run by auto
qed

section \<open>A worker as a process\<close>

text \<open>The hook of the three worker programs: \<open>OnStart\<close> starts \<open>Run\<close>, \<open>OnStop\<close> cancels.\<close>

definition run_hook :: "('s \<Rightarrow> 's) \<Rightarrow> 's fx_hook" where
  "run_hook cancel = \<lparr>hk_starts = True, hk_OnStop = cancel\<rparr>"

text \<open>
  A worker: its threads' steps, the runs made of them, what cancelling its context does, and what the
  rest of the world has of it.  Cancelling alone does nothing out there.
\<close>

locale background_worker =
  fixes step :: "'e \<Rightarrow> 's \<Rightarrow> 's \<Rightarrow> bool"
    and steps :: "'e list \<Rightarrow> 's \<Rightarrow> 's \<Rightarrow> bool"
    and cancel :: "'s \<Rightarrow> 's"
    and out :: "'s \<Rightarrow> 'o"
  assumes steps_cases: "steps evs s s' \<Longrightarrow> evs = [] \<and> s' = s \<or>
      (\<exists>evs' ev s1. evs = evs' @ [ev] \<and> steps evs' s s1 \<and> step ev s1 s')"
    and cancel_out: "out (cancel s) = out s"
begin

lemma process_worker:
  assumes "steps evs s s'"
  shows "process_steps step hooks (map Goroutine evs)
    \<lparr>pr_state = s, pr_running = True, pr_exited = False\<rparr> \<lparr>pr_state = s', pr_running = True, pr_exited = False\<rparr>"
  using assms
proof (induction evs arbitrary: s' rule: rev_induct)
  case Nil
  then show ?case using steps_cases by fastforce
next
  case (snoc ev evs)
  obtain s1 where "steps evs s s1" and "step ev s1 s'"
    using steps_cases [OF snoc.prems] by auto
  with snoc.IH [of s1] show ?case
    by (auto simp: process_steps_append process_steps_Cons)
qed

text \<open>
  Nothing waits for the goroutine: the process can end with whatever \<open>Run\<close> had done when it stops.
\<close>

lemma exits_at_once:
  assumes "steps evs s s'"
  shows "\<exists>p. process_steps step [run_hook cancel] (fx_run 1 evs) (fx_New s) p \<and> pr_exited p \<and>
    pr_state p = cancel s' \<and> out (pr_state p) = out s'"
proof -
  have "process_steps step [run_hook cancel] (fx_run 1 evs) (fx_New s)
      \<lparr>pr_state = cancel s', pr_running = True, pr_exited = True\<rparr>"
    using process_worker [OF assms, of "[run_hook cancel]"]
    by (fastforce simp: fx_run_def fx_New_def process_steps_append process_steps_Cons run_hook_def)
  then show ?thesis using cancel_out by auto
qed

end

text \<open>After \<open>main\<close> has returned nothing happens any more.\<close>

lemma exited_stays: "process_steps step hooks evs p p' \<Longrightarrow> pr_exited p \<Longrightarrow> evs = [] \<and> p' = p"
  by (induction rule: process_steps.induct) (auto elim: process_stepE)

end
