(* ===== verification/PersistenceMain.thy ===== *)
theory PersistenceMain
  imports PersistenceWorker Lifecycle
begin

text \<open>
  \<open>cmd/persistence/main.go\<close> and \<open>NewDB\<close> of \<open>framework/postgres/postgres.go\<close>: the process around
  the persistence worker.  It has two hooks: that of \<open>NewDB\<close>, appended first because the worker needs
  the database, which closes the pool on stop, and that of \<open>runPersistence\<close>, which runs the worker
  and cancels its context.  They stop in the reverse order, so the pool is closed right after the
  cancellation.
\<close>

section \<open>The database pool\<close>

text \<open>
  \<open>open\<close> is \<open>gorm.Open\<close> with the PostgreSQL dialect, \<open>pool\<close> its method \<open>DB\<close>.  The pool
  of \<open>database/sql\<close> refuses every statement once it is closed.
\<close>

definition pool_closed :: go_error where
  "pool_closed = ErrText ''sql: database is closed''"

definition closable :: "'d gorm_db \<Rightarrow> (bool \<times> 'd) gorm_db" where
  "closable db c = (\<lambda>(closed, d).
     if closed then (Inl pool_closed, (closed, d))
     else case db c d of (r, d') \<Rightarrow> (r, (closed, d')))"

definition close_pool :: "(bool \<times> 'd) PersistenceWorker \<Rightarrow> (bool \<times> 'd) PersistenceWorker" where
  "close_pool s = s\<lparr>pw_db := (True, snd (pw_db s))\<rparr>"

definition NewDB ::
  "(string \<Rightarrow> go_error + 'h) \<Rightarrow> ('h \<Rightarrow> go_error + 'q) \<Rightarrow> ('q \<Rightarrow> 's \<Rightarrow> 's) \<Rightarrow> string \<Rightarrow> 's fx_hook list \<Rightarrow>
   (go_error + 'h) \<times> 's fx_hook list" where
  "NewDB open pool close url lc =
     (case open url of
        Inl err \<Rightarrow> (Inl err, lc)
      | Inr db \<Rightarrow>
          (case pool db of
             Inl err \<Rightarrow> (Inl err, lc)
           | Inr sqlDB \<Rightarrow> (Inr db, lc @ [\<lparr>hk_starts = False, hk_OnStop = close sqlDB\<rparr>])))"

section \<open>The process\<close>

definition cancel_run :: "'d PersistenceWorker \<Rightarrow> 'd PersistenceWorker" where
  "cancel_run s = s\<lparr>pw_done := True\<rparr>"

definition runPersistence ::
  "(bool \<times> 'd) PersistenceWorker fx_hook list \<Rightarrow> (bool \<times> 'd) PersistenceWorker fx_hook list" where
  "runPersistence lc = lc @ [run_hook cancel_run]"

text \<open>The hooks of the process, or the error with which it does not start.\<close>

definition persistence_hooks ::
  "(string \<Rightarrow> go_error + 'h) \<Rightarrow> ('h \<Rightarrow> go_error + 'q) \<Rightarrow> string \<Rightarrow>
   go_error + (bool \<times> 'd) PersistenceWorker fx_hook list" where
  "persistence_hooks open pool url =
     (case NewDB open pool (\<lambda>_. close_pool) url [] of
        (Inl err, _) \<Rightarrow> Inl err
      | (Inr db, lc) \<Rightarrow> Inr (runPersistence lc))"

text \<open>The goroutine of \<open>Run\<close>: the worker's steps on the pool, cancelled only by the hook.\<close>

definition persist_step ::
  "'d gorm_db \<Rightarrow> pw_event \<Rightarrow> (bool \<times> 'd) PersistenceWorker \<Rightarrow> (bool \<times> 'd) PersistenceWorker \<Rightarrow> bool" where
  "persist_step db ev s s' \<longleftrightarrow> ev \<noteq> Cancel \<and>
     pw_step (store_GetContentByRequestIDs (closable db)) (store_BulkUpsertMessages (closable db)) ev s = Some s'"

definition persist_steps ::
  "'d gorm_db \<Rightarrow> pw_event list \<Rightarrow> (bool \<times> 'd) PersistenceWorker \<Rightarrow> (bool \<times> 'd) PersistenceWorker \<Rightarrow> bool" where
  "persist_steps db evs s s' \<longleftrightarrow> Cancel \<notin> set evs \<and> pg_worker (closable db) evs s = Some s'"

definition pool_view :: "('d \<Rightarrow> pg_view) \<Rightarrow> bool \<times> 'd \<Rightarrow> pg_view" where
  "pool_view view = (\<lambda>(closed, d). view d)"

lemma closable_documented: "pg_documented db view \<Longrightarrow> pg_documented (closable db) (pool_view view)"
  by (auto simp: pg_documented_def closable_def pool_view_def split: prod.splits if_splits)

lemma persist_steps_cases:
  assumes "persist_steps db evs s s'"
  shows "evs = [] \<and> s' = s \<or>
    (\<exists>evs' ev s1. evs = evs' @ [ev] \<and> persist_steps db evs' s s1 \<and> persist_step db ev s1 s')"
  using assms
  by (cases evs rule: rev_cases)
    (auto simp: persist_steps_def persist_step_def pw_run_append split: option.splits)

text \<open>What the world has of the worker: the database and the committed messages.\<close>

interpretation persistence: background_worker "persist_step db" "persist_steps db" cancel_run
    "\<lambda>s. (snd (pw_db s), pw_committed s)"
  by unfold_locales (rule persist_steps_cases, assumption, simp add: cancel_run_def)

section \<open>After the pool is closed\<close>

lemma closed_get: "snd (store_GetContentByRequestIDs (closable db) ids (True, d)) = (True, d)"
  by (simp add: store_GetContentByRequestIDs_def go_return_def go_bind_def closable_def)

lemma closed_upsert: "snd (store_BulkUpsertMessages (closable db) it ms (True, d)) = (True, d)"
  by (simp add: store_BulkUpsertMessages_def go_return_def go_bind_def closable_def)

lemma closed_flush_step:
  assumes "flush_step (store_GetContentByRequestIDs (closable db)) (store_BulkUpsertMessages (closable db))
    c o' ph (uc, (True, d)) = (ph', (uc', d'))"
  shows "d' = (True, d)"
proof (cases ph)
  case (AtRead snap)
  with assms closed_get [of db "flush_ids (ord_ids o') snap" d] show ?thesis
    by (auto simp: flush_step_def split: if_splits prod.splits sum.splits)
next
  case (AtUpsert snap ex)
  with assms closed_upsert [of db "ord_sessions o'" "flush_msgs (ord_msgs o') ex snap" d] show ?thesis
    by (auto simp: flush_step_def split: if_splits prod.splits)
qed (use assms in \<open>auto simp: flush_step_def split: option.splits prod.splits\<close>)

lemma closed_persist_step:
  assumes "persist_step db ev s s'" and "pw_db s = (True, d)"
  shows "pw_db s' = (True, d)"
proof -
  have st: "pw_step (store_GetContentByRequestIDs (closable db)) (store_BulkUpsertMessages (closable db)) ev s = Some s'"
    using assms(1) by (simp add: persist_step_def)
  show ?thesis
  proof (cases ev)
    case (SpawnedStep i o')
    with st assms(2) show ?thesis
      by (auto simp: pw_step_def spawned_step_def split: if_splits flush_phase.splits prod.splits
          dest: closed_flush_step)
  next
    case (FlusherStep o')
    with st assms(2) show ?thesis
      by (auto simp: pw_step_def flusher_step_def split: flusher_pc.splits flush_phase.splits prod.splits
          dest: closed_flush_step)
  qed (use st assms(2) in \<open>auto simp: pw_step_def consumer_step_def elim!: consume_cases
      split: if_splits option.splits\<close>)
qed

lemma closed_process:
  assumes "process_steps (persist_step db) hooks evs p p'" and "pw_db (pr_state p) = (True, d)"
    and "\<And>hk s. hk \<in> set hooks \<Longrightarrow> pw_db s = (True, d) \<Longrightarrow> pw_db (hk_OnStop hk s) = (True, d)"
  shows "pw_db (pr_state p') = (True, d)"
  using assms(1,2)
  by (induction rule: process_steps.induct)
    (auto elim!: process_stepE dest: closed_persist_step simp: assms(3) [OF nth_mem])

lemma persistence_hooks_Inr:
  assumes "persistence_hooks open pool url = Inr hooks"
  shows "hooks = [\<lparr>hk_starts = False, hk_OnStop = close_pool\<rparr>, run_hook cancel_run]"
  using assms by (auto simp: persistence_hooks_def NewDB_def runPersistence_def split: sum.splits)

text \<open>The run before the signal is a run of the worker.\<close>

lemma process_goroutines:
  "process_steps (persist_step db) hooks (map Goroutine evs) p p' \<Longrightarrow>
     Cancel \<notin> set evs \<and> pg_worker (closable db) evs (pr_state p) = Some (pr_state p')"
proof (induction evs arbitrary: p)
  case (Cons ev evs)
  obtain s where "persist_step db ev (pr_state p) s" and "process_steps (persist_step db) hooks (map Goroutine evs) (p\<lparr>pr_state := s\<rparr>) p'"
    using Cons.prems by (auto simp: process_steps_Cons)
  with Cons.IH [OF this(2)] show ?case
    by (auto simp: persist_step_def)
qed simp

section \<open>Properties\<close>



end
