(* ===== verification/ChatWorker.thy ===== *)
theory ChatWorker
  imports Publisher
begin

text \<open>
  \<open>consumer/worker.go\<close>: the consumer loop that starts a goroutine per chat request, at most
  \<open>concurrency\<close> at a time by a semaphore channel, each running the use case of
  \<open>process_chat_request.go\<close>.  The threads are a labelled step relation; a goroutine's step is one
  round of \<open>range tokenCh\<close> with its \<open>PublishToken\<close>.  \<open>gen content r\<close> says that
  \<open>Generate\<close> can return \<open>r\<close>, an error or a channel that carries the listed tokens; when the
  context ends the generator may close its channel early.
\<close>

section \<open>The worker\<close>

datatype worker_pc = Generating | Ranging "string list" | Releasing | Exited

text \<open>\<open>wp_Sent\<close>: the events the goroutine has published.\<close>

record worker_proc =
  wp_Req :: ChatRequest
  wp_Sent :: "TokenEvent list"
  wp_PC :: worker_pc

datatype consumer_loop = WFetching | WAcquiring ChatRequest | WReturned

text \<open>
  \<open>wk_sem\<close> is the fill of the semaphore channel; \<open>wk_procs\<close> the goroutines started so far,
  \<open>wk_calls\<close> the events published so far, in order.
\<close>

record 'k Worker =
  wk_kafka :: 'k
  wk_loop :: consumer_loop
  wk_sem :: nat
  wk_procs :: "worker_proc list"
  wk_done :: bool
  wk_calls :: "TokenEvent list"

definition worker_concurrency :: "nat \<Rightarrow> nat" where
  "worker_concurrency numCPU = numCPU * 50"

definition wk_New :: "'k \<Rightarrow> 'k Worker" where
  "wk_New k =
     \<lparr>wk_kafka = k, wk_loop = WFetching, wk_sem = 0, wk_procs = [], wk_done = False, wk_calls = []\<rparr>"

datatype wk_event =
    ReqFetched string
  | ReqFetchFailed
  | Acquired
  | Generated nat
  | Published nat
  | PublishFailed nat
  | GenStopped nat
  | Released nat
  | WkCancelled

definition next_event :: "ChatRequest \<Rightarrow> string list \<Rightarrow> TokenEvent" where
  "next_event req rest = (case rest of [] \<Rightarrow> done_event req | token # _ \<Rightarrow> delta_event req token)"

definition after_event :: "string list \<Rightarrow> worker_pc" where
  "after_event rest = (case rest of [] \<Rightarrow> Releasing | _ # tokens \<Rightarrow> Ranging tokens)"

definition set_pc :: "nat \<Rightarrow> worker_pc \<Rightarrow> 'k Worker \<Rightarrow> 'k Worker" where
  "set_pc i pc s = s\<lparr>wk_procs := (wk_procs s)[i := (wk_procs s ! i)\<lparr>wp_PC := pc\<rparr>]\<rparr>"

definition published :: "nat \<Rightarrow> string list \<Rightarrow> 'k \<Rightarrow> 'k Worker \<Rightarrow> 'k Worker" where
  "published i rest k s =
     (let p = wk_procs s ! i; t = next_event (wp_Req p) rest in
      s\<lparr>wk_kafka := k, wk_calls := wk_calls s @ [t],
        wk_procs := (wk_procs s)[i := p\<lparr>wp_Sent := wp_Sent p @ [t], wp_PC := after_event rest\<rparr>]\<rparr>)"

inductive wk_step ::
  "(string \<Rightarrow> go_error + string list \<Rightarrow> bool) \<Rightarrow> (TokenEvent \<Rightarrow> ('k, unit) go_call) \<Rightarrow> nat \<Rightarrow>
   wk_event \<Rightarrow> 'k Worker \<Rightarrow> 'k Worker \<Rightarrow> bool"
  for gen :: "string \<Rightarrow> go_error + string list \<Rightarrow> bool" and publish :: "TokenEvent \<Rightarrow> ('k, unit) go_call"
    and concurrency :: nat where
  req_fetched: "wk_loop s = WFetching \<Longrightarrow>
    wk_step gen publish concurrency (ReqFetched m) s
      (case unmarshal_ChatRequest m of None \<Rightarrow> s | Some req \<Rightarrow> s\<lparr>wk_loop := WAcquiring req\<rparr>)"
| req_fetch_failed: "wk_loop s = WFetching \<Longrightarrow>
    wk_step gen publish concurrency ReqFetchFailed s (if wk_done s then s\<lparr>wk_loop := WReturned\<rparr> else s)"
| acquired: "wk_loop s = WAcquiring req \<Longrightarrow> wk_sem s < concurrency \<Longrightarrow>
    wk_step gen publish concurrency Acquired s
      (s\<lparr>wk_sem := Suc (wk_sem s), wk_loop := WFetching,
         wk_procs := wk_procs s @ [\<lparr>wp_Req = req, wp_Sent = [], wp_PC = Generating\<rparr>]\<rparr>)"
| generated: "i < length (wk_procs s) \<Longrightarrow> wp_PC (wk_procs s ! i) = Generating \<Longrightarrow>
    gen (cr_Content (wp_Req (wk_procs s ! i))) r \<Longrightarrow>
    wk_step gen publish concurrency (Generated i) s
      (set_pc i (case r of Inl e \<Rightarrow> Releasing | Inr tokens \<Rightarrow> Ranging tokens) s)"
| published: "i < length (wk_procs s) \<Longrightarrow> wp_PC (wk_procs s ! i) = Ranging rest \<Longrightarrow>
    publish (next_event (wp_Req (wk_procs s ! i)) rest) (wk_kafka s) = (Inr (), k) \<Longrightarrow>
    wk_step gen publish concurrency (Published i) s (published i rest k s)"
| publish_failed: "i < length (wk_procs s) \<Longrightarrow> wp_PC (wk_procs s ! i) = Ranging rest \<Longrightarrow>
    publish (next_event (wp_Req (wk_procs s ! i)) rest) (wk_kafka s) = (Inl e, k) \<Longrightarrow>
    wk_step gen publish concurrency (PublishFailed i) s ((set_pc i Releasing s)\<lparr>wk_kafka := k\<rparr>)"
| gen_stopped: "i < length (wk_procs s) \<Longrightarrow> wp_PC (wk_procs s ! i) = Ranging rest \<Longrightarrow> wk_done s \<Longrightarrow>
    wk_step gen publish concurrency (GenStopped i) s (set_pc i (Ranging []) s)"
| released: "i < length (wk_procs s) \<Longrightarrow> wp_PC (wk_procs s ! i) = Releasing \<Longrightarrow>
    wk_step gen publish concurrency (Released i) s ((set_pc i Exited s)\<lparr>wk_sem := wk_sem s - 1\<rparr>)"
| wk_cancelled: "wk_step gen publish concurrency WkCancelled s (s\<lparr>wk_done := True\<rparr>)"

inductive wk_steps ::
  "(string \<Rightarrow> go_error + string list \<Rightarrow> bool) \<Rightarrow> (TokenEvent \<Rightarrow> ('k, unit) go_call) \<Rightarrow> nat \<Rightarrow>
   wk_event list \<Rightarrow> 'k Worker \<Rightarrow> 'k Worker \<Rightarrow> bool"
  for gen :: "string \<Rightarrow> go_error + string list \<Rightarrow> bool" and publish :: "TokenEvent \<Rightarrow> ('k, unit) go_call"
    and concurrency :: nat where
  wk_refl: "wk_steps gen publish concurrency [] s s"
| wk_snoc: "wk_steps gen publish concurrency evs s s' \<Longrightarrow> wk_step gen publish concurrency ev s' s'' \<Longrightarrow>
    wk_steps gen publish concurrency (evs @ [ev]) s s''"

lemmas wk_defs = set_pc_def published_def next_event_def after_event_def Let_def

section \<open>The semaphore\<close>

definition running :: "worker_proc \<Rightarrow> bool" where
  "running p \<longleftrightarrow> wp_PC p \<noteq> Exited"

definition sem_inv :: "nat \<Rightarrow> 'k Worker \<Rightarrow> bool" where
  "sem_inv concurrency s \<longleftrightarrow>
     wk_sem s = length (filter running (wk_procs s)) \<and> wk_sem s \<le> concurrency"

lemma length_filter_update:
  "i < length xs \<Longrightarrow> P (xs ! i) = P y \<Longrightarrow> length (filter P (xs[i := y])) = length (filter P xs)"
proof (induction xs arbitrary: i)
  case (Cons x xs)
  then show ?case by (cases i) auto
qed simp

lemma length_filter_drop:
  "i < length xs \<Longrightarrow> P (xs ! i) \<Longrightarrow> \<not> P y \<Longrightarrow> length (filter P (xs[i := y])) = length (filter P xs) - 1"
proof (induction xs arbitrary: i)
  case (Cons x xs)
  show ?case
  proof (cases i)
    case (Suc j)
    with Cons.prems have "xs ! j \<in> set (filter P xs)" by simp
    then have "0 < length (filter P xs)" by (rule length_pos_if_in_set)
    with Cons Suc show ?thesis by auto
  qed (use Cons.prems in simp)
qed simp

lemma sem_inv_step: "wk_step gen publish concurrency ev s s' \<Longrightarrow> sem_inv concurrency s \<Longrightarrow> sem_inv concurrency s'"
proof (induction rule: wk_step.induct)
  case (released i s)
  then show ?case
    using length_filter_drop [of i "wk_procs s" running "(wk_procs s ! i)\<lparr>wp_PC := Exited\<rparr>"]
    by (auto simp: sem_inv_def set_pc_def running_def)
qed (simp_all add: sem_inv_def wk_defs length_filter_update running_def split: option.split list.split sum.split)

lemma sem_inv_steps: "wk_steps gen publish concurrency evs s s' \<Longrightarrow> sem_inv concurrency s \<Longrightarrow> sem_inv concurrency s'"
  by (induction rule: wk_steps.induct) (auto dest: sem_inv_step)

section \<open>What a request gets\<close>

text \<open>
  The events of a goroutine are those of its request in order: the deltas of tokens the generator
  produced and, once its channel is closed, the done event.  Only a cancelled context cuts the tokens.
\<close>

definition reply_events :: "ChatRequest \<Rightarrow> string list \<Rightarrow> bool \<Rightarrow> TokenEvent list" where
  "reply_events req tokens d = map (delta_event req) tokens @ (if d then [done_event req] else [])"

definition proc_ok :: "(string \<Rightarrow> go_error + string list \<Rightarrow> bool) \<Rightarrow> bool \<Rightarrow> worker_proc \<Rightarrow> bool" where
  "proc_ok gen cancelled p \<longleftrightarrow>
     (case wp_PC p of
        Generating \<Rightarrow> wp_Sent p = []
      | Ranging rest \<Rightarrow>
          (\<exists>tokens lost sent. gen (cr_Content (wp_Req p)) (Inr tokens) \<and> sent @ rest @ lost = tokens \<and>
             (\<not> cancelled \<longrightarrow> lost = []) \<and> wp_Sent p = reply_events (wp_Req p) sent False)
      | _ \<Rightarrow> wp_Sent p = [] \<or>
          (\<exists>tokens lost sent d. gen (cr_Content (wp_Req p)) (Inr tokens) \<and> sent @ lost = tokens \<and>
             (d \<longrightarrow> \<not> cancelled \<longrightarrow> lost = []) \<and> wp_Sent p = reply_events (wp_Req p) sent d))"

lemma proc_ok_cancelled: "proc_ok gen c p \<Longrightarrow> proc_ok gen True p"
  unfolding proc_ok_def by (cases "wp_PC p") auto

lemma proc_ok_RangingI:
  "wp_PC p = Ranging rest \<Longrightarrow> gen (cr_Content (wp_Req p)) (Inr tokens) \<Longrightarrow> sent @ rest @ lost = tokens \<Longrightarrow>
     (\<not> c \<Longrightarrow> lost = []) \<Longrightarrow> wp_Sent p = reply_events (wp_Req p) sent False \<Longrightarrow> proc_ok gen c p"
  unfolding proc_ok_def by auto

lemma proc_ok_Releasing:
  "proc_ok gen c p \<Longrightarrow> wp_PC p \<noteq> Exited \<Longrightarrow> proc_ok gen c (p\<lparr>wp_PC := Releasing\<rparr>)"
  unfolding proc_ok_def by (cases "wp_PC p") (auto, metis)

lemma proc_ok_Exited: "proc_ok gen c p \<Longrightarrow> wp_PC p = Releasing \<Longrightarrow> proc_ok gen c (p\<lparr>wp_PC := Exited\<rparr>)"
  unfolding proc_ok_def by simp

lemma proc_ok_stopped:
  assumes "proc_ok gen True p" and "wp_PC p = Ranging rest"
  shows "proc_ok gen True (p\<lparr>wp_PC := Ranging []\<rparr>)"
  using assms unfolding proc_ok_def by fastforce

lemma proc_ok_published:
  assumes "proc_ok gen c p" and "wp_PC p = Ranging rest"
  shows "proc_ok gen c (p\<lparr>wp_Sent := wp_Sent p @ [next_event (wp_Req p) rest], wp_PC := after_event rest\<rparr>)"
proof -
  obtain tokens lost sent where g: "gen (cr_Content (wp_Req p)) (Inr tokens)" "sent @ rest @ lost = tokens"
    "\<not> c \<longrightarrow> lost = []" "wp_Sent p = reply_events (wp_Req p) sent False"
    using assms unfolding proc_ok_def by auto
  show ?thesis
  proof (cases rest)
    case Nil
    then have "wp_Sent p @ [next_event (wp_Req p) rest] = reply_events (wp_Req p) sent True"
      using g(4) by (simp add: reply_events_def next_event_def)
    with g Nil show ?thesis
      unfolding proc_ok_def by (auto simp: after_event_def)
  next
    case (Cons t ts)
    then have "wp_Sent p @ [next_event (wp_Req p) rest] = reply_events (wp_Req p) (sent @ [t]) False"
      using g(4) by (simp add: reply_events_def next_event_def)
    moreover have "(sent @ [t]) @ ts @ lost = tokens"
      using g(2) Cons by simp
    ultimately show ?thesis
      using g(1,3) Cons
      by (intro proc_ok_RangingI [of _ ts gen tokens "sent @ [t]" lost]) (simp_all add: after_event_def)
  qed
qed

text \<open>With pairwise different request ids, the published events of a request are its goroutine's.\<close>

definition proc_id :: "worker_proc \<Rightarrow> string" where
  "proc_id p = cr_RequestID (wp_Req p)"

abbreviation events_for :: "string \<Rightarrow> TokenEvent list \<Rightarrow> TokenEvent list" where
  "events_for r ts \<equiv> filter (\<lambda>t. te_RequestID t = r) ts"

definition calls_match :: "worker_proc list \<Rightarrow> TokenEvent list \<Rightarrow> bool" where
  "calls_match ps calls \<longleftrightarrow>
     (\<forall>p \<in> set ps. events_for (proc_id p) calls = wp_Sent p) \<and>
     (\<forall>r. r \<notin> proc_id ` set ps \<longrightarrow> events_for r calls = [])"

definition procs_ok :: "(string \<Rightarrow> go_error + string list \<Rightarrow> bool) \<Rightarrow> 'k Worker \<Rightarrow> bool" where
  "procs_ok gen s \<longleftrightarrow> (\<forall>p \<in> set (wk_procs s). proc_ok gen (wk_done s) p)"

lemma next_event_id [simp]: "te_RequestID (next_event req rest) = cr_RequestID req"
  by (simp add: next_event_def delta_event_def done_event_def split: list.split)

lemma map_update_same: "i < length xs \<Longrightarrow> f y = f (xs ! i) \<Longrightarrow> map f (xs[i := y]) = map f xs"
  by (metis list_update_id map_update nth_map length_map)

lemma procs_ok_update:
  assumes "procs_ok gen s" and "proc_ok gen (wk_done s) q"
  shows "procs_ok gen (s\<lparr>wk_procs := (wk_procs s)[i := q]\<rparr>)"
  using assms set_update_subset_insert [of "wk_procs s" i q] by (auto simp: procs_ok_def)

lemma procs_ok_step: "wk_step gen publish concurrency ev s s' \<Longrightarrow> procs_ok gen s \<Longrightarrow> procs_ok gen s'"
proof (induction rule: wk_step.induct)
  case (generated i s r)
  then have "wp_Sent (wk_procs s ! i) = []"
    using nth_mem [of i "wk_procs s"] unfolding procs_ok_def proc_ok_def by fastforce
  then have "proc_ok gen (wk_done s) ((wk_procs s ! i)
      \<lparr>wp_PC := case r of Inl e \<Rightarrow> Releasing | Inr tokens \<Rightarrow> Ranging tokens\<rparr>)"
  proof (cases r)
    case (Inr tokens)
    with generated(3) \<open>wp_Sent (wk_procs s ! i) = []\<close> show ?thesis
      by (intro proc_ok_RangingI [of _ tokens gen tokens "[]" "[]"]) (simp_all add: reply_events_def)
  qed (simp add: proc_ok_def)
  with generated(4) show ?case
    unfolding set_pc_def by (intro procs_ok_update)
next
  case (published i s rest k)
  then have "procs_ok gen (s\<lparr>wk_procs := (wk_procs s)[i := (wk_procs s ! i)
      \<lparr>wp_Sent := wp_Sent (wk_procs s ! i) @ [next_event (wp_Req (wk_procs s ! i)) rest],
       wp_PC := after_event rest\<rparr>]\<rparr>)"
    by (intro procs_ok_update proc_ok_published) (auto simp: procs_ok_def)
  then show ?case by (simp add: procs_ok_def ChatWorker.published_def Let_def)
next
  case (publish_failed i s rest e k)
  then have "procs_ok gen (set_pc i Releasing s)"
    unfolding set_pc_def by (intro procs_ok_update proc_ok_Releasing) (auto simp: procs_ok_def)
  then show ?case by (simp add: procs_ok_def)
next
  case (gen_stopped i s rest)
  then have "proc_ok gen True (wk_procs s ! i)" by (auto simp: procs_ok_def)
  from proc_ok_stopped [OF this gen_stopped(2)] gen_stopped show ?case
    unfolding set_pc_def by (intro procs_ok_update) simp_all
next
  case (released i s)
  then have "procs_ok gen (set_pc i Exited s)"
    unfolding set_pc_def by (intro procs_ok_update proc_ok_Exited) (auto simp: procs_ok_def)
  then show ?case by (simp add: procs_ok_def)
next
  case (wk_cancelled s)
  then show ?case using proc_ok_cancelled by (auto simp: procs_ok_def)
next
  case (acquired s req)
  then show ?case by (auto simp: procs_ok_def proc_ok_def)
qed (auto simp: procs_ok_def split: option.split)

lemma procs_ok_steps: "wk_steps gen publish concurrency evs s s' \<Longrightarrow> procs_ok gen s \<Longrightarrow> procs_ok gen s'"
  by (induction rule: wk_steps.induct) (auto dest: procs_ok_step)

lemma ids_set_pc [simp]: "map proc_id (wk_procs (set_pc i pc s)) = map proc_id (wk_procs s)"
  by (cases "i < length (wk_procs s)") (simp_all add: set_pc_def map_update_same proc_id_def list_update_beyond)

lemma set_pc_sels [simp]:
  "wk_calls (set_pc i pc s) = wk_calls s" "wk_done (set_pc i pc s) = wk_done s"
  "wk_kafka (set_pc i pc s) = wk_kafka s"
  by (simp_all add: set_pc_def)

text \<open>Goroutines are only added, with their request fixed.\<close>

lemma ids_step:
  "wk_step gen publish concurrency ev s s' \<Longrightarrow> \<exists>ids. map proc_id (wk_procs s') = map proc_id (wk_procs s) @ ids"
proof (induction rule: wk_step.induct)
  case (published i s rest k)
  then have "map proc_id (wk_procs (published i rest k s)) = map proc_id (wk_procs s)"
    by (simp add: ChatWorker.published_def Let_def map_update_same proc_id_def)
  then show ?case by simp
qed (simp_all split: option.split)

lemma calls_match_set_pc:
  assumes "calls_match (wk_procs s) calls" and "i < length (wk_procs s)"
  shows "calls_match (wk_procs (set_pc i pc s)) calls"
proof -
  have "proc_id ` set (wk_procs (set_pc i pc s)) = proc_id ` set (wk_procs s)"
    using ids_set_pc [of i pc s] by (metis set_map)
  moreover have "events_for (proc_id p) calls = wp_Sent p" if p: "p \<in> set (wk_procs (set_pc i pc s))" for p
  proof -
    let ?q = "(wk_procs s ! i)\<lparr>wp_PC := pc\<rparr>"
    have "p \<in> insert ?q (set (wk_procs s))"
      using p set_update_subset_insert [of "wk_procs s" i ?q] by (auto simp: set_pc_def)
    then obtain q where "q \<in> set (wk_procs s)" and "proc_id p = proc_id q" and "wp_Sent p = wp_Sent q"
      using nth_mem [OF assms(2)] that by (auto simp: proc_id_def)
    with assms(1) show ?thesis by (simp add: calls_match_def)
  qed
  ultimately show ?thesis using assms(1) by (simp add: calls_match_def)
qed

lemma calls_match_published:
  assumes "calls_match ps calls" and "i < length ps" and "distinct (map proc_id ps)"
    and "te_RequestID t = proc_id (ps ! i)"
  shows "calls_match (ps[i := (ps ! i)\<lparr>wp_Sent := wp_Sent (ps ! i) @ [t], wp_PC := pc\<rparr>]) (calls @ [t])"
proof -
  let ?q = "(ps ! i)\<lparr>wp_Sent := wp_Sent (ps ! i) @ [t], wp_PC := pc\<rparr>"
  have ids: "map proc_id (ps[i := ?q]) = map proc_id ps"
    using assms(2) by (simp add: map_update_same proc_id_def)
  have "events_for (proc_id p) (calls @ [t]) = wp_Sent p" if "p \<in> set (ps[i := ?q])" for p
  proof -
    from that obtain j where j: "j < length ps" "p = ps[i := ?q] ! j"
      by (metis in_set_conv_nth length_list_update)
    have old: "events_for (proc_id (ps ! j)) calls = wp_Sent (ps ! j)"
      using assms(1) j(1) by (simp add: calls_match_def)
    show ?thesis
    proof (cases "j = i")
      case True
      with j old assms(2,4) show ?thesis by (simp add: proc_id_def)
    next
      case False
      with assms(2,3) j(1) have "proc_id (ps ! j) \<noteq> proc_id (ps ! i)"
        by (metis length_map nth_eq_iff_index_eq nth_map)
      with False j old assms(4) show ?thesis by simp
    qed
  qed
  moreover have "events_for r (calls @ [t]) = []" if "r \<notin> proc_id ` set (ps[i := ?q])" for r
  proof -
    have r: "r \<notin> proc_id ` set ps"
      using that arg_cong [OF ids, of set] by simp
    with assms(2) have "r \<noteq> proc_id (ps ! i)" by auto
    with r assms(1,4) show ?thesis by (simp add: calls_match_def)
  qed
  ultimately show ?thesis unfolding calls_match_def by blast
qed

lemma calls_match_step:
  assumes "wk_step gen publish concurrency ev s s'" and "calls_match (wk_procs s) (wk_calls s)"
    and "distinct (map proc_id (wk_procs s'))"
  shows "calls_match (wk_procs s') (wk_calls s')"
  using assms
proof (induction rule: wk_step.induct)
  case (acquired s req)
  then show ?case by (auto simp: calls_match_def proc_id_def)
next
  case (published i s rest k)
  then have "map proc_id (wk_procs (published i rest k s)) = map proc_id (wk_procs s)"
    by (simp add: ChatWorker.published_def Let_def map_update_same proc_id_def)
  with published(5) have "distinct (map proc_id (wk_procs s))" by simp
  from calls_match_published [OF published(4,1) this] show ?case
    by (simp add: ChatWorker.published_def Let_def proc_id_def)
next
  case (released i s)
  then show ?case using calls_match_set_pc [of s "wk_calls s" i Exited] by simp
qed (simp_all add: calls_match_set_pc split: option.split)

lemma calls_match_steps:
  "wk_steps gen publish concurrency evs s s' \<Longrightarrow> calls_match (wk_procs s) (wk_calls s) \<Longrightarrow>
     distinct (map proc_id (wk_procs s')) \<Longrightarrow> calls_match (wk_procs s') (wk_calls s')"
proof (induction rule: wk_steps.induct)
  case (wk_snoc evs s s' ev s'')
  obtain ids where "map proc_id (wk_procs s'') = map proc_id (wk_procs s') @ ids"
    using ids_step [OF wk_snoc.hyps(2)] by blast
  with wk_snoc.prems(2) have "distinct (map proc_id (wk_procs s'))" by simp
  with wk_snoc show ?case using calls_match_step by blast
qed simp

lemma wk_done_steps:
  "wk_steps gen publish concurrency evs s s' \<Longrightarrow> WkCancelled \<notin> set evs \<Longrightarrow> \<not> wk_done s \<Longrightarrow> \<not> wk_done s'"
proof (induction rule: wk_steps.induct)
  case (wk_snoc evs s s' ev s'')
  from wk_snoc.hyps(2) have "wk_done s'' \<Longrightarrow> ev = WkCancelled \<or> wk_done s'"
    by (cases rule: wk_step.cases) (auto simp: published_def Let_def split: option.splits if_splits)
  with wk_snoc show ?case by auto
qed

context token_publisher
begin

text \<open>As long as no call fails, both streams get exactly the published events, in order.\<close>

lemma worker_streams:
  assumes good
  shows "wk_steps gen publish concurrency evs s s' \<Longrightarrow> (\<And>i. PublishFailed i \<notin> set evs) \<Longrightarrow>
    streamed (wk_kafka s) = st @ map message (wk_calls s) \<Longrightarrow>
    persisted (wk_kafka s) = pe @ map message (wk_calls s) \<Longrightarrow>
    streamed (wk_kafka s') = st @ map message (wk_calls s') \<and>
    persisted (wk_kafka s') = pe @ map message (wk_calls s')"
proof (induction rule: wk_steps.induct)
  case (wk_snoc evs s s' ev s'')
  then have IH: "streamed (wk_kafka s') = st @ map message (wk_calls s')"
      "persisted (wk_kafka s') = pe @ map message (wk_calls s')" by auto
  have ev: "ev \<noteq> PublishFailed i" for i using wk_snoc.prems(1) [of i] by auto
  from wk_snoc.hyps(2) show ?case
  proof (cases rule: wk_step.cases)
    case (published i rest k)
    with IH publish_ok [OF assms published(5)] show ?thesis by (simp add: published_def Let_def)
  qed (use IH ev in \<open>auto split: option.split\<close>)
qed simp

end

section \<open>The worker comes to rest\<close>

text \<open>The steps the worker takes by itself, and how many are left when the generator yields at most \<open>N\<close> tokens.\<close>

fun internal :: "wk_event \<Rightarrow> bool" where
  "internal (ReqFetched m) = False"
| "internal ReqFetchFailed = False"
| "internal WkCancelled = False"
| "internal _ = True"

fun pc_work :: "nat \<Rightarrow> worker_pc \<Rightarrow> nat" where
  "pc_work N Generating = N + 3"
| "pc_work N (Ranging rest) = length rest + 2"
| "pc_work N Releasing = 1"
| "pc_work N Exited = 0"

fun loop_work :: "nat \<Rightarrow> consumer_loop \<Rightarrow> nat" where
  "loop_work N (WAcquiring req) = N + 4"
| "loop_work N _ = 0"

definition wk_work :: "nat \<Rightarrow> 'k Worker \<Rightarrow> nat" where
  "wk_work N s = sum_list (map (pc_work N \<circ> wp_PC) (wk_procs s)) + loop_work N (wk_loop s)"

lemma sum_list_map_update:
  fixes f :: "'a \<Rightarrow> nat"
  shows "i < length xs \<Longrightarrow> sum_list (map f (xs[i := y])) + f (xs ! i) = sum_list (map f xs) + f y"
proof (induction xs arbitrary: i)
  case (Cons x xs)
  then show ?case by (cases i) auto
qed simp

lemma wk_work_less:
  assumes "i < length (wk_procs s)" and "wk_procs s' = (wk_procs s)[i := p]" and "wk_loop s' = wk_loop s"
    and "pc_work N (wp_PC p) < pc_work N (wp_PC (wk_procs s ! i))"
  shows "wk_work N s' < wk_work N s"
  using sum_list_map_update [OF assms(1), of "pc_work N \<circ> wp_PC" p] assms(2-4) by (simp add: wk_work_def)

lemma wk_work_step:
  assumes "wk_step gen publish c ev s s'" and "internal ev" and "\<not> wk_done s"
    and "\<And>content tokens. gen content (Inr tokens) \<Longrightarrow> length tokens \<le> N"
  shows "wk_work N s' < wk_work N s"
  using assms(1)
proof (cases rule: wk_step.cases)
  case (acquired req)
  then show ?thesis by (simp add: wk_work_def)
next
  case (generated i r)
  have "pc_work N (case r of Inl e \<Rightarrow> Releasing | Inr tokens \<Rightarrow> Ranging tokens) < N + 3"
    using generated(5) assms(4) by (cases r) (auto simp: less_Suc_eq_le)
  with generated show ?thesis
    by (intro wk_work_less [of i]) (auto simp: set_pc_def)
next
  case (published i rest k)
  then show ?thesis
    by (intro wk_work_less [of i]) (auto simp: published_def Let_def after_event_def split: list.split)
next
  case (publish_failed i rest e k)
  then show ?thesis by (intro wk_work_less [of i]) (auto simp: set_pc_def)
next
  case (released i)
  then show ?thesis by (intro wk_work_less [of i]) (auto simp: set_pc_def)
qed (use assms(2,3) in auto)

lemma wk_done_internal: "wk_step gen publish c ev s s' \<Longrightarrow> internal ev \<Longrightarrow> wk_done s' = wk_done s"
  by (induction rule: wk_step.induct) (auto simp: set_pc_def published_def Let_def split: option.split)

lemma wk_work_steps:
  "wk_steps gen publish c evs s s' \<Longrightarrow> (\<And>ev. ev \<in> set evs \<Longrightarrow> internal ev) \<Longrightarrow> \<not> wk_done s \<Longrightarrow>
     (\<And>content tokens. gen content (Inr tokens) \<Longrightarrow> length tokens \<le> N) \<Longrightarrow>
     length evs + wk_work N s' \<le> wk_work N s \<and> \<not> wk_done s'"
proof (induction rule: wk_steps.induct)
  case (wk_snoc evs s s' ev s'')
  then have "length evs + wk_work N s' \<le> wk_work N s" and d: "\<not> wk_done s'" by auto
  moreover have "wk_work N s'' < wk_work N s'"
    using wk_work_step [OF wk_snoc.hyps(2) _ d] wk_snoc.prems by auto
  moreover have "wk_done s'' = wk_done s'"
    using wk_done_internal [OF wk_snoc.hyps(2)] wk_snoc.prems(1) by auto
  ultimately show ?case by simp
qed simp

text \<open>A goroutine that has not exited can always move.\<close>

lemma goroutine_moves:
  assumes "p \<in> set (wk_procs s)" and "wp_PC p \<noteq> Exited" and "\<And>content. \<exists>r. gen content r"
  shows "\<exists>ev s'. internal ev \<and> wk_step gen publish c ev s s'"
proof -
  obtain i where i: "i < length (wk_procs s)" "wk_procs s ! i = p"
    using assms(1) by (auto simp: in_set_conv_nth)
  show ?thesis
  proof (cases "wp_PC p")
    case Generating
    obtain r where "gen (cr_Content (wp_Req p)) r" using assms(3) by blast
    then show ?thesis using generated [of i s gen r publish c] i Generating by (metis internal.simps)
  next
    case (Ranging rest)
    show ?thesis
    proof (cases "publish (next_event (wp_Req p) rest) (wk_kafka s)")
      case (Pair r k)
      show ?thesis
      proof (cases r)
        case (Inl e)
        with publish_failed [of i s rest publish e k gen c] i Ranging Pair show ?thesis by (metis internal.simps)
      next
        case (Inr u)
        with published [of i s rest publish k gen c] i Ranging Pair show ?thesis by (metis internal.simps old.unit.exhaust)
      qed
    qed
  next
    case Releasing
    then show ?thesis using released [of i s gen publish c] i by (metis internal.simps)
  qed (use assms(2) in simp)
qed

lemma worker_rest:
  assumes "sem_inv c s" and "0 < c" and "\<And>content. \<exists>r. gen content r"
    and "\<nexists>ev s'. internal ev \<and> wk_step gen publish c ev s s'"
  shows "(\<forall>p \<in> set (wk_procs s). wp_PC p = Exited) \<and> wk_sem s = 0 \<and> (\<forall>req. wk_loop s \<noteq> WAcquiring req)"
proof -
  have e: "\<forall>p \<in> set (wk_procs s). wp_PC p = Exited"
    using goroutine_moves [where s = s and gen = gen] assms(3,4) by blast
  then have "filter running (wk_procs s) = []" by (simp add: running_def filter_empty_conv)
  with assms(1) have z: "wk_sem s = 0" by (simp add: sem_inv_def)
  have "wk_loop s \<noteq> WAcquiring req" for req
    using acquired [of s req c gen publish] assms(2,4) z by (metis internal.simps(4))
  with e z show ?thesis by blast
qed

section \<open>Properties\<close>

text \<open>A run of one request: fetched, started, its channel ranged over, released.\<close>

definition demo_gen :: "string \<Rightarrow> go_error + string list \<Rightarrow> bool" where
  "demo_gen content r \<longleftrightarrow> r = Inr [''a'', '' b'']"

lemma wk_start:
  assumes "0 < concurrency"
  shows "wk_steps demo_gen publish concurrency [ReqFetched (marshal_ChatRequest demo_request), Acquired, Generated 0]
    (wk_New k) ((wk_New k)\<lparr>wk_sem := 1, wk_procs := [\<lparr>wp_Req = demo_request, wp_Sent = [],
      wp_PC = Ranging [''a'', '' b'']\<rparr>]\<rparr>)"
proof -
  let ?s1 = "(wk_New k)\<lparr>wk_loop := WAcquiring demo_request\<rparr>"
  let ?s2 = "(wk_New k)\<lparr>wk_sem := 1, wk_procs := [\<lparr>wp_Req = demo_request, wp_Sent = [], wp_PC = Generating\<rparr>]\<rparr>"
  have req: "unmarshal_ChatRequest (marshal_ChatRequest demo_request) = Some demo_request"
    by (simp add: chat_request_read_back demo_request_def utf8_ChatRequest_def to_valid_utf8_ascii ascii_def byte_def)
  have "wk_step demo_gen publish concurrency (ReqFetched (marshal_ChatRequest demo_request)) (wk_New k) ?s1"
    using req_fetched [of "wk_New k" demo_gen publish concurrency "marshal_ChatRequest demo_request"] req
    by (simp add: wk_New_def)
  moreover have "wk_step demo_gen publish concurrency Acquired ?s1 ?s2"
    using acquired [of ?s1 demo_request concurrency demo_gen publish] assms by (simp add: wk_New_def)
  moreover have "wk_step demo_gen publish concurrency (Generated 0) ?s2 ((wk_New k)\<lparr>wk_sem := 1, wk_procs :=
      [\<lparr>wp_Req = demo_request, wp_Sent = [], wp_PC = Ranging [''a'', '' b'']\<rparr>]\<rparr>)"
    using generated [of 0 ?s2 demo_gen "Inr [''a'', '' b'']" publish concurrency]
    by (simp add: wk_New_def set_pc_def demo_gen_def)
  ultimately show ?thesis
    using wk_snoc [OF wk_snoc [OF wk_snoc [OF wk_refl]]] by fastforce
qed

lemma publish_once:
  assumes "\<And>t k. \<exists>k'. publish t k = (Inr (), k')" and "wk_procs s = [p]" and "wp_PC p = Ranging rest"
  shows "\<exists>k. wk_step gen publish concurrency (Published 0) s (published 0 rest k s)"
proof -
  obtain k where "publish (next_event (wp_Req (wk_procs s ! 0)) rest) (wk_kafka s) = (Inr (), k)"
    using assms(1) by blast
  with assms(2,3) have "wk_step gen publish concurrency (Published 0) s (published 0 rest k s)"
    by (intro published) simp_all
  then show ?thesis by blast
qed

lemma publish_ref_kafka: "\<exists>k'. PublishToken (ref_kafka None) t k = (Inr (), k')"
  by (simp add: PublishToken_def ref_kafka_def go_bind_def Let_def)

text \<open>The whole reply of that request, event by event.\<close>

lemma demo_run_of:
  assumes publish: "\<And>t k. \<exists>k'. publish t k = (Inr (), k')"
  shows "\<exists>evs s. wk_steps demo_gen publish 1 evs (wk_New k0) s \<and>
    WkCancelled \<notin> set evs \<and> (\<forall>i. PublishFailed i \<notin> set evs) \<and>
    map wp_Req (wk_procs s) = [demo_request] \<and> wk_calls s = reply_events demo_request [''a'', '' b''] True \<and>
    ReqFetched (marshal_ChatRequest demo_request) \<in> set evs \<and> map wp_PC (wk_procs s) = [Releasing] \<and>
    wk_loop s = WFetching"
proof -
  let ?s1 = "(wk_New k0)\<lparr>wk_sem := 1, wk_procs := [\<lparr>wp_Req = demo_request, wp_Sent = [],
      wp_PC = Ranging [''a'', '' b'']\<rparr>]\<rparr>"
  have start: "wk_steps demo_gen publish 1 [ReqFetched (marshal_ChatRequest demo_request), Acquired, Generated 0]
      (wk_New k0) ?s1"
    using wk_start [of 1] by simp
  obtain k1 where p1: "wk_step demo_gen publish 1 (Published 0) ?s1 (published 0 [''a'', '' b''] k1 ?s1)"
    using publish_once [of publish ?s1 _ "[''a'', '' b'']", OF publish] by fastforce
  define s2 where "s2 = published 0 [''a'', '' b''] k1 ?s1"
  have s2: "wk_procs s2 = [\<lparr>wp_Req = demo_request, wp_Sent = [delta_event demo_request ''a''],
      wp_PC = Ranging ['' b'']\<rparr>]" "wk_calls s2 = [delta_event demo_request ''a'']"
    by (simp_all add: s2_def published_def next_event_def after_event_def wk_New_def Let_def)
  obtain k2 where p2: "wk_step demo_gen publish 1 (Published 0) s2 (published 0 ['' b''] k2 s2)"
    using publish_once [of publish, OF publish s2(1), of "['' b'']"] by auto
  define s3 where "s3 = published 0 ['' b''] k2 s2"
  have s3: "wk_procs s3 = [\<lparr>wp_Req = demo_request,
      wp_Sent = [delta_event demo_request ''a'', delta_event demo_request '' b''], wp_PC = Ranging []\<rparr>]"
      "wk_calls s3 = [delta_event demo_request ''a'', delta_event demo_request '' b'']"
    by (simp_all add: s3_def s2 published_def next_event_def after_event_def Let_def)
  obtain k3 where p3: "wk_step demo_gen publish 1 (Published 0) s3 (published 0 [] k3 s3)"
    using publish_once [of publish, OF publish s3(1), of "[]"] by auto
  define s4 where "s4 = published 0 [] k3 s3"
  let ?evs = "[ReqFetched (marshal_ChatRequest demo_request), Acquired, Generated 0] @ [Published 0] @ [Published 0] @
    [Published 0]"
  have s4: "wk_procs s4 = [\<lparr>wp_Req = demo_request, wp_Sent = reply_events demo_request [''a'', '' b''] True,
      wp_PC = Releasing\<rparr>]" "wk_calls s4 = reply_events demo_request [''a'', '' b''] True"
    by (simp_all add: s4_def s3 published_def next_event_def after_event_def reply_events_def Let_def)
  have run: "wk_steps demo_gen publish 1 ?evs (wk_New k0) s4"
    using wk_snoc [OF wk_snoc [OF wk_snoc [OF start p1 [folded s2_def]] p2 [folded s3_def]] p3 [folded s4_def]]
    by simp
  have "wk_loop s4 = WFetching"
    by (simp add: s4_def s3_def s2_def published_def wk_New_def Let_def)
  moreover have "WkCancelled \<notin> set ?evs" and "\<forall>i. PublishFailed i \<notin> set ?evs" by simp_all
  ultimately show ?thesis using run s4
    by (intro exI [of _ ?evs] exI [of _ s4]) simp
qed

lemmas demo_worker_run = demo_run_of [of "PublishToken (ref_kafka None)" no_messages, OF publish_ref_kafka]

text \<open>
  The semaphore bounds the load: under every schedule, and whatever the publisher answers, at most
  \<open>concurrency\<close> requests are in work at a time, and the semaphore counts exactly those.
\<close>

theorem worker_concurrency_bound:
  assumes "wk_steps gen publish concurrency evs (wk_New k) s"
  shows "length (filter running (wk_procs s)) \<le> concurrency \<and>
    wk_sem s = length (filter running (wk_procs s))"
  using sem_inv_steps [OF assms] by (simp add: sem_inv_def wk_New_def)

theorem worker_concurrency_bound_witness:
  "\<exists>s. wk_steps demo_gen (PublishToken (ref_kafka None)) 1
      [ReqFetched (marshal_ChatRequest demo_request), Acquired, Generated 0] (wk_New no_messages) s \<and>
    length (filter running (wk_procs s)) = 1 \<and> length (filter running (wk_procs s)) \<le> 1"
proof -
  note run = wk_start [of 1 "PublishToken (ref_kafka None)" no_messages, simplified]
  show ?thesis
    using worker_concurrency_bound [OF run] run by (fastforce simp: running_def)
qed

text \<open>
  (C9) Every request gets its own reply, in order and not mixed with others, under every interleaving of
  the goroutines and on every path (generator errors, failed publications, shutdown): if the requests
  have different ids, the events published for a request are deltas of a prefix of the tokens the
  generator produced for it, each once and in order, possibly followed by one done event; and unless
  the context was cancelled, the done event comes only after all tokens.
\<close>

theorem worker_replies:
  assumes "wk_steps gen publish concurrency evs (wk_New k) s" and "distinct (map proc_id (wk_procs s))"
    and "p \<in> set (wk_procs s)"
  shows "events_for (proc_id p) (wk_calls s) = [] \<or>
    (\<exists>sent lost d. gen (cr_Content (wp_Req p)) (Inr (sent @ lost)) \<and>
       events_for (proc_id p) (wk_calls s) = reply_events (wp_Req p) sent d \<and>
       (d \<longrightarrow> WkCancelled \<notin> set evs \<longrightarrow> lost = []))"
proof -
  have "calls_match (wk_procs s) (wk_calls s)"
    by (rule calls_match_steps [OF assms(1) _ assms(2)]) (simp add: wk_New_def calls_match_def)
  with assms(3) have calls: "events_for (proc_id p) (wk_calls s) = wp_Sent p"
    by (simp add: calls_match_def)
  have "proc_ok gen (wk_done s) p"
    using procs_ok_steps [OF assms(1)] assms(3) by (simp add: procs_ok_def wk_New_def)
  moreover have "WkCancelled \<notin> set evs \<Longrightarrow> \<not> wk_done s"
    using wk_done_steps [OF assms(1)] by (simp add: wk_New_def)
  ultimately show ?thesis
    unfolding calls proc_ok_def by (cases "wp_PC p") (fastforce+)
qed

theorem worker_replies_witness:
  "\<exists>evs s. wk_steps demo_gen (PublishToken (ref_kafka None)) 1 evs (wk_New no_messages) s \<and>
    WkCancelled \<notin> set evs \<and> length (wk_calls s) = 3 \<and>
    (\<exists>sent lost d. demo_gen ''hi'' (Inr (sent @ lost)) \<and>
       events_for ''r1'' (wk_calls s) = reply_events demo_request sent d \<and> (d \<longrightarrow> lost = []))"
proof -
  obtain evs s where run: "wk_steps demo_gen (PublishToken (ref_kafka None)) 1 evs (wk_New no_messages) s"
    and c: "WkCancelled \<notin> set evs" and ps: "map wp_Req (wk_procs s) = [demo_request]"
    and calls: "wk_calls s = reply_events demo_request [''a'', '' b''] True"
    using demo_worker_run by (elim exE conjE) (rule that)
  from ps obtain p where p: "wk_procs s = [p]" "wp_Req p = demo_request" by auto
  have "events_for ''r1'' (wk_calls s) \<noteq> []"
    by (simp add: calls reply_events_def delta_event_def demo_request_def)
  with worker_replies [OF run, of p] p c have "\<exists>sent lost d. demo_gen ''hi'' (Inr (sent @ lost)) \<and>
       events_for ''r1'' (wk_calls s) = reply_events demo_request sent d \<and> (d \<longrightarrow> lost = [])"
    by (simp add: proc_id_def) (simp add: demo_request_def)
  with run c calls show ?thesis by (fastforce simp: reply_events_def)
qed

text \<open>
  A reply cut off by a shutdown is marked as complete: when the context is cancelled, the generator
  closes its channel early, the loop ends as if all tokens had come, and the use case publishes the
  done event.  Here nothing of the reply \<open>a b\<close> was published, but its done event was.
\<close>

theorem cancelled_reply_marked_done:
  "\<exists>evs s. wk_steps demo_gen (PublishToken (ref_kafka None)) 1 evs (wk_New no_messages) s \<and>
     wk_calls s = [done_event demo_request]"
proof -
  let ?publish = "PublishToken (ref_kafka None)" and ?p = "\<lparr>wp_Req = demo_request, wp_Sent = [], wp_PC = Ranging []\<rparr>"
  let ?s1 = "(wk_New no_messages)\<lparr>wk_sem := 1, wk_procs := [?p\<lparr>wp_PC := Ranging [''a'', '' b'']\<rparr>]\<rparr>"
  let ?s2 = "?s1\<lparr>wk_done := True\<rparr>" and ?s3 = "?s1\<lparr>wk_done := True, wk_procs := [?p]\<rparr>"
  have 1: "wk_steps demo_gen ?publish 1 [ReqFetched (marshal_ChatRequest demo_request), Acquired, Generated 0]
      (wk_New no_messages) ?s1"
    using wk_start [of 1] by simp
  have 3: "wk_step demo_gen ?publish 1 (GenStopped 0) ?s2 ?s3"
    using gen_stopped [of 0 ?s2 "[''a'', '' b'']" demo_gen ?publish 1] by (simp add: set_pc_def)
  obtain k where "?publish (done_event demo_request) no_messages = (Inr (), k)"
    by (simp add: PublishToken_def ref_kafka_def go_bind_def Let_def)
  then have 4: "wk_step demo_gen ?publish 1 (Published 0) ?s3 (published 0 [] k ?s3)"
    by (intro published) (simp_all add: wk_New_def next_event_def)
  have "wk_calls (published 0 [] k ?s3) = [done_event demo_request]"
    by (simp add: published_def wk_New_def next_event_def Let_def)
  with wk_snoc [OF wk_snoc [OF wk_snoc [OF 1 wk_cancelled] 3] 4] show ?thesis by blast
qed



end
