(* ===== verification/TokenServer.thy ===== *)
theory TokenServer
  imports TokenHub Middleware
begin

text \<open>
  The two ways tokens come into the API server: the gRPC service of
  \<open>internal/adapter/controller/grpc/token_server.go\<close>, with its authorization interceptor, and
  the HTTP callback of \<open>handler/token_callback.go\<close>.  Both hand tokens to the hub; the gRPC part
  is proved against the contract \<open>token_hub\<close>.  What \<open>stream.Recv\<close> returns is the input.
\<close>

section \<open>The gRPC service\<close>

record TokenMessage =
  tm_RequestId :: string
  tm_Delta :: string
  tm_Done :: bool

datatype grpc_code = Internal | Unauthenticated | InvalidArgument

text \<open>\<open>status.Error(code, msg)\<close>, or an error of the transport.\<close>

datatype rpc_error = Status grpc_code string | Transport go_error

datatype recv_result = RecvMsg TokenMessage | RecvEOF | RecvErr go_error

definition pubsub_of :: "TokenMessage \<Rightarrow> PubSubToken" where
  "pubsub_of msg =
     \<lparr>pt_RequestID = tm_RequestId msg, pt_Delta = tm_Delta msg, pt_Done = tm_Done msg\<rparr>"

text \<open>
  The handler's result once it returns (no error after \<open>SendAndClose\<close> sent the acknowledgement,
  or the error), and the hub; \<open>None\<close> while it waits for the next message.  \<open>ack\<close> is what
  \<open>SendAndClose\<close> returns.
\<close>

fun DeliverTokens ::
  "(string \<Rightarrow> PubSubToken \<Rightarrow> 'h \<Rightarrow> 'h) \<Rightarrow> rpc_error option \<Rightarrow> recv_result list \<Rightarrow> 'h \<Rightarrow>
   rpc_error option option \<times> 'h" where
  "DeliverTokens deliver ack [] h = (None, h)"
| "DeliverTokens deliver ack (RecvEOF # evs) h = (Some ack, h)"
| "DeliverTokens deliver ack (RecvErr err # evs) h = (Some (Some (Transport err)), h)"
| "DeliverTokens deliver ack (RecvMsg msg # evs) h =
     (if tm_RequestId msg = [] then (Some (Some (Status InvalidArgument ''request_id required'')), h)
      else DeliverTokens deliver ack evs (deliver (tm_RequestId msg) (pubsub_of msg) h))"

text \<open>\<open>md\<close> is the incoming metadata, if there is any: the values of each key.\<close>

definition StreamAuthInterceptor ::
  "string \<Rightarrow> (string \<Rightarrow> string list) option \<Rightarrow> ('s \<Rightarrow> rpc_error option option \<times> 's) \<Rightarrow> 's \<Rightarrow>
   rpc_error option option \<times> 's" where
  "StreamAuthInterceptor secret md handler s =
     (if secret = [] then (Some (Some (Status Internal ''server not configured'')), s)
      else case md of
        None \<Rightarrow> (Some (Some (Status Unauthenticated ''missing metadata'')), s)
      | Some get \<Rightarrow>
          let values = get ''authorization'' in
          if length values = 0 then (Some (Some (Status Unauthenticated ''missing authorization'')), s)
          else
            let bearer = TrimPrefix (values ! 0) ''Bearer '' in
            if \<not> HasPrefix (values ! 0) ''Bearer '' \<or> ConstantTimeCompare bearer secret \<noteq> 1
            then (Some (Some (Status Unauthenticated ''invalid credentials'')), s)
            else handler s)"

section \<open>The HTTP callback\<close>

record TokenCallbackHandler =
  tch_secret :: string

definition NewTokenCallbackHandler :: "string \<Rightarrow> go_error + TokenCallbackHandler" where
  "NewTokenCallbackHandler secret =
     (if secret = [] then Inl (ErrText ''CALLBACK_SECRET must not be empty'')
      else Inr \<lparr>tch_secret = secret\<rparr>)"

text \<open>The request: its \<open>Authorization\<close> header, the id in its path, its body.\<close>

definition Handle ::
  "(string \<Rightarrow> PubSubToken \<Rightarrow> 'h \<Rightarrow> 'h) \<Rightarrow> TokenCallbackHandler \<Rightarrow> string \<Rightarrow> string \<Rightarrow> string \<Rightarrow> 'h \<Rightarrow>
   Response \<times> 'h" where
  "Handle deliver tch authz requestID body h =
     (let bearer = (if HasPrefix authz ''Bearer '' then TrimPrefix authz ''Bearer '' else []) in
      if tch_secret tch = [] \<or> ConstantTimeCompare bearer (tch_secret tch) \<noteq> 1 then (c_Status 401, h)
      else case ShouldBindJSON pubsub_token_fields zero_PubSubToken body of
        None \<Rightarrow> (c_Status 400, h)
      | Some token \<Rightarrow> (c_Status 200, deliver requestID token h))"

section \<open>Deliveries\<close>

lemma bearer_iff:
  assumes "secret \<noteq> []"
  shows "HasPrefix v p \<and> ConstantTimeCompare (TrimPrefix v p) secret = 1 \<longleftrightarrow> v = p @ secret"
  by (auto simp: ConstantTimeCompare_iff dest: HasPrefix_TrimPrefix)

lemma DeliverTokens_prefix:
  assumes "\<forall>m \<in> set ms. tm_RequestId m \<noteq> []"
  shows "DeliverTokens deliver ack (map RecvMsg ms @ evs) h =
    DeliverTokens deliver ack evs (fold (\<lambda>m. deliver (tm_RequestId m) (pubsub_of m)) ms h)"
  using assms by (induction ms arbitrary: h) auto

text \<open>
  What the gRPC server and the HTTP callback see of the hub: its \<open>Deliver\<close> alone.  A token for a
  registered request with room is the next one in its channel, and it does not touch the channels of
  other requests.  Every token hub is such a sink.
\<close>

locale token_sink =
  fixes sdeliver :: "string \<Rightarrow> PubSubToken \<Rightarrow> 'h \<Rightarrow> 'h"
    and schan :: "'h \<Rightarrow> string \<Rightarrow> 'c option"
    and sbuf :: "'h \<Rightarrow> 'c \<Rightarrow> PubSubToken list"
    and sinv :: "'h \<Rightarrow> bool"
    and scap :: nat
  assumes sink_chan: "schan (sdeliver r t h) = schan h"
    and sink_inv: "sinv h \<Longrightarrow> sinv (sdeliver r t h)"
    and sink_room: "schan h r = Some c \<Longrightarrow> length (sbuf h c) < scap \<Longrightarrow> sbuf (sdeliver r t h) c = sbuf h c @ [t]"
    and sink_other: "sinv h \<Longrightarrow> schan h r = Some c \<Longrightarrow> r' \<noteq> r \<Longrightarrow> sbuf (sdeliver r' t h) c = sbuf h c"
begin

text \<open>Messages of many requests: a registered channel gets those of its own, within its capacity.\<close>

lemma deliver_messages:
  assumes "sinv h" and "schan h r = Some c"
    and "length (sbuf h c) + length (filter (\<lambda>m. tm_RequestId m = r) ms) \<le> scap"
  defines "h' \<equiv> fold (\<lambda>m. sdeliver (tm_RequestId m) (pubsub_of m)) ms h"
  shows "sinv h' \<and> schan h' = schan h \<and>
    sbuf h' c = sbuf h c @ map pubsub_of (filter (\<lambda>m. tm_RequestId m = r) ms)"
  using assms(1-3) unfolding h'_def
proof (induction ms arbitrary: h)
  case (Cons m ms)
  let ?h1 = "sdeliver (tm_RequestId m) (pubsub_of m) h"
  have inv: "sinv ?h1" and chan: "schan ?h1 = schan h"
    using Cons.prems(1) by (simp_all add: sink_inv sink_chan)
  have buf: "sbuf ?h1 c = sbuf h c @ (if tm_RequestId m = r then [pubsub_of m] else [])"
  proof (cases "tm_RequestId m = r")
    case True
    with Cons.prems show ?thesis by (auto intro: sink_room)
  next
    case False
    with Cons.prems(1,2) show ?thesis by (simp add: sink_other)
  qed
  have "length (sbuf ?h1 c) + length (filter (\<lambda>m. tm_RequestId m = r) ms) \<le> scap"
    using Cons.prems(3) by (simp add: buf split: if_splits)
  from Cons.IH [OF inv _ this] Cons.prems(2) show ?case
    by (simp add: chan buf)
qed simp

end

sublocale token_hub < sink: token_sink hdeliver hchan hbuf hinv hcap
  by unfold_locales (simp_all add: deliver_chan inv_deliver deliver_room deliver_other)

section \<open>Properties\<close>

text \<open>
  (C16) The interceptor lets exactly the clients with the secret through: the stream's handler runs if
  and only if the server has a secret and the first \<open>authorization\<close> value is \<open>Bearer \<close>
  followed by it; otherwise the stream ends with a status error and nothing else happens.  A server
  without a secret lets nobody through.
\<close>

theorem interceptor_requires_secret:
  "if secret \<noteq> [] \<and> (\<exists>get vs. md = Some get \<and> get ''authorization'' = (''Bearer '' @ secret) # vs)
   then StreamAuthInterceptor secret md handler s = handler s
   else \<exists>code msg. StreamAuthInterceptor secret md handler s = (Some (Some (Status code msg)), s)"
proof (cases "\<exists>get v vs. secret \<noteq> [] \<and> md = Some get \<and> get ''authorization'' = v # vs")
  case True
  then obtain get v vs where ne: "secret \<noteq> []" and md: "md = Some get" and v: "get ''authorization'' = v # vs"
    by blast
  have "StreamAuthInterceptor secret md handler s =
      (if v = ''Bearer '' @ secret then handler s
       else (Some (Some (Status Unauthenticated ''invalid credentials'')), s))"
    using bearer_iff [OF ne, of v "''Bearer ''"] ne
    by (auto simp: StreamAuthInterceptor_def md v Let_def)
  with ne show ?thesis by (simp add: md v)
next
  case False
  then show ?thesis
    by (auto simp: StreamAuthInterceptor_def Let_def neq_Nil_conv split: option.splits)
qed

text \<open>
  A gRPC stream delivers its messages to the requests they name, completely and in order: for a
  registered request with room in its channel, after a stream of messages (of many requests) that the
  client closed, the channel holds what it held followed by that request's messages with their
  request id, delta and done flag, and the client gets the acknowledgement.
\<close>

theorem deliver_tokens_exact:
  assumes "hub_inv h" and "hub_pending h r = Some c" and "\<forall>m \<in> set ms. tm_RequestId m \<noteq> []"
    and "length (hub_chans h c) + length (filter (\<lambda>m. tm_RequestId m = r) ms) \<le> 1000"
    and "DeliverTokens hub_Deliver None (map RecvMsg ms @ [RecvEOF]) h = (res, h')"
  shows "res = Some None \<and>
    hub_chans h' c = hub_chans h c @ map pubsub_of (filter (\<lambda>m. tm_RequestId m = r) ms)"
  using hub.sink.deliver_messages [OF assms(1,2), of ms] assms(3-5)
  by (auto simp: DeliverTokens_prefix hub_capacity_def)

definition demo_tm :: "string \<Rightarrow> string \<Rightarrow> bool \<Rightarrow> TokenMessage" where
  "demo_tm r d b = \<lparr>tm_RequestId = r, tm_Delta = d, tm_Done = b\<rparr>"

theorem deliver_tokens_exact_witness:
  "\<exists>h'. DeliverTokens hub_Deliver None
       (map RecvMsg [demo_tm ''r1'' ''a'' False, demo_tm ''r2'' ''x'' False, demo_tm ''r1'' [] True] @ [RecvEOF])
       (snd (hub_Register ''r1'' hub_New)) = (Some None, h') \<and>
     hub_chans h' 0 = [demo_token ''a'' False, demo_token [] True]"
proof -
  let ?ms = "[demo_tm ''r1'' ''a'' False, demo_tm ''r2'' ''x'' False, demo_tm ''r1'' [] True]"
  let ?h = "snd (hub_Register ''r1'' hub_New)"
  obtain res h' where run: "DeliverTokens hub_Deliver None (map RecvMsg ?ms @ [RecvEOF]) ?h = (res, h')"
    by fastforce
  have "hub_pending ?h ''r1'' = Some 0" and e: "hub_chans ?h 0 = []"
    by (simp_all add: hub_Register_def hub_New_def)
  from deliver_tokens_exact [OF hub_inv_snd_Register [OF hub_inv_New] this(1) _ _ run]
  have "res = Some None \<and> hub_chans h' 0 = map pubsub_of (filter (\<lambda>m. tm_RequestId m = ''r1'') ?ms)"
    by (simp add: e demo_tm_def)
  with run show ?thesis by (simp add: demo_tm_def demo_token_def pubsub_of_def)
qed

text \<open>
  A message without a request id ends the stream with \<open>InvalidArgument\<close>: what came before
  it is delivered, it and everything after it is not.
\<close>

theorem deliver_tokens_rejects:
  assumes "\<forall>m \<in> set ms. tm_RequestId m \<noteq> []" and "tm_RequestId bad = []"
  shows "DeliverTokens deliver ack (map RecvMsg ms @ RecvMsg bad # evs) h =
    (Some (Some (Status InvalidArgument ''request_id required'')),
     snd (DeliverTokens deliver ack (map RecvMsg ms) h))"
  using assms DeliverTokens_prefix [of ms deliver ack "[]" h] by (simp add: DeliverTokens_prefix)

theorem deliver_tokens_rejects_witness:
  "fst (DeliverTokens hub_Deliver None (map RecvMsg [demo_tm ''r1'' ''a'' False] @ RecvMsg (demo_tm [] ''x'' True) #
      [RecvEOF]) hub_New) = Some (Some (Status InvalidArgument ''request_id required''))"
  using deliver_tokens_rejects [of "[demo_tm ''r1'' ''a'' False]" "demo_tm [] ''x'' True" hub_Deliver None "[RecvEOF]" hub_New]
  by (simp add: demo_tm_def)

text \<open>
  The HTTP callback delivers a token only for a caller with the secret: without the header
  \<open>Bearer \<close> followed by the handler's non-empty secret it answers 401, with a body that is no
  token 400, and in both cases the hub is untouched; only a 200 delivers, once, the decoded token to
  the request named in the path.
\<close>

theorem callback_requires_secret:
  "Handle deliver tch authz requestID body h =
     (if tch_secret tch = [] \<or> authz \<noteq> ''Bearer '' @ tch_secret tch then (c_Status 401, h)
      else case ShouldBindJSON pubsub_token_fields zero_PubSubToken body of
        None \<Rightarrow> (c_Status 400, h)
      | Some token \<Rightarrow> (c_Status 200, deliver requestID token h))"
proof (cases "tch_secret tch = []")
  case False
  have "ConstantTimeCompare [] (tch_secret tch) \<noteq> 1"
    using False by (simp add: ConstantTimeCompare_iff)
  with bearer_iff [OF False, of authz "''Bearer ''"] False show ?thesis
    by (auto simp: Handle_def Let_def)
qed (simp add: Handle_def)

text \<open>A caller that posts one token after the other: the answers, and the hub at the end.\<close>

fun callback_posts ::
  "(string \<Rightarrow> PubSubToken \<Rightarrow> 'h \<Rightarrow> 'h) \<Rightarrow> TokenCallbackHandler \<Rightarrow> (string \<times> string \<times> string) list \<Rightarrow> 'h \<Rightarrow>
   Response list \<times> 'h" where
  "callback_posts deliver tch [] h = ([], h)"
| "callback_posts deliver tch ((authz, requestID, body) # posts) h =
     (case Handle deliver tch authz requestID body h of
        (rsp, h') \<Rightarrow> (case callback_posts deliver tch posts h' of (rsps, h'') \<Rightarrow> (rsp # rsps, h'')))"


definition demo_callback_body :: "TokenMessage \<Rightarrow> string" where
  "demo_callback_body m =
     (let q = [CHR 0x22] in
      ''{'' @ q @ ''RequestID'' @ q @ '':'' @ q @ tm_RequestId m @ q @ ''}'')"


end
