(* ===== verification/StreamTokens.thy ===== *)
theory StreamTokens
  imports TokenServer RedisStores
begin

text \<open>
  \<open>internal/usecase/stream_tokens.go\<close>: the streaming worker's client side, which sends the tokens
  of each request over one gRPC stream to the API instance that holds the request's HTTP connection.

  gRPC and the network are not code of the repository: dialing, opening a stream, sending and closing
  are parameters (\<open>grpc_lib\<close>) acting on a world of any type, and so is the callback store's
  lookup.  \<open>grpc_documented\<close> states what they document: new connections and streams are fresh, a
  send that returns no error appends its message to its stream and to no other.
\<close>

section \<open>The use case\<close>

record ('w, 'c, 't) grpc_lib =
  gl_NewClient :: "string \<Rightarrow> string \<Rightarrow> ('w, 'c) go_call"
  gl_DeliverTokens :: "'c \<Rightarrow> ('w, 't) go_call"
  gl_Send :: "'t \<Rightarrow> TokenMessage \<Rightarrow> ('w, unit) go_call"
  gl_CloseAndRecv :: "'t \<Rightarrow> ('w, unit) go_call"

record ('c, 't) StreamTokensUseCase =
  su_secret :: string
  su_streams :: "string \<rightharpoonup> 't"
  su_addrMap :: "string \<rightharpoonup> string"
  su_connMap :: "string \<rightharpoonup> 'c"

definition NewStreamTokens :: "string \<Rightarrow> ('c, 't) StreamTokensUseCase" where
  "NewStreamTokens secret =
     \<lparr>su_secret = secret, su_streams = Map.empty, su_addrMap = Map.empty, su_connMap = Map.empty\<rparr>"

text \<open>A call of the world outside, and an error wrapped under a prefix.\<close>

definition on_world :: "('w, 'a) go_call \<Rightarrow> ('s \<times> 'w, 'a) go_call" where
  "on_world m = (\<lambda>(uc, w). case m w of (r, w') \<Rightarrow> (r, (uc, w')))"

definition wrap_err :: "string \<Rightarrow> ('s, 'a) go_call \<Rightarrow> ('s, 'a) go_call" where
  "wrap_err p m s = (case m s of (Inl e, s') \<Rightarrow> (Inl (Wrap p e), s') | (Inr x, s') \<Rightarrow> (Inr x, s'))"

definition resolveAddr ::
  "(string \<Rightarrow> ('w, string) go_call) \<Rightarrow> string \<Rightarrow> (('c, 't) StreamTokensUseCase \<times> 'w, string) go_call" where
  "resolveAddr getcb requestID = (\<lambda>(uc, w).
     (case su_addrMap uc requestID of
        Some addr \<Rightarrow> (Inr addr, (uc, w))
      | None \<Rightarrow>
          go_bind (on_world (getcb requestID)) (\<lambda>addr (uc, w).
            (Inr addr, (uc\<lparr>su_addrMap := (su_addrMap uc)(requestID \<mapsto> addr)\<rparr>, w))) (uc, w)))"

definition getConn ::
  "('w, 'c, 't) grpc_lib \<Rightarrow> string \<Rightarrow> (('c, 't) StreamTokensUseCase \<times> 'w, 'c) go_call" where
  "getConn lib addr = (\<lambda>(uc, w).
     (case su_connMap uc addr of
        Some conn \<Rightarrow> (Inr conn, (uc, w))
      | None \<Rightarrow>
          go_bind (on_world (gl_NewClient lib addr (su_secret uc))) (\<lambda>conn (uc, w).
            (Inr conn, (uc\<lparr>su_connMap := (su_connMap uc)(addr \<mapsto> conn)\<rparr>, w))) (uc, w)))"

definition getOrOpenStream ::
  "('w, 'c, 't) grpc_lib \<Rightarrow> (string \<Rightarrow> ('w, string) go_call) \<Rightarrow> string \<Rightarrow>
   (('c, 't) StreamTokensUseCase \<times> 'w, 't) go_call" where
  "getOrOpenStream lib getcb requestID = (\<lambda>(uc, w).
     (case su_streams uc requestID of
        Some s \<Rightarrow> (Inr s, (uc, w))
      | None \<Rightarrow>
          go_bind (wrap_err ''resolve addr'' (resolveAddr getcb requestID)) (\<lambda>addr.
          go_bind (wrap_err ''grpc conn'' (getConn lib addr)) (\<lambda>conn.
          go_bind (wrap_err ''grpc stream'' (on_world (gl_DeliverTokens lib conn))) (\<lambda>stream (uc, w).
            (Inr stream, (uc\<lparr>su_streams := (su_streams uc)(requestID \<mapsto> stream)\<rparr>, w))))) (uc, w)))"

definition evict :: "string \<Rightarrow> ('c, 't) StreamTokensUseCase \<Rightarrow> ('c, 't) StreamTokensUseCase" where
  "evict requestID uc =
     uc\<lparr>su_streams := (su_streams uc)(requestID := None), su_addrMap := (su_addrMap uc)(requestID := None)\<rparr>"

definition message_of :: "TokenEvent \<Rightarrow> TokenMessage" where
  "message_of token =
     \<lparr>tm_RequestId = te_RequestID token, tm_Delta = te_Delta token, tm_Done = te_Done token\<rparr>"

definition stream_Execute ::
  "('w, 'c, 't) grpc_lib \<Rightarrow> (string \<Rightarrow> ('w, string) go_call) \<Rightarrow> TokenEvent \<Rightarrow>
   (('c, 't) StreamTokensUseCase \<times> 'w, unit) go_call" where
  "stream_Execute lib getcb token =
     go_bind (getOrOpenStream lib getcb (te_RequestID token)) (\<lambda>stream (uc, w).
       (case gl_Send lib stream (message_of token) w of
          (Inl e, w') \<Rightarrow> (Inl (Wrap ''send failed'' e), (evict (te_RequestID token) uc, w'))
        | (Inr _, w') \<Rightarrow>
            if te_Done token then
              (case gl_CloseAndRecv lib stream w' of
                 (_, w'') \<Rightarrow> (Inr (), (evict (te_RequestID token) uc, w'')))
            else (Inr (), (uc, w'))))"

text \<open>The metadata \<open>streamCreds\<close> puts on every call of a connection.\<close>

definition GetRequestMetadata :: "string \<Rightarrow> string \<rightharpoonup> string" where
  "GetRequestMetadata secret = [''authorization'' \<mapsto> ''Bearer '' @ secret]"

definition RequireTransportSecurity :: bool where
  "RequireTransportSecurity = False"

section \<open>What gRPC documents\<close>

text \<open>
  Of a world: the address of every connection and of every stream opened so far, the messages sent on
  each stream, and the streams the client closed.
\<close>

record ('w, 'c, 't) net_view =
  nv_conn :: "'w \<Rightarrow> 'c \<Rightarrow> string option"
  nv_addr :: "'w \<Rightarrow> 't \<Rightarrow> string option"
  nv_log :: "'w \<Rightarrow> 't \<Rightarrow> TokenMessage list"
  nv_closed :: "'w \<Rightarrow> 't set"

definition same_net :: "('w, 'c, 't) net_view \<Rightarrow> 'w \<Rightarrow> 'w \<Rightarrow> bool" where
  "same_net nv w w' \<longleftrightarrow>
     nv_conn nv w' = nv_conn nv w \<and> nv_addr nv w' = nv_addr nv w \<and>
     nv_log nv w' = nv_log nv w \<and> nv_closed nv w' = nv_closed nv w"

definition grpc_documented :: "('w, 'c, 't) grpc_lib \<Rightarrow> ('w, 'c, 't) net_view \<Rightarrow> bool" where
  "grpc_documented lib nv \<longleftrightarrow>
     (\<forall>a sec w c w'. gl_NewClient lib a sec w = (Inr c, w') \<longrightarrow>
        nv_conn nv w c = None \<and> nv_conn nv w' = (nv_conn nv w)(c \<mapsto> a) \<and>
        nv_addr nv w' = nv_addr nv w \<and> nv_log nv w' = nv_log nv w \<and> nv_closed nv w' = nv_closed nv w) \<and>
     (\<forall>a sec w e w'. gl_NewClient lib a sec w = (Inl e, w') \<longrightarrow> same_net nv w w') \<and>
     (\<forall>c w t w'. gl_DeliverTokens lib c w = (Inr t, w') \<longrightarrow>
        nv_addr nv w t = None \<and> nv_addr nv w' = (nv_addr nv w)(t := nv_conn nv w c) \<and>
        nv_log nv w' = (nv_log nv w)(t := []) \<and> nv_closed nv w' = nv_closed nv w - {t} \<and>
        nv_conn nv w' = nv_conn nv w) \<and>
     (\<forall>c w e w'. gl_DeliverTokens lib c w = (Inl e, w') \<longrightarrow> same_net nv w w') \<and>
     (\<forall>t m w w'. gl_Send lib t m w = (Inr (), w') \<longrightarrow>
        nv_log nv w' = (nv_log nv w)(t := nv_log nv w t @ [m]) \<and> nv_addr nv w' = nv_addr nv w \<and>
        nv_conn nv w' = nv_conn nv w \<and> nv_closed nv w' = nv_closed nv w) \<and>
     (\<forall>t w r w'. gl_CloseAndRecv lib t w = (r, w') \<longrightarrow>
        nv_closed nv w' = insert t (nv_closed nv w) \<and> nv_log nv w' = nv_log nv w \<and>
        nv_addr nv w' = nv_addr nv w \<and> nv_conn nv w' = nv_conn nv w) \<and>
     (\<forall>t m w e w'. gl_Send lib t m w = (Inl e, w') \<longrightarrow>
        nv_addr nv w' = nv_addr nv w \<and> nv_conn nv w' = nv_conn nv w)"

text \<open>A lookup does not touch the network, and answers with the address \<open>cb\<close> of the request.\<close>

definition lookup_documented ::
  "(string \<Rightarrow> ('w, string) go_call) \<Rightarrow> ('w, 'c, 't) net_view \<Rightarrow> (string \<Rightarrow> string) \<Rightarrow> bool" where
  "lookup_documented getcb nv cb \<longleftrightarrow>
     (\<forall>r w x w'. getcb r w = (x, w') \<longrightarrow> same_net nv w w' \<and> (\<forall>a. x = Inr a \<longrightarrow> a = cb r))"

section \<open>The use case's invariant\<close>

definition su_inv ::
  "('w, 'c, 't) net_view \<Rightarrow> (string \<Rightarrow> string) \<Rightarrow> ('c, 't) StreamTokensUseCase \<Rightarrow> 'w \<Rightarrow> bool" where
  "su_inv nv cb uc w \<longleftrightarrow>
     (\<forall>r t. su_streams uc r = Some t \<longrightarrow> nv_addr nv w t = Some (cb r)) \<and>
     (\<forall>r r' t. su_streams uc r = Some t \<longrightarrow> su_streams uc r' = Some t \<longrightarrow> r = r') \<and>
     (\<forall>r a. su_addrMap uc r = Some a \<longrightarrow> a = cb r) \<and>
     (\<forall>a c. su_connMap uc a = Some c \<longrightarrow> nv_conn nv w c = Some a)"

lemma su_inv_New [simp]: "su_inv nv cb (NewStreamTokens secret) w"
  by (simp add: su_inv_def NewStreamTokens_def)

lemma on_world_Inr: "on_world m (uc, w) = (Inr x, (uc', w')) \<longleftrightarrow> uc' = uc \<and> m w = (Inr x, w')"
  by (auto simp: on_world_def split: prod.split)

lemma wrap_err_Inr: "wrap_err p m s = (Inr x, s') \<longleftrightarrow> m s = (Inr x, s')"
  by (auto simp: wrap_err_def split: prod.split sum.split)

lemma grpc_NewClient:
  assumes "grpc_documented lib nv" and "gl_NewClient lib a sec w = (Inr c, w')"
  shows "nv_conn nv w c = None" "nv_conn nv w' = (nv_conn nv w)(c \<mapsto> a)" "nv_addr nv w' = nv_addr nv w"
    "nv_log nv w' = nv_log nv w" "nv_closed nv w' = nv_closed nv w"
  using assms(1) [unfolded grpc_documented_def, THEN conjunct1,
      rule_format, OF assms(2)] by simp_all

lemma grpc_DeliverTokens:
  assumes "grpc_documented lib nv" and "gl_DeliverTokens lib c w = (Inr t, w')"
  shows "nv_addr nv w t = None" "nv_addr nv w' = (nv_addr nv w)(t := nv_conn nv w c)"
    "nv_log nv w' = (nv_log nv w)(t := [])" "nv_closed nv w' = nv_closed nv w - {t}"
    "nv_conn nv w' = nv_conn nv w"
  using assms(1) [unfolded grpc_documented_def, THEN conjunct2, THEN conjunct2, THEN conjunct1,
      rule_format, OF assms(2)] by simp_all

lemma grpc_Send:
  assumes "grpc_documented lib nv" and "gl_Send lib t m w = (Inr (), w')"
  shows "nv_log nv w' = (nv_log nv w)(t := nv_log nv w t @ [m])" "nv_addr nv w' = nv_addr nv w"
    "nv_conn nv w' = nv_conn nv w" "nv_closed nv w' = nv_closed nv w"
  using assms(1) [unfolded grpc_documented_def, THEN conjunct2, THEN conjunct2, THEN conjunct2, THEN conjunct2, THEN conjunct1,
      rule_format, OF assms(2)] by simp_all

lemma grpc_Close:
  assumes "grpc_documented lib nv" and "gl_CloseAndRecv lib t w = (r, w')"
  shows "nv_closed nv w' = insert t (nv_closed nv w)" "nv_log nv w' = nv_log nv w"
    "nv_addr nv w' = nv_addr nv w" "nv_conn nv w' = nv_conn nv w"
  using assms(1) [unfolded grpc_documented_def, THEN conjunct2, THEN conjunct2, THEN conjunct2, THEN conjunct2, THEN conjunct2, THEN conjunct1,
      rule_format, OF assms(2)] by simp_all

text \<open>A failed call changes no connection and no stream's address.\<close>

lemma grpc_failed:
  assumes "grpc_documented lib nv"
  shows "gl_NewClient lib a sec w = (Inl e, w') \<Longrightarrow> same_net nv w w'"
    and "gl_DeliverTokens lib c w = (Inl e, w') \<Longrightarrow> same_net nv w w'"
    and "gl_Send lib t m w = (Inl e, w') \<Longrightarrow> nv_addr nv w' = nv_addr nv w \<and> nv_conn nv w' = nv_conn nv w"
  using assms [unfolded grpc_documented_def, THEN conjunct2, THEN conjunct1, rule_format]
    assms [unfolded grpc_documented_def, THEN conjunct2, THEN conjunct2, THEN conjunct2, THEN conjunct1, rule_format]
    assms [unfolded grpc_documented_def, THEN conjunct2, THEN conjunct2, THEN conjunct2, THEN conjunct2,
      THEN conjunct2, THEN conjunct2, rule_format]
  by (simp_all only: simp_thms)

lemma resolveAddr_Inr:
  assumes "lookup_documented getcb nv cb" and "su_inv nv cb uc w"
    and "resolveAddr getcb r (uc, w) = (Inr a, (uc', w'))"
  shows "a = cb r" and "same_net nv w w'" and "su_inv nv cb uc' w'"
    and "su_streams uc' = su_streams uc" and "su_connMap uc' = su_connMap uc"
proof -
  have "a = cb r \<and> same_net nv w w' \<and> su_streams uc' = su_streams uc \<and> su_connMap uc' = su_connMap uc \<and>
      (uc' = uc \<or> uc' = uc\<lparr>su_addrMap := (su_addrMap uc)(r \<mapsto> a)\<rparr>)"
  proof (cases "su_addrMap uc r")
    case (Some a')
    with assms(2,3) show ?thesis
      by (auto simp: resolveAddr_def su_inv_def same_net_def)
  next
    case None
    with assms(3) have g: "getcb r w = (Inr a, w')"
      and uc': "uc' = uc\<lparr>su_addrMap := (su_addrMap uc)(r \<mapsto> a)\<rparr>"
      by (auto simp: resolveAddr_def on_world_def split: prod.splits elim!: go_bind_cases)
    with assms(1) show ?thesis unfolding lookup_documented_def by auto
  qed
  then show "a = cb r" and "same_net nv w w'" and "su_inv nv cb uc' w'"
    and "su_streams uc' = su_streams uc" and "su_connMap uc' = su_connMap uc"
    using assms(2) by (auto simp: su_inv_def same_net_def split: if_splits)
qed

lemma getConn_Inr:
  assumes "grpc_documented lib nv" and "su_inv nv cb uc w"
    and "getConn lib a (uc, w) = (Inr c, (uc', w'))"
  shows "nv_conn nv w' c = Some a" and "nv_addr nv w' = nv_addr nv w" and "nv_log nv w' = nv_log nv w"
    and "nv_closed nv w' = nv_closed nv w" and "su_inv nv cb uc' w'" and "su_streams uc' = su_streams uc"
proof -
  have "nv_conn nv w' c = Some a \<and> nv_addr nv w' = nv_addr nv w \<and> nv_log nv w' = nv_log nv w \<and>
    nv_closed nv w' = nv_closed nv w \<and> su_inv nv cb uc' w' \<and> su_streams uc' = su_streams uc"
  proof (cases "su_connMap uc a")
    case (Some c')
    with assms(2,3) show ?thesis by (auto simp: getConn_def su_inv_def)
  next
    case None
    with assms(3) have g: "gl_NewClient lib a (su_secret uc) w = (Inr c, w')"
      and uc': "uc' = uc\<lparr>su_connMap := (su_connMap uc)(a \<mapsto> c)\<rparr>"
      by (auto simp: getConn_def on_world_def split: prod.splits elim!: go_bind_cases)
    note n = grpc_NewClient [OF assms(1) g]
    show ?thesis
      using assms(2) n by (auto simp: uc' su_inv_def)
  qed
  then show "nv_conn nv w' c = Some a" and "nv_addr nv w' = nv_addr nv w" and "nv_log nv w' = nv_log nv w"
    and "nv_closed nv w' = nv_closed nv w" and "su_inv nv cb uc' w'" and "su_streams uc' = su_streams uc"
    by blast+
qed

text \<open>The stream of a request: the one it has, or a new one to its address.\<close>

lemma getOrOpenStream_cases:
  fixes t :: 't
  assumes "grpc_documented lib nv" and "lookup_documented getcb nv cb" and "su_inv nv cb uc w"
    and "getOrOpenStream lib getcb r (uc, w) = (Inr t, (uc', w'))"
  obtains (known) "su_streams uc r = Some t" and "uc' = uc" and "w' = w"
  | (fresh) "su_streams uc r = None" and "su_streams uc' = (su_streams uc)(r \<mapsto> t)"
      and "nv_addr nv w t = None" and "nv_addr nv w' = (nv_addr nv w)(t \<mapsto> cb r)"
      and "nv_log nv w' = (nv_log nv w)(t := [])" and "nv_closed nv w' = nv_closed nv w - {t}"
      and "su_inv nv cb uc' w'"
proof (cases "su_streams uc r")
  case (Some t')
  with assms(4) have "t' = t \<and> uc' = uc \<and> w' = w" by (auto simp: getOrOpenStream_def)
  with Some show ?thesis by (intro known) simp_all
next
  case None
  have "go_bind (wrap_err ''resolve addr'' (resolveAddr getcb r)) (\<lambda>addr.
      go_bind (wrap_err ''grpc conn'' (getConn lib addr)) (\<lambda>conn.
      go_bind (wrap_err ''grpc stream'' (on_world (gl_DeliverTokens lib conn))) (\<lambda>stream (uc, w).
        (Inr stream, (uc\<lparr>su_streams := (su_streams uc)(r \<mapsto> stream)\<rparr>, w))))) (uc, w) = (Inr t, (uc', w'))"
    using assms(4) None by (simp add: getOrOpenStream_def)
  then obtain a x1 c x2 t' x3 where b: "wrap_err ''resolve addr'' (resolveAddr getcb r) (uc, w) = (Inr a, x1)"
      "wrap_err ''grpc conn'' (getConn lib a) x1 = (Inr c, x2)"
      "wrap_err ''grpc stream'' (on_world (gl_DeliverTokens lib c)) x2 = (Inr t', x3)"
      "(\<lambda>(uc, w). (Inr t' :: go_error + 't, (uc\<lparr>su_streams := (su_streams uc)(r \<mapsto> t')\<rparr>, w))) x3 = (Inr t, (uc', w'))"
    by (elim go_bind_InrE) (rule that, assumption+)
  obtain uc1 w1 uc2 w2 uc3 w3 where x: "x1 = (uc1, w1)" "x2 = (uc2, w2)" "x3 = (uc3, w3)"
    by (cases x1; cases x2; cases x3)
  have 1: "resolveAddr getcb r (uc, w) = (Inr a, (uc1, w1))"
    and 2: "getConn lib a (uc1, w1) = (Inr c, (uc2, w2))"
    and 3: "gl_DeliverTokens lib c w2 = (Inr t, w')"
    and uc': "uc' = uc2\<lparr>su_streams := (su_streams uc2)(r \<mapsto> t)\<rparr>"
    using b by (auto simp: x wrap_err_Inr on_world_Inr)
  note s1 = resolveAddr_Inr [OF assms(2,3) 1]
  note s2 = getConn_Inr [OF assms(1) s1(3) 2]
  note s3 = grpc_DeliverTokens [OF assms(1) 3]
  have net: "nv_addr nv w2 = nv_addr nv w" "nv_log nv w2 = nv_log nv w" "nv_closed nv w2 = nv_closed nv w"
    using s1(2) s2(2-4) by (simp_all add: same_net_def)
  have str: "su_streams uc2 = su_streams uc" using s1(4) s2(6) by simp
  have t: "\<And>r'. su_streams uc2 r' \<noteq> Some t"
    using s2(5) s3(1) by (auto simp: su_inv_def)
  have "su_inv nv cb uc' w'"
    using s2(1,5) s3(2,5) t s1(1) by (auto simp: uc' su_inv_def)
  with None net str s1(1) s2(1) s3 show ?thesis
    by (intro fresh) (simp_all add: uc')
qed

lemma stream_Execute_Inr:
  assumes "grpc_documented lib nv" and "lookup_documented getcb nv cb" and "su_inv nv cb uc w"
    and "stream_Execute lib getcb tok (uc, w) = (Inr (), (uc', w'))"
  obtains t where
    "su_streams uc (te_RequestID tok) = Some t \<and> nv_log nv w' = (nv_log nv w)(t := nv_log nv w t @ [message_of tok]) \<and>
       nv_closed nv w \<subseteq> nv_closed nv w' \<or>
     su_streams uc (te_RequestID tok) = None \<and> nv_addr nv w t = None \<and> nv_log nv w' = (nv_log nv w)(t := [message_of tok]) \<and>
       nv_closed nv w - {t} \<subseteq> nv_closed nv w'"
    and "nv_addr nv w' = (nv_addr nv w)(t \<mapsto> cb (te_RequestID tok))"
    and "su_streams uc' = (su_streams uc)(te_RequestID tok := if te_Done tok then None else Some t)"
    and "te_Done tok \<longrightarrow> t \<in> nv_closed nv w'"
    and "su_inv nv cb uc' w'"
proof -
  obtain t x1 where o: "getOrOpenStream lib getcb (te_RequestID tok) (uc, w) = (Inr t, x1)"
    and b: "(\<lambda>(uc, w). case gl_Send lib t (message_of tok) w of
          (Inl e, w') \<Rightarrow> (Inl (Wrap ''send failed'' e), (evict (te_RequestID tok) uc, w'))
        | (Inr _, w') \<Rightarrow>
            if te_Done tok then
              (case gl_CloseAndRecv lib t w' of (_, w'') \<Rightarrow> (Inr (), (evict (te_RequestID tok) uc, w'')))
            else (Inr (), (uc, w'))) x1 = (Inr (), (uc', w'))"
    using assms(4) unfolding stream_Execute_def by (elim go_bind_InrE) (rule that, assumption+)
  obtain uc1 w1 where x1: "x1 = (uc1, w1)" by (cases x1)
  obtain w2 where snd: "gl_Send lib t (message_of tok) w1 = (Inr (), w2)"
    and fin: "if te_Done tok then uc' = evict (te_RequestID tok) uc1 \<and> (\<exists>y. gl_CloseAndRecv lib t w2 = (y, w'))
      else uc' = uc1 \<and> w' = w2"
    using b by (auto simp: x1 split: prod.splits sum.splits if_splits)
  note g = grpc_Send [OF assms(1) snd]
  have st1: "su_streams uc1 = (su_streams uc)(te_RequestID tok \<mapsto> t) \<and> su_inv nv cb uc1 w1 \<and>
    nv_addr nv w1 = (nv_addr nv w)(t \<mapsto> cb (te_RequestID tok)) \<and>
    (su_streams uc (te_RequestID tok) = Some t \<and> nv_log nv w1 = nv_log nv w \<and> nv_closed nv w1 = nv_closed nv w \<or>
     su_streams uc (te_RequestID tok) = None \<and> nv_addr nv w t = None \<and> nv_log nv w1 = (nv_log nv w)(t := []) \<and>
      nv_closed nv w1 = nv_closed nv w - {t})"
    using assms(1-3) o [unfolded x1]
  proof (cases rule: getOrOpenStream_cases)
    case known
    then have "nv_addr nv w t = Some (cb (te_RequestID tok))"
      using assms(3) unfolding su_inv_def by blast
    with known assms(3) show ?thesis by (simp add: fun_upd_idem)
  qed simp
  then have str1: "su_streams uc1 = (su_streams uc)(te_RequestID tok \<mapsto> t)" and inv1: "su_inv nv cb uc1 w1"
    and addr1: "nv_addr nv w1 = (nv_addr nv w)(t \<mapsto> cb (te_RequestID tok))"
    and log1: "su_streams uc (te_RequestID tok) = Some t \<and> nv_log nv w1 = nv_log nv w \<and> nv_closed nv w1 = nv_closed nv w \<or>
     su_streams uc (te_RequestID tok) = None \<and> nv_addr nv w t = None \<and> nv_log nv w1 = (nv_log nv w)(t := []) \<and>
      nv_closed nv w1 = nv_closed nv w - {t}"
    by blast+
  have net: "nv_log nv w' = nv_log nv w2" "nv_addr nv w' = nv_addr nv w2" "nv_conn nv w' = nv_conn nv w2"
    "nv_closed nv w' = (if te_Done tok then insert t (nv_closed nv w2) else nv_closed nv w2)"
    using fin grpc_Close [OF assms(1), of t w2 _ w'] by (auto split: if_splits)
  have str: "su_streams uc' = (su_streams uc)(te_RequestID tok := if te_Done tok then None else Some t)"
    using fin str1 by (auto simp: evict_def split: if_splits)
  have "su_addrMap uc' = su_addrMap uc1 \<or> su_addrMap uc' = (su_addrMap uc1)(te_RequestID tok := None)"
    and "su_connMap uc' = su_connMap uc1"
    and "\<And>r t. su_streams uc' r = Some t \<Longrightarrow> su_streams uc1 r = Some t"
    using fin by (auto simp: evict_def split: if_splits)
  then have inv': "su_inv nv cb uc' w'"
    using inv1 net(2,3) g(2,3) unfolding su_inv_def by (auto split: if_splits)
  have log': "nv_log nv w' = (nv_log nv w1)(t := nv_log nv w1 t @ [message_of tok])"
    and addr': "nv_addr nv w' = (nv_addr nv w)(t \<mapsto> cb (te_RequestID tok))"
    and cl': "nv_closed nv w1 \<subseteq> nv_closed nv w'" "te_Done tok \<longrightarrow> t \<in> nv_closed nv w'"
    using net g addr1 by auto
  show thesis
  proof (rule that [of t, OF _ addr' str cl'(2) inv'])
    show "su_streams uc (te_RequestID tok) = Some t \<and> nv_log nv w' = (nv_log nv w)(t := nv_log nv w t @ [message_of tok]) \<and>
       nv_closed nv w \<subseteq> nv_closed nv w' \<or>
     su_streams uc (te_RequestID tok) = None \<and> nv_addr nv w t = None \<and> nv_log nv w' = (nv_log nv w)(t := [message_of tok]) \<and>
       nv_closed nv w - {t} \<subseteq> nv_closed nv w'"
      using log1 log' cl'(1) by auto
  qed
qed

section \<open>Runs over the tokens of many requests\<close>

fun stream_run ::
  "('w, 'c, 't) grpc_lib \<Rightarrow> (string \<Rightarrow> ('w, string) go_call) \<Rightarrow> TokenEvent list \<Rightarrow>
   (('c, 't) StreamTokensUseCase \<times> 'w, unit) go_call" where
  "stream_run lib getcb [] = go_return ()"
| "stream_run lib getcb (tok # ts) = go_bind (stream_Execute lib getcb tok) (\<lambda>_. stream_run lib getcb ts)"

text \<open>How far the stream of a request has come: not opened, open with a history, or closed.\<close>

definition progress ::
  "('w, 'c, 't) net_view \<Rightarrow> (string \<Rightarrow> string) \<Rightarrow> string \<Rightarrow> TokenMessage list \<Rightarrow> bool \<Rightarrow>
   ('c, 't) StreamTokensUseCase \<Rightarrow> 'w \<Rightarrow> bool" where
  "progress nv cb r hist ended uc w \<longleftrightarrow>
     hist = [] \<and> \<not> ended \<and> su_streams uc r = None \<or>
     hist \<noteq> [] \<and> (\<exists>t. nv_addr nv w t = Some (cb r) \<and> nv_log nv w t = hist \<and>
        (if ended then su_streams uc r = None \<and> t \<notin> ran (su_streams uc) \<and> t \<in> nv_closed nv w
         else su_streams uc r = Some t))"

lemma progressI:
  assumes "hist \<noteq> []" and "nv_addr nv w t = Some (cb r)" and "nv_log nv w t = hist"
    and "ended \<Longrightarrow> su_streams uc r = None \<and> t \<notin> ran (su_streams uc) \<and> t \<in> nv_closed nv w"
    and "\<not> ended \<Longrightarrow> su_streams uc r = Some t"
  shows "progress nv cb r hist ended uc w"
  using assms unfolding progress_def by auto

lemma progress_step:
  assumes "grpc_documented lib nv" and "lookup_documented getcb nv cb" and "su_inv nv cb uc w"
    and "stream_Execute lib getcb tok (uc, w) = (Inr (), (uc', w'))"
    and "progress nv cb r hist ended uc w" and "te_RequestID tok = r \<longrightarrow> \<not> ended"
  shows "su_inv nv cb uc' w' \<and>
    progress nv cb r (hist @ (if te_RequestID tok = r then [message_of tok] else []))
      (ended \<or> te_RequestID tok = r \<and> te_Done tok) uc' w'"
proof -
  obtain t where st: "su_streams uc (te_RequestID tok) = Some t \<and>
        nv_log nv w' = (nv_log nv w)(t := nv_log nv w t @ [message_of tok]) \<and> nv_closed nv w \<subseteq> nv_closed nv w' \<or>
      su_streams uc (te_RequestID tok) = None \<and> nv_addr nv w t = None \<and>
        nv_log nv w' = (nv_log nv w)(t := [message_of tok]) \<and> nv_closed nv w - {t} \<subseteq> nv_closed nv w'"
    and addr: "nv_addr nv w' = (nv_addr nv w)(t \<mapsto> cb (te_RequestID tok))"
    and str: "su_streams uc' = (su_streams uc)(te_RequestID tok := if te_Done tok then None else Some t)"
    and cl: "te_Done tok \<longrightarrow> t \<in> nv_closed nv w'" and inv': "su_inv nv cb uc' w'"
    by (rule stream_Execute_Inr [OF assms(1-4)]) (rule that)
  have inj: "su_streams uc r1 = Some t1 \<Longrightarrow> su_streams uc r2 = Some t1 \<Longrightarrow> r1 = r2" for r1 r2 t1
    using assms(3) unfolding su_inv_def by blast
  have known: "su_streams uc r1 = Some t1 \<Longrightarrow> nv_addr nv w t1 \<noteq> None" for r1 t1
    using assms(3) unfolding su_inv_def by force
  show ?thesis
  proof (cases "te_RequestID tok = r")
    case True
    with assms(6) have ne: "\<not> ended" by simp
    consider "hist = []" "su_streams uc r = None" | u where "su_streams uc r = Some u" "nv_log nv w u = hist"
      using assms(5) ne unfolding progress_def by auto
    then have log: "nv_log nv w' t = hist @ [message_of tok]"
      using st by cases (auto simp: True)
    have ran: "t \<notin> ran (su_streams uc')" if "te_Done tok"
    proof
      assume "t \<in> ran (su_streams uc')"
      then obtain r1 where "su_streams uc' r1 = Some t" by (auto simp: ran_def)
      with that str True have r1: "r1 \<noteq> r" "su_streams uc r1 = Some t" by (auto split: if_splits)
      with st True inj known show False by metis
    qed
    show ?thesis
      by (intro conjI inv' progressI [where t = t]) (use addr str cl True ne log ran in simp_all)
  next
    case False
    show ?thesis
    proof (cases "hist = []")
      case True
      with assms(5) False str inv' show ?thesis by (simp add: progress_def)
    next
      case h: False
      with assms(5) obtain u where u: "nv_addr nv w u = Some (cb r)" "nv_log nv w u = hist"
        and e: "if ended then su_streams uc r = None \<and> u \<notin> ran (su_streams uc) \<and> u \<in> nv_closed nv w
           else su_streams uc r = Some u"
        unfolding progress_def by blast
      have ut: "u \<noteq> t"
      proof
        assume "u = t"
        with st u(1) have "su_streams uc (te_RequestID tok) = Some u" by auto
        with e inj False show False by (auto simp: ran_def split: if_splits)
      qed
      have ran: "u \<notin> ran (su_streams uc')" if "ended"
      proof
        assume "u \<in> ran (su_streams uc')"
        then obtain r1 where "su_streams uc' r1 = Some u" by (auto simp: ran_def)
        with str ut have "su_streams uc r1 = Some u" by (auto split: if_splits)
        with that e show False by (auto simp: ran_def)
      qed
      have "nv_addr nv w' u = Some (cb r)" and "nv_log nv w' u = hist"
        and "u \<in> nv_closed nv w \<longrightarrow> u \<in> nv_closed nv w'" and "su_streams uc' r = su_streams uc r"
        using st ut u addr str False by auto
      with h e ran False show ?thesis
        by (intro conjI inv' progressI [where t = u]) (simp_all split: if_splits)
    qed
  qed
qed

lemma stream_run_progress:
  assumes "grpc_documented lib nv" and "lookup_documented getcb nv cb" and "su_inv nv cb uc w"
    and "stream_run lib getcb ts (uc, w) = (Inr (), (uc', w'))"
    and "progress nv cb r hist ended uc w"
    and "ended \<longrightarrow> filter (\<lambda>k. te_RequestID k = r) ts = []"
    and "\<forall>k \<in> set (butlast (filter (\<lambda>k. te_RequestID k = r) ts)). \<not> te_Done k"
  shows "su_inv nv cb uc' w' \<and> progress nv cb r (hist @ map message_of (filter (\<lambda>k. te_RequestID k = r) ts))
    (ended \<or> filter (\<lambda>k. te_RequestID k = r) ts \<noteq> [] \<and> te_Done (last (filter (\<lambda>k. te_RequestID k = r) ts))) uc' w'"
  using assms(3-)
proof (induction ts arbitrary: uc w hist ended)
  case Nil
  then show ?case by (simp add: go_return_def)
next
  case (Cons k ts)
  obtain uc1 w1 where 1: "stream_Execute lib getcb k (uc, w) = (Inr (), (uc1, w1))"
    and 2: "stream_run lib getcb ts (uc1, w1) = (Inr (), (uc', w'))"
    using Cons.prems(2) by (auto elim!: go_bind_InrE)
  note st = progress_step [OF assms(1,2) Cons.prems(1) 1 Cons.prems(3)]
  show ?case
  proof (cases "te_RequestID k = r")
    case True
    with Cons.prems(4) have ne: "\<not> ended" by simp
    have rest: "te_Done k \<longrightarrow> filter (\<lambda>k. te_RequestID k = r) ts = []"
      using Cons.prems(5) True by (auto split: if_splits)
    have "\<forall>k \<in> set (butlast (filter (\<lambda>k. te_RequestID k = r) ts)). \<not> te_Done k"
      using Cons.prems(5) True by (auto split: if_splits)
    with Cons.IH [of uc1 w1 "hist @ [message_of k]" "te_Done k"] st True ne 2 rest show ?thesis
      by auto
  next
    case False
    with Cons.IH [of uc1 w1 hist ended] st 2 Cons.prems(4,5) show ?thesis by simp
  qed
qed

section \<open>The invariant on every path\<close>

lemma su_inv_net:
  "su_inv nv cb uc w \<Longrightarrow> nv_addr nv w' = nv_addr nv w \<Longrightarrow> nv_conn nv w' = nv_conn nv w \<Longrightarrow> su_inv nv cb uc w'"
  by (simp add: su_inv_def)

lemma on_world_Inl: "on_world m (uc, w) = (Inl e, (uc', w')) \<longleftrightarrow> uc' = uc \<and> m w = (Inl e, w')"
  by (auto simp: on_world_def split: prod.split)

lemma wrap_err_Inl: "wrap_err p m s = (Inl e, s') \<longleftrightarrow> (\<exists>e'. e = Wrap p e' \<and> m s = (Inl e', s'))"
  by (auto simp: wrap_err_def split: prod.split sum.split)

lemma resolveAddr_Inl:
  assumes "lookup_documented getcb nv cb" and "resolveAddr getcb r (uc, w) = (Inl e, (uc', w'))"
  shows "uc' = uc \<and> same_net nv w w'"
proof (cases "su_addrMap uc r")
  case None
  with assms(2) have "getcb r w = (Inl e, w')" and "uc' = uc"
    by (auto simp: resolveAddr_def on_world_Inl elim!: go_bind_cases split: prod.splits)
  with assms(1) show ?thesis unfolding lookup_documented_def by blast
qed (use assms in \<open>simp add: resolveAddr_def\<close>)

lemma getConn_Inl:
  assumes "grpc_documented lib nv" and "getConn lib a (uc, w) = (Inl e, (uc', w'))"
  shows "uc' = uc \<and> same_net nv w w'"
proof (cases "su_connMap uc a")
  case None
  with assms(2) have "gl_NewClient lib a (su_secret uc) w = (Inl e, w')" and "uc' = uc"
    by (auto simp: getConn_def on_world_Inl elim!: go_bind_cases split: prod.splits)
  with grpc_failed(1) [OF assms(1)] show ?thesis by blast
qed (use assms in \<open>simp add: getConn_def\<close>)

lemma getOrOpenStream_inv:
  assumes "grpc_documented lib nv" and "lookup_documented getcb nv cb" and "su_inv nv cb uc w"
    and "getOrOpenStream lib getcb r (uc, w) = (res, (uc', w'))"
  shows "su_inv nv cb uc' w'"
proof (cases res)
  case (Inr t)
  show ?thesis
    using assms(1-3) assms(4) [unfolded Inr]
    by (cases rule: getOrOpenStream_cases) (use assms(3) in simp_all)
next
  case (Inl e)
  have none: "su_streams uc r = None"
    using assms(4) Inl by (auto simp: getOrOpenStream_def split: option.splits)
  have "go_bind (wrap_err ''resolve addr'' (resolveAddr getcb r)) (\<lambda>addr.
      go_bind (wrap_err ''grpc conn'' (getConn lib addr)) (\<lambda>conn.
      go_bind (wrap_err ''grpc stream'' (on_world (gl_DeliverTokens lib conn))) (\<lambda>stream (uc, w).
        (Inr stream, (uc\<lparr>su_streams := (su_streams uc)(r \<mapsto> stream)\<rparr>, w))))) (uc, w) = (Inl e, (uc', w'))"
    using assms(4) none by (simp add: getOrOpenStream_def Inl)
  then show ?thesis
  proof (cases rule: go_bind_cases)
    case (fail e1)
    then obtain e' where "resolveAddr getcb r (uc, w) = (Inl e', (uc', w'))"
      by (auto simp: wrap_err_Inl)
    from resolveAddr_Inl [OF assms(2) this] have "uc' = uc \<and> same_net nv w w'" .
    with assms(3) show ?thesis by (auto simp: same_net_def intro: su_inv_net)
  next
    case (step a x1)
    obtain uc1 w1 where x1: "x1 = (uc1, w1)" by (cases x1)
    have inv1: "su_inv nv cb uc1 w1"
      using resolveAddr_Inr(3) [OF assms(2,3)] step(1) by (simp add: x1 wrap_err_Inr)
    from step(2) show ?thesis
    proof (cases rule: go_bind_cases)
      case (fail e1)
      then obtain e' where "getConn lib a (uc1, w1) = (Inl e', (uc', w'))"
        by (auto simp: x1 wrap_err_Inl)
      from getConn_Inl [OF assms(1) this] have "uc' = uc1 \<and> same_net nv w1 w'" .
      with inv1 show ?thesis by (auto simp: same_net_def intro: su_inv_net)
    next
      case (step c x2)
      obtain uc2 w2 where x2: "x2 = (uc2, w2)" by (cases x2)
      have inv2: "su_inv nv cb uc2 w2"
        using getConn_Inr(5) [OF assms(1) inv1] step(1) by (simp add: x1 x2 wrap_err_Inr)
      from step(2) have "uc' = uc2 \<and> same_net nv w2 w'"
        by (cases rule: go_bind_cases)
          (use grpc_failed(2) [OF assms(1)] in \<open>auto simp: x2 wrap_err_Inl on_world_Inl split: prod.splits\<close>)
      with inv2 show ?thesis by (auto simp: same_net_def intro: su_inv_net)
    qed
  qed
qed

lemma su_inv_evict: "su_inv nv cb uc w \<Longrightarrow> su_inv nv cb (evict r uc) w"
  unfolding su_inv_def evict_def by (auto split: if_splits)

lemma stream_Execute_inv:
  assumes "grpc_documented lib nv" and "lookup_documented getcb nv cb" and "su_inv nv cb uc w"
    and "stream_Execute lib getcb tok (uc, w) = (res, (uc', w'))"
  shows "su_inv nv cb uc' w'"
  using assms(4) unfolding stream_Execute_def
proof (cases rule: go_bind_cases)
  case (fail e)
  then show ?thesis using getOrOpenStream_inv [OF assms(1-3)] by blast
next
  case (step t x1)
  obtain uc1 w1 where x1: "x1 = (uc1, w1)" by (cases x1)
  have inv1: "su_inv nv cb uc1 w1"
    using getOrOpenStream_inv [OF assms(1-3)] step(1) by (simp add: x1)
  obtain y w2 where snd: "gl_Send lib t (message_of tok) w1 = (y, w2)" by fastforce
  have inv2: "su_inv nv cb uc1 w2"
    using grpc_Send(2,3) [OF assms(1), of t "message_of tok" w1 w2]
      grpc_failed(3) [OF assms(1), of t "message_of tok" w1 _ w2] snd inv1
    by (cases y) (auto intro: su_inv_net)
  obtain z w3 where cl: "gl_CloseAndRecv lib t w2 = (z, w3)" by fastforce
  have inv3: "su_inv nv cb uc1 w3"
    using grpc_Close(3,4) [OF assms(1) cl] inv2 by (rule su_inv_net [rotated])
  from step(2) show ?thesis
    using inv2 inv3 by (auto simp: x1 snd cl su_inv_evict split: sum.splits if_splits)
qed

text \<open>Calls one after the other, whatever they return.\<close>

fun stream_all ::
  "('w, 'c, 't) grpc_lib \<Rightarrow> (string \<Rightarrow> ('w, string) go_call) \<Rightarrow> TokenEvent list \<Rightarrow>
   ('c, 't) StreamTokensUseCase \<times> 'w \<Rightarrow> ('c, 't) StreamTokensUseCase \<times> 'w" where
  "stream_all lib getcb [] x = x"
| "stream_all lib getcb (tok # ts) x = stream_all lib getcb ts (snd (stream_Execute lib getcb tok x))"

lemma stream_all_inv:
  assumes "grpc_documented lib nv" and "lookup_documented getcb nv cb"
  shows "su_inv nv cb uc w \<Longrightarrow> stream_all lib getcb ts (uc, w) = (uc', w') \<Longrightarrow> su_inv nv cb uc' w'"
proof (induction ts arbitrary: uc w)
  case (Cons tok ts)
  obtain res uc1 w1 where e: "stream_Execute lib getcb tok (uc, w) = (res, (uc1, w1))"
    by (metis prod_cases3)
  from Cons.IH [OF stream_Execute_inv [OF assms Cons.prems(1) e]] Cons.prems(2) e show ?case by simp
qed simp

section \<open>Two goroutines in getConn\<close>

text \<open>
  \<open>getConn\<close> reads the map under the read lock, dials without a lock and stores under the write
  lock; goroutines of different requests can be between these steps at once.
\<close>

datatype 'c conn_pc = Lookup | Dial | Store 'c | Got 'c | DialFailed go_error

definition getConn_step ::
  "('w, 'c, 't) grpc_lib \<Rightarrow> string \<Rightarrow> 'c conn_pc \<Rightarrow> ('c, 't) StreamTokensUseCase \<times> 'w \<Rightarrow>
   'c conn_pc \<times> (('c, 't) StreamTokensUseCase \<times> 'w)" where
  "getConn_step lib addr pc = (\<lambda>(uc, w).
     (case pc of
        Lookup \<Rightarrow> (case su_connMap uc addr of Some conn \<Rightarrow> (Got conn, (uc, w)) | None \<Rightarrow> (Dial, (uc, w)))
      | Dial \<Rightarrow> (case gl_NewClient lib addr (su_secret uc) w of
                 (Inl e, w') \<Rightarrow> (DialFailed e, (uc, w'))
               | (Inr conn, w') \<Rightarrow> (Store conn, (uc, w')))
      | Store conn \<Rightarrow> (Got conn, (uc\<lparr>su_connMap := (su_connMap uc)(addr \<mapsto> conn)\<rparr>, w))
      | _ \<Rightarrow> (pc, (uc, w))))"

text \<open>A schedule picks goroutine \<open>False\<close> or \<open>True\<close> for each step.\<close>

fun getConn_race ::
  "('w, 'c, 't) grpc_lib \<Rightarrow> string \<Rightarrow> bool list \<Rightarrow> 'c conn_pc \<times> 'c conn_pc \<Rightarrow>
   ('c, 't) StreamTokensUseCase \<times> 'w \<Rightarrow> ('c conn_pc \<times> 'c conn_pc) \<times> (('c, 't) StreamTokensUseCase \<times> 'w)" where
  "getConn_race lib addr [] pcs x = (pcs, x)"
| "getConn_race lib addr (b # bs) (p, q) x =
     (if b then case getConn_step lib addr q x of (q', x') \<Rightarrow> getConn_race lib addr bs (p, q') x'
      else case getConn_step lib addr p x of (p', x') \<Rightarrow> getConn_race lib addr bs (p', q) x')"

lemma getConn_steps:
  "((\<lambda>(pc, x). getConn_step lib addr pc x) ^^ 3) (Lookup, x) =
     (case getConn lib addr x of (Inr conn, x') \<Rightarrow> (Got conn, x') | (Inl e, x') \<Rightarrow> (DialFailed e, x'))"
proof -
  obtain uc w where x: "x = (uc, w)" by (cases x)
  show ?thesis
  proof (cases "su_connMap uc addr")
    case None
    obtain y w' where "gl_NewClient lib addr (su_secret uc) w = (y, w')" by fastforce
    with None show ?thesis
      by (cases y) (simp_all add: x numeral_3_eq_3 getConn_step_def getConn_def go_bind_def on_world_def)
  qed (simp add: x numeral_3_eq_3 getConn_step_def getConn_def)
qed

section \<open>A reference network\<close>

record toy_net =
  tn_next :: nat
  tn_conn :: "nat \<rightharpoonup> string"
  tn_addr :: "nat \<rightharpoonup> string"
  tn_log :: "nat \<Rightarrow> TokenMessage list"
  tn_closed :: "nat set"

definition toy_lib :: "(toy_net, nat, nat) grpc_lib" where
  "toy_lib =
     \<lparr>gl_NewClient = (\<lambda>a secret w. (Inr (tn_next w),
        w\<lparr>tn_conn := (tn_conn w)(tn_next w \<mapsto> a), tn_addr := (tn_addr w)(tn_next w := None),
          tn_next := Suc (tn_next w)\<rparr>)),
      gl_DeliverTokens = (\<lambda>c w. (Inr (tn_next w),
        w\<lparr>tn_addr := (tn_addr w)(tn_next w := if c < tn_next w then tn_conn w c else None),
          tn_log := (tn_log w)(tn_next w := []), tn_closed := tn_closed w - {tn_next w},
          tn_conn := (tn_conn w)(tn_next w := None), tn_next := Suc (tn_next w)\<rparr>)),
      gl_Send = (\<lambda>t m w. (Inr (), w\<lparr>tn_log := (tn_log w)(t := tn_log w t @ [m])\<rparr>)),
      gl_CloseAndRecv = (\<lambda>t w. (Inr (), w\<lparr>tn_closed := insert t (tn_closed w)\<rparr>))\<rparr>"

definition toy_view :: "(toy_net, nat, nat) net_view" where
  "toy_view =
     \<lparr>nv_conn = (\<lambda>w c. if c < tn_next w then tn_conn w c else None),
      nv_addr = (\<lambda>w t. if t < tn_next w then tn_addr w t else None),
      nv_log = tn_log, nv_closed = tn_closed\<rparr>"

lemma toy_documented: "grpc_documented toy_lib toy_view"
  unfolding grpc_documented_def
  by (auto simp: toy_lib_def toy_view_def fun_eq_iff less_Suc_eq)

definition toy_getcb :: "string \<Rightarrow> (toy_net, string) go_call" where
  "toy_getcb r w = (Inr (''api:'' @ r), w)"

lemma toy_lookup: "lookup_documented toy_getcb toy_view (\<lambda>r. ''api:'' @ r)"
  by (simp add: lookup_documented_def toy_getcb_def same_net_def)

definition toy_start :: toy_net where
  "toy_start = \<lparr>tn_next = 0, tn_conn = Map.empty, tn_addr = Map.empty, tn_log = (\<lambda>_. []), tn_closed = {}\<rparr>"

definition demo_te :: "string \<Rightarrow> string \<Rightarrow> bool \<Rightarrow> TokenEvent" where
  "demo_te r d b =
     \<lparr>te_RequestID = r, te_SessionID = [], te_UserMessage = [], te_Delta = d, te_Done = b\<rparr>"

section \<open>Properties\<close>

text \<open>
  (C10) The tokens of a request reach the API instance that waits for them on one stream, completely
  and in order: when the tokens of many requests are executed and nothing fails, then for every
  request whose tokens carry the done flag at most at their end there is one stream, opened to the
  request's callback address, on which exactly its tokens were sent; after the done token the stream
  is closed and forgotten.
\<close>

theorem stream_delivers_request:
  assumes "grpc_documented lib nv" and "lookup_documented getcb nv cb"
    and "stream_run lib getcb ts (NewStreamTokens secret, w) = (Inr (), (uc', w'))"
    and "filter (\<lambda>k. te_RequestID k = r) ts = us @ [u]" and "\<forall>k \<in> set us. \<not> te_Done k"
  shows "\<exists>t. nv_addr nv w' t = Some (cb r) \<and> nv_log nv w' t = map message_of (us @ [u]) \<and>
           (if te_Done u then t \<in> nv_closed nv w' \<and> su_streams uc' r = None else su_streams uc' r = Some t)"
proof -
  have "progress nv cb r [] False (NewStreamTokens secret) w"
    by (simp add: progress_def NewStreamTokens_def)
  from stream_run_progress [OF assms(1,2) su_inv_New assms(3) this] assms(4,5)
  have "progress nv cb r (map message_of (us @ [u])) (te_Done u) uc' w'" by simp
  then show ?thesis unfolding progress_def by auto
qed

theorem stream_delivers_request_witness:
  "\<exists>uc' w' t. stream_run toy_lib toy_getcb [demo_te ''r1'' ''a'' False, demo_te ''r2'' ''x'' False,
        demo_te ''r1'' ''b'' False, demo_te ''r1'' [] True] (NewStreamTokens ''key'', toy_start) = (Inr (), (uc', w')) \<and>
     nv_log toy_view w' t = [demo_tm ''r1'' ''a'' False, demo_tm ''r1'' ''b'' False, demo_tm ''r1'' [] True] \<and>
     t \<in> nv_closed toy_view w'"
proof -
  let ?ts = "[demo_te ''r1'' ''a'' False, demo_te ''r2'' ''x'' False, demo_te ''r1'' ''b'' False, demo_te ''r1'' [] True]"
  have "fst (stream_run toy_lib toy_getcb ?ts (NewStreamTokens ''key'', toy_start)) = Inr ()"
    by (simp add: go_bind_def stream_Execute_def getOrOpenStream_def resolveAddr_def getConn_def wrap_err_def
        on_world_def toy_lib_def toy_getcb_def NewStreamTokens_def demo_te_def evict_def go_return_def)
  then obtain uc' w' where run: "stream_run toy_lib toy_getcb ?ts (NewStreamTokens ''key'', toy_start) = (Inr (), (uc', w'))"
    by (metis prod.collapse)
  have "filter (\<lambda>k. te_RequestID k = ''r1'') ?ts = [demo_te ''r1'' ''a'' False, demo_te ''r1'' ''b'' False] @ [demo_te ''r1'' [] True]"
    by (simp add: demo_te_def)
  from stream_delivers_request [OF toy_documented toy_lookup run this] run show ?thesis
    by (auto simp: demo_te_def demo_tm_def message_of_def)
qed

text \<open>
  Requests are never mixed up, on any path: after any tokens of any requests, whatever lookups,
  dials, opens and sends failed, every open stream goes to the callback address of its request, no
  two requests share a stream, and the cached addresses and connections are the right ones.
\<close>

theorem stream_routing_invariant:
  assumes "grpc_documented lib nv" and "lookup_documented getcb nv cb"
    and "stream_all lib getcb ts (NewStreamTokens secret, w) = (uc', w')"
  shows "(\<forall>r t. su_streams uc' r = Some t \<longrightarrow> nv_addr nv w' t = Some (cb r)) \<and>
         inj_on (su_streams uc') (dom (su_streams uc')) \<and>
         (\<forall>r a. su_addrMap uc' r = Some a \<longrightarrow> a = cb r) \<and>
         (\<forall>a c. su_connMap uc' a = Some c \<longrightarrow> nv_conn nv w' c = Some a)"
  using stream_all_inv [OF assms(1,2) su_inv_New assms(3)] unfolding su_inv_def
  by (auto intro!: inj_onI)

theorem stream_routing_invariant_witness:
  "\<exists>uc' w'. stream_all toy_lib toy_getcb [demo_te ''r1'' ''a'' False, demo_te ''r2'' ''x'' False]
       (NewStreamTokens ''key'', toy_start) = (uc', w') \<and> inj_on (su_streams uc') (dom (su_streams uc'))"
proof -
  obtain uc' w' where run: "stream_all toy_lib toy_getcb [demo_te ''r1'' ''a'' False, demo_te ''r2'' ''x'' False]
       (NewStreamTokens ''key'', toy_start) = (uc', w')"
    by fastforce
  from stream_routing_invariant [OF toy_documented toy_lookup run] run show ?thesis by blast
qed

text \<open>
  \<open>getConn\<close> is not atomic: two goroutines whose requests go to the same new address can both
  find the map empty and both dial; each uses its own connection, and the one stored first is
  overwritten, so the cache no longer knows it and nothing will close it.
\<close>

theorem getConn_race_leaks_connection:
  assumes "grpc_documented lib nv" and "\<And>a w. \<exists>c w'. gl_NewClient lib a secret w = (Inr c, w')"
  shows "\<exists>c1 c2 uc' w'. getConn_race lib addr [False, True, False, True, False, True] (Lookup, Lookup)
            (NewStreamTokens secret, w) = ((Got c1, Got c2), (uc', w')) \<and>
          c1 \<noteq> c2 \<and> nv_conn nv w' c1 = Some addr \<and> nv_conn nv w' c2 = Some addr \<and>
          su_connMap uc' addr = Some c2 \<and> c1 \<notin> ran (su_connMap uc')"
proof -
  obtain c1 w1 where 1: "gl_NewClient lib addr secret w = (Inr c1, w1)" using assms(2) by blast
  obtain c2 w2 where 2: "gl_NewClient lib addr secret w1 = (Inr c2, w2)" using assms(2) by blast
  note n1 = grpc_NewClient [OF assms(1) 1] and n2 = grpc_NewClient [OF assms(1) 2]
  have ne: "c1 \<noteq> c2" using n1(2) n2(1) by auto
  have "getConn_race lib addr [False, True, False, True, False, True] (Lookup, Lookup) (NewStreamTokens secret, w) =
      ((Got c1, Got c2), ((NewStreamTokens secret)\<lparr>su_connMap := [addr \<mapsto> c2]\<rparr>, w2))"
    by (simp add: getConn_step_def NewStreamTokens_def 1 2)
  with n1(2) n2(2) ne show ?thesis
    by (auto simp: ran_def)
qed

theorem getConn_race_leaks_connection_witness:
  "\<exists>c1 c2 uc' w'. getConn_race toy_lib ''api:1'' [False, True, False, True, False, True] (Lookup, Lookup)
            (NewStreamTokens ''key'', toy_start) = ((Got c1, Got c2), (uc', w')) \<and> c1 \<noteq> c2"
  using getConn_race_leaks_connection [OF toy_documented, of "''key''" "''api:1''" toy_start]
  by (auto simp: toy_lib_def)

text \<open>
  The worker's streams are the ones the API's interceptor lets through: with the metadata that
  \<open>streamCreds\<close> attaches, the handler runs exactly when worker and API are configured with the same
  non-empty secret.
\<close>

theorem client_authorized:
  "if secret \<noteq> [] \<and> client = secret
   then StreamAuthInterceptor secret (Some (\<lambda>k. case GetRequestMetadata client k of None \<Rightarrow> [] | Some v \<Rightarrow> [v])) handler s = handler s
   else \<exists>err. StreamAuthInterceptor secret (Some (\<lambda>k. case GetRequestMetadata client k of None \<Rightarrow> [] | Some v \<Rightarrow> [v])) handler s = (Some (Some err), s)"
  by (auto simp: StreamAuthInterceptor_def GetRequestMetadata_def Let_def ConstantTimeCompare_iff
      HasPrefix_def TrimPrefix_def)

end
