(* ===== verification/StreamingWorker.thy ===== *)
theory StreamingWorker
  imports StreamTokens
begin

text \<open>
  \<open>internal/adapter/controller/consumer/streaming_worker.go\<close>: the consumer loop that routes each
  token to the goroutine of its request over a channel of capacity 32, and those goroutines, which
  call the use case and end after the done token, after 30 seconds without a token, or with the
  context.  The threads are a labelled step relation; a step is a critical section, a channel
  operation, a result of the Kafka reader, or a call of the use case.  A \<open>select\<close> with several
  ready cases may take any of them, so a timeout may happen whenever the goroutine selects.
\<close>

section \<open>The worker\<close>

record streamToken =
  sk_RequestID :: string
  sk_Delta :: string
  sk_Done :: bool

definition zero_streamToken :: streamToken where
  "zero_streamToken = \<lparr>sk_RequestID = [], sk_Delta = [], sk_Done = False\<rparr>"

definition unmarshal_streamToken :: "string \<Rightarrow> streamToken option" where
  "unmarshal_streamToken = Unmarshal
     [(''request_id'', field_string sk_RequestID_update), (''delta'', field_string sk_Delta_update),
      (''done'', field_bool sk_Done_update)] zero_streamToken"

text \<open>The event the goroutine hands to the use case: only three fields are set.\<close>

definition event_of :: "streamToken \<Rightarrow> TokenEvent" where
  "event_of token =
     \<lparr>te_RequestID = sk_RequestID token, te_SessionID = [], te_UserMessage = [],
      te_Delta = sk_Delta token, te_Done = sk_Done token\<rparr>"

definition channel_capacity :: nat where
  "channel_capacity = 32"

datatype router_pc = Reading | Routing streamToken | Sending chan_ref streamToken | RouterReturned

datatype proc_pc = Selecting | Leaving

text \<open>
  \<open>sw_procs\<close>: the goroutines that run, by their channel; \<open>sw_calls\<close>: the calls of the use
  case so far, in order; \<open>sw_useCase\<close>: the use case with the world it acts on.
\<close>

record 'x StreamingWorker =
  sw_useCase :: 'x
  sw_channels :: "string \<rightharpoonup> chan_ref"
  sw_bufs :: "chan_ref \<Rightarrow> streamToken list"
  sw_next :: chan_ref
  sw_procs :: "chan_ref \<rightharpoonup> string \<times> proc_pc"
  sw_router :: router_pc
  sw_done :: bool
  sw_calls :: "streamToken list"

definition sw_New :: "'x \<Rightarrow> 'x StreamingWorker" where
  "sw_New x =
     \<lparr>sw_useCase = x, sw_channels = Map.empty, sw_bufs = (\<lambda>_. []), sw_next = 0, sw_procs = Map.empty,
      sw_router = Reading, sw_done = False, sw_calls = []\<rparr>"

text \<open>\<open>route\<close> under the lock: the channel of the request, made with its goroutine if there is none.\<close>

definition route_lookup :: "streamToken \<Rightarrow> 'x StreamingWorker \<Rightarrow> 'x StreamingWorker" where
  "route_lookup token s =
     (case sw_channels s (sk_RequestID token) of
        Some ch \<Rightarrow> s\<lparr>sw_router := Sending ch token\<rparr>
      | None \<Rightarrow>
          let ch = sw_next s in
          s\<lparr>sw_channels := (sw_channels s)(sk_RequestID token \<mapsto> ch),
            sw_bufs := (sw_bufs s)(ch := []), sw_next := Suc ch,
            sw_procs := (sw_procs s)(ch \<mapsto> (sk_RequestID token, Selecting)),
            sw_router := Sending ch token\<rparr>)"

text \<open>What happens: the label of a step.\<close>

datatype sw_event =
    MsgFetched string
  | FetchFailed
  | RouteLocked
  | Sent
  | GaveUp
  | Executed chan_ref
  | TimedOut chan_ref
  | CtxSeen chan_ref
  | Left chan_ref
  | CtxCancelled

inductive sw_step :: "('x \<Rightarrow> TokenEvent \<Rightarrow> 'x) \<Rightarrow> sw_event \<Rightarrow> 'x StreamingWorker \<Rightarrow> 'x StreamingWorker \<Rightarrow> bool"
  for exec :: "'x \<Rightarrow> TokenEvent \<Rightarrow> 'x" where
  fetched: "sw_router s = Reading \<Longrightarrow>
    sw_step exec (MsgFetched m) s
      (case unmarshal_streamToken m of None \<Rightarrow> s | Some token \<Rightarrow> s\<lparr>sw_router := Routing token\<rparr>)"
| fetch_failed: "sw_router s = Reading \<Longrightarrow>
    sw_step exec FetchFailed s (if sw_done s then s\<lparr>sw_router := RouterReturned\<rparr> else s)"
| locked: "sw_router s = Routing token \<Longrightarrow> sw_step exec RouteLocked s (route_lookup token s)"
| sent: "sw_router s = Sending ch token \<Longrightarrow> length (sw_bufs s ch) < channel_capacity \<Longrightarrow>
    sw_step exec Sent s (s\<lparr>sw_bufs := (sw_bufs s)(ch := sw_bufs s ch @ [token]), sw_router := Reading\<rparr>)"
| gave_up: "sw_router s = Sending ch token \<Longrightarrow> sw_done s \<Longrightarrow>
    sw_step exec GaveUp s (s\<lparr>sw_router := Reading\<rparr>)"
| executed: "sw_procs s ch = Some (r, Selecting) \<Longrightarrow> sw_bufs s ch = token # rest \<Longrightarrow>
    sw_step exec (Executed ch) s
      (s\<lparr>sw_bufs := (sw_bufs s)(ch := rest), sw_useCase := exec (sw_useCase s) (event_of token),
         sw_calls := sw_calls s @ [token],
         sw_procs := (sw_procs s)(ch \<mapsto> (r, if sk_Done token then Leaving else Selecting))\<rparr>)"
| timed_out: "sw_procs s ch = Some (r, Selecting) \<Longrightarrow>
    sw_step exec (TimedOut ch) s (s\<lparr>sw_procs := (sw_procs s)(ch \<mapsto> (r, Leaving))\<rparr>)"
| ctx_seen: "sw_procs s ch = Some (r, Selecting) \<Longrightarrow> sw_done s \<Longrightarrow>
    sw_step exec (CtxSeen ch) s (s\<lparr>sw_procs := (sw_procs s)(ch \<mapsto> (r, Leaving))\<rparr>)"
| left: "sw_procs s ch = Some (r, Leaving) \<Longrightarrow>
    sw_step exec (Left ch) s
      (s\<lparr>sw_channels := (sw_channels s)(r := None), sw_procs := (sw_procs s)(ch := None)\<rparr>)"
| cancelled: "sw_step exec CtxCancelled s (s\<lparr>sw_done := True\<rparr>)"

inductive_cases sw_stepE: "sw_step exec ev s s'"

inductive sw_steps :: "('x \<Rightarrow> TokenEvent \<Rightarrow> 'x) \<Rightarrow> sw_event list \<Rightarrow> 'x StreamingWorker \<Rightarrow> 'x StreamingWorker \<Rightarrow> bool"
  for exec :: "'x \<Rightarrow> TokenEvent \<Rightarrow> 'x" where
  done_steps: "sw_steps exec [] s s"
| more_steps: "sw_steps exec evs s s' \<Longrightarrow> sw_step exec ev s' s'' \<Longrightarrow> sw_steps exec (evs @ [ev]) s s''"

lemma steps_single: "sw_step exec ev s s' \<Longrightarrow> sw_steps exec [ev] s s'"
  using more_steps [OF done_steps, of exec ev s s'] by simp

lemma steps_trans: "sw_steps exec evs' s' s'' \<Longrightarrow> sw_steps exec evs s s' \<Longrightarrow> sw_steps exec (evs @ evs') s s''"
proof (induction rule: sw_steps.induct)
  case (more_steps evs' s' s1 ev s2)
  then have "sw_steps exec (evs @ evs') s s1" by blast
  from sw_steps.more_steps [OF this more_steps.hyps(2)] show ?case by simp
qed simp

section \<open>The invariant\<close>

text \<open>
  A registered channel has the goroutine of its request and every goroutine's channel is registered
  for its request; numbers are fresh; buffers keep their capacity; a registered channel holds tokens
  of its request only, and the router sends into a registered channel only tokens of its request.
\<close>

definition procs_match :: "(string \<rightharpoonup> chan_ref) \<Rightarrow> (chan_ref \<rightharpoonup> string \<times> proc_pc) \<Rightarrow> bool" where
  "procs_match cs ps \<longleftrightarrow> (\<forall>r ch. cs r = Some ch \<longleftrightarrow> (\<exists>pc. ps ch = Some (r, pc)))"

definition procs_below :: "(chan_ref \<rightharpoonup> string \<times> proc_pc) \<Rightarrow> chan_ref \<Rightarrow> bool" where
  "procs_below ps n \<longleftrightarrow> (\<forall>ch. n \<le> ch \<longrightarrow> ps ch = None)"

definition router_below :: "router_pc \<Rightarrow> chan_ref \<Rightarrow> bool" where
  "router_below pc n \<longleftrightarrow> (\<forall>ch token. pc = Sending ch token \<longrightarrow> ch < n)"

definition bufs_small :: "(chan_ref \<Rightarrow> streamToken list) \<Rightarrow> bool" where
  "bufs_small bs \<longleftrightarrow> (\<forall>ch. length (bs ch) \<le> channel_capacity)"

definition bufs_own :: "(string \<rightharpoonup> chan_ref) \<Rightarrow> (chan_ref \<Rightarrow> streamToken list) \<Rightarrow> bool" where
  "bufs_own cs bs \<longleftrightarrow> (\<forall>r ch. cs r = Some ch \<longrightarrow> (\<forall>t \<in> set (bs ch). sk_RequestID t = r))"

definition router_own :: "(string \<rightharpoonup> chan_ref) \<Rightarrow> router_pc \<Rightarrow> bool" where
  "router_own cs pc \<longleftrightarrow> (\<forall>r ch t. pc = Sending ch t \<longrightarrow> cs r = Some ch \<longrightarrow> sk_RequestID t = r)"

definition sw_inv :: "'x StreamingWorker \<Rightarrow> bool" where
  "sw_inv s \<longleftrightarrow>
     procs_match (sw_channels s) (sw_procs s) \<and> procs_below (sw_procs s) (sw_next s) \<and>
     router_below (sw_router s) (sw_next s) \<and> bufs_small (sw_bufs s) \<and>
     bufs_own (sw_channels s) (sw_bufs s) \<and> router_own (sw_channels s) (sw_router s)"

lemma sw_inv_New [simp]: "sw_inv (sw_New x)"
  by (simp add: sw_inv_def sw_New_def procs_match_def procs_below_def router_below_def bufs_small_def
      bufs_own_def router_own_def)

lemma procs_match_iff: "procs_match cs ps \<Longrightarrow> cs r = Some ch \<longleftrightarrow> (\<exists>pc. ps ch = Some (r, pc))"
  by (simp add: procs_match_def)

text \<open>One goroutine per request, one request per channel.\<close>

lemma procs_match_unique:
  assumes "procs_match cs ps" and "ps ch = Some (r, pc)"
  shows "cs r = Some ch" and "ps ch' = Some (r, pc') \<Longrightarrow> ch' = ch" and "cs r' = Some ch \<Longrightarrow> r' = r"
proof -
  show 1: "cs r = Some ch" using assms procs_match_iff by blast
  show "ch' = ch" if "ps ch' = Some (r, pc')"
    using that 1 procs_match_iff [OF assms(1), of r ch'] by auto
  show "r' = r" if "cs r' = Some ch"
    using that assms procs_match_iff [OF assms(1), of r' ch] by auto
qed

lemma procs_match_below:
  assumes "procs_match cs ps" and "procs_below ps n"
  shows "cs r = Some ch \<Longrightarrow> ch < n"
  using assms procs_match_iff [OF assms(1), of r ch] unfolding procs_below_def
  by (metis not_le option.distinct(1))

lemma procs_match_add:
  assumes "procs_match cs ps" and "cs r = None" and "ps ch = None"
  shows "procs_match (cs(r \<mapsto> ch)) (ps(ch \<mapsto> (r, pc)))"
  unfolding procs_match_def
proof (intro allI)
  fix r' ch'
  show "(cs(r \<mapsto> ch)) r' = Some ch' \<longleftrightarrow> (\<exists>pc'. (ps(ch \<mapsto> (r, pc))) ch' = Some (r', pc'))"
    using assms(2,3) procs_match_iff [OF assms(1), of r' ch'] by auto
qed

lemma procs_match_set:
  assumes "procs_match cs ps" and "ps ch = Some (r, pc)"
  shows "procs_match cs (ps(ch \<mapsto> (r, pc')))"
  unfolding procs_match_def
proof (intro allI)
  fix r' ch'
  show "cs r' = Some ch' \<longleftrightarrow> (\<exists>pc1. (ps(ch \<mapsto> (r, pc'))) ch' = Some (r', pc1))"
    using assms(2) procs_match_iff [OF assms(1), of r' ch'] by auto
qed

lemma procs_match_remove:
  assumes "procs_match cs ps" and "ps ch = Some (r, pc)"
  shows "procs_match (cs(r := None)) (ps(ch := None))"
  unfolding procs_match_def
proof (intro allI)
  fix r' ch'
  note u = procs_match_unique [OF assms]
  consider "r' = r" | "r' \<noteq> r" "ch' = ch" | "r' \<noteq> r" "ch' \<noteq> ch" by blast
  then show "(cs(r := None)) r' = Some ch' \<longleftrightarrow> (\<exists>pc. (ps(ch := None)) ch' = Some (r', pc))"
  proof cases
    case 1
    then show ?thesis using u(2) by auto
  next
    case 2
    then show ?thesis using u(3) by auto
  next
    case 3
    then show ?thesis using procs_match_iff [OF assms(1), of r' ch'] by simp
  qed
qed

lemma sw_inv_route:
  assumes "sw_inv s" shows "sw_inv (route_lookup token s)"
proof -
  have m: "procs_match (sw_channels s) (sw_procs s)" and b: "procs_below (sw_procs s) (sw_next s)"
    using assms by (simp_all add: sw_inv_def)
  note below = procs_match_below [OF m b]
  show ?thesis
  proof (cases "sw_channels s (sk_RequestID token)")
    case None
    have "sw_procs s (sw_next s) = None" using b by (simp add: procs_below_def)
    from procs_match_add [OF m None this]
    have "procs_match (sw_channels (route_lookup token s)) (sw_procs (route_lookup token s))"
      using None by (simp add: route_lookup_def Let_def)
    moreover have "bufs_own ((sw_channels s)(sk_RequestID token \<mapsto> sw_next s)) ((sw_bufs s)(sw_next s := []))"
      using assms by (simp add: sw_inv_def bufs_own_def)
    moreover have "router_own ((sw_channels s)(sk_RequestID token \<mapsto> sw_next s)) (Sending (sw_next s) token)"
      using below by (auto simp: router_own_def)
    ultimately show ?thesis
      using assms None
      by (simp add: sw_inv_def route_lookup_def Let_def)
        (simp add: procs_below_def router_below_def bufs_small_def)
  next
    case (Some ch)
    have "r = sk_RequestID token" if "sw_channels s r = Some ch" for r
      using that Some procs_match_iff [OF m, of _ ch] by auto
    then have "router_own (sw_channels s) (Sending ch token)"
      by (auto simp: router_own_def)
    with assms Some below [OF Some] show ?thesis
      by (simp add: sw_inv_def route_lookup_def router_below_def)
  qed
qed

lemma sw_inv_sent:
  assumes "sw_inv s" and "sw_router s = Sending ch token" and "length (sw_bufs s ch) < channel_capacity"
  shows "sw_inv (s\<lparr>sw_bufs := (sw_bufs s)(ch := sw_bufs s ch @ [token]), sw_router := Reading\<rparr>)"
proof -
  have "bufs_own (sw_channels s) ((sw_bufs s)(ch := sw_bufs s ch @ [token]))"
    using assms(1,2) by (auto simp: sw_inv_def bufs_own_def router_own_def)
  with assms show ?thesis
    by (simp add: sw_inv_def router_below_def router_own_def) (simp add: bufs_small_def)
qed

lemma sw_inv_executed:
  assumes "sw_inv s" and "sw_procs s ch = Some (r, pc)" and "sw_bufs s ch = token # rest"
  shows "sw_inv (s\<lparr>sw_bufs := (sw_bufs s)(ch := rest), sw_useCase := x, sw_calls := c,
           sw_procs := (sw_procs s)(ch \<mapsto> (r, pc'))\<rparr>)"
proof -
  have "bufs_own (sw_channels s) ((sw_bufs s)(ch := rest))"
    using assms(1,3) by (fastforce simp: sw_inv_def bufs_own_def)
  moreover have "bufs_small ((sw_bufs s)(ch := rest))"
    using assms(1) arg_cong [OF assms(3), of length] unfolding sw_inv_def bufs_small_def
    by (metis Suc_leD fun_upd_apply length_Cons)
  moreover have "procs_below ((sw_procs s)(ch \<mapsto> (r, pc'))) (sw_next s)"
    using assms(1,2) by (auto simp: sw_inv_def procs_below_def)
  ultimately show ?thesis
    using assms(1,2) procs_match_set [of "sw_channels s" "sw_procs s" ch r pc pc'] by (simp add: sw_inv_def)
qed

lemma sw_inv_proc:
  assumes "sw_inv s" and "sw_procs s ch = Some (r, pc)"
  shows "sw_inv (s\<lparr>sw_procs := (sw_procs s)(ch \<mapsto> (r, pc'))\<rparr>)"
proof -
  have "procs_below ((sw_procs s)(ch \<mapsto> (r, pc'))) (sw_next s)"
    using assms by (auto simp: sw_inv_def procs_below_def)
  then show ?thesis
    using assms procs_match_set [of "sw_channels s" "sw_procs s" ch r pc pc'] by (simp add: sw_inv_def)
qed

lemma sw_inv_left:
  assumes "sw_inv s" and "sw_procs s ch = Some (r, pc)"
  shows "sw_inv (s\<lparr>sw_channels := (sw_channels s)(r := None), sw_procs := (sw_procs s)(ch := None)\<rparr>)"
  using assms procs_match_remove [of "sw_channels s" "sw_procs s" ch r pc]
  by (simp add: sw_inv_def) (auto simp: procs_below_def bufs_own_def router_own_def)

lemma sw_inv_router:
  assumes "sw_inv s" and "\<And>ch t. pc \<noteq> Sending ch t"
  shows "sw_inv (s\<lparr>sw_router := pc\<rparr>)"
  using assms by (simp add: sw_inv_def router_below_def router_own_def)

lemma sw_inv_done [simp]: "sw_inv (s\<lparr>sw_done := b\<rparr>) \<longleftrightarrow> sw_inv s"
  by (simp add: sw_inv_def)

lemma sw_step_inv: "sw_step exec ev s s' \<Longrightarrow> sw_inv s \<Longrightarrow> sw_inv s'"
  by (erule sw_stepE)
    (simp_all add: sw_inv_route sw_inv_sent sw_inv_executed sw_inv_proc sw_inv_left sw_inv_router
      split: option.split)

lemma sw_steps_inv: "sw_steps exec evs s s' \<Longrightarrow> sw_inv s \<Longrightarrow> sw_inv s'"
  by (induction rule: sw_steps.induct) (auto dest: sw_step_inv)

section \<open>What becomes of the tokens of a request\<close>

text \<open>The tokens a schedule fetches, malformed messages skipped.\<close>

fun fetched_of :: "sw_event \<Rightarrow> streamToken list" where
  "fetched_of (MsgFetched m) = (case unmarshal_streamToken m of None \<Rightarrow> [] | Some t \<Rightarrow> [t])"
| "fetched_of _ = []"

definition fetched :: "sw_event list \<Rightarrow> streamToken list" where
  "fetched evs = concat (map fetched_of evs)"

lemma fetched_simps [simp]: "fetched [] = []" "fetched (evs @ [ev]) = fetched evs @ fetched_of ev"
  by (simp_all add: fetched_def)

abbreviation for_req :: "string \<Rightarrow> streamToken list \<Rightarrow> streamToken list" where
  "for_req r ts \<equiv> filter (\<lambda>t. sk_RequestID t = r) ts"

text \<open>The tokens of a request in its channel and in the router's hands.\<close>

definition queued :: "'x StreamingWorker \<Rightarrow> string \<Rightarrow> streamToken list" where
  "queued s r = (case sw_channels s r of None \<Rightarrow> [] | Some ch \<Rightarrow> sw_bufs s ch)"

fun in_router :: "router_pc \<Rightarrow> streamToken list" where
  "in_router (Routing t) = [t]"
| "in_router (Sending ch t) = [t]"
| "in_router _ = []"

text \<open>
  While no goroutine of the request has left because of a timeout or the context: the tokens of the
  request are executed, queued, or with the router, in order; a goroutine leaves only after the done
  token, with which the request ends; and the router sends a request's token into its channel.
\<close>

definition on_track :: "'x StreamingWorker \<Rightarrow> string \<Rightarrow> streamToken list \<Rightarrow> bool" where
  "on_track s r ts \<longleftrightarrow> \<not> sw_done s \<and>
     for_req r (sw_calls s) @ queued s r @ for_req r (in_router (sw_router s)) = for_req r ts \<and>
     (\<forall>ch. sw_procs s ch = Some (r, Leaving) \<longrightarrow>
        for_req r (sw_calls s) \<noteq> [] \<and> sk_Done (last (for_req r (sw_calls s)))) \<and>
     (\<forall>ch t. sw_router s = Sending ch t \<longrightarrow> sk_RequestID t = r \<longrightarrow> sw_channels s r = Some ch)"

text \<open>The done token, if it comes, is the request's last.\<close>

definition done_last :: "streamToken list \<Rightarrow> bool" where
  "done_last ts \<longleftrightarrow> (\<forall>t \<in> set (butlast ts). \<not> sk_Done t)"

lemma done_last_prefix: "done_last (xs @ ys) \<Longrightarrow> ys \<noteq> [] \<Longrightarrow> xs \<noteq> [] \<Longrightarrow> \<not> sk_Done (last xs)"
  by (auto simp: done_last_def butlast_append)

lemma queued_router [simp]: "queued (s\<lparr>sw_router := pc\<rparr>) r = queued s r"
  by (simp add: queued_def split: option.split)

lemma done_last_append: "done_last (xs @ ys) \<Longrightarrow> done_last xs"
  by (cases "ys = []") (auto simp: done_last_def butlast_append dest: in_set_butlastD)

text \<open>Once the done token was executed, nothing of the request is left.\<close>

lemma on_track_finished:
  assumes "on_track s r ts" and "done_last (for_req r ts)"
    and "for_req r (sw_calls s) \<noteq> []" and "sk_Done (last (for_req r (sw_calls s)))"
  shows "queued s r = [] \<and> for_req r (in_router (sw_router s)) = []"
proof (rule ccontr)
  assume "\<not> ?thesis"
  then have "queued s r @ for_req r (in_router (sw_router s)) \<noteq> []" by auto
  with assms done_last_prefix [of "for_req r (sw_calls s)" "queued s r @ for_req r (in_router (sw_router s))"]
  show False by (simp add: on_track_def)
qed

lemma on_track_step:
  assumes inv: "sw_inv s" and tr: "on_track s r ts" and st: "sw_step exec ev s s'"
    and ev: "ev \<noteq> CtxCancelled" "\<And>ch. ev \<noteq> TimedOut ch" and dl: "done_last (for_req r (ts @ fetched_of ev))"
  shows "on_track s' r (ts @ fetched_of ev)"
proof -
  have dl0: "done_last (for_req r ts)"
    using dl done_last_append by simp
  have m: "procs_match (sw_channels s) (sw_procs s)" and own: "bufs_own (sw_channels s) (sw_bufs s)"
    and rown: "router_own (sw_channels s) (sw_router s)" and b: "procs_below (sw_procs s) (sw_next s)"
    using inv by (simp_all add: sw_inv_def)
  note unique = procs_match_unique [OF m]
  note fin = on_track_finished [OF tr dl0]
  have nd: "\<not> sw_done s" and
    eq: "for_req r (sw_calls s) @ queued s r @ for_req r (in_router (sw_router s)) = for_req r ts" and
    lv: "\<And>ch. sw_procs s ch = Some (r, Leaving) \<Longrightarrow>
       for_req r (sw_calls s) \<noteq> [] \<and> sk_Done (last (for_req r (sw_calls s)))" and
    snd: "\<And>ch t. sw_router s = Sending ch t \<Longrightarrow> sk_RequestID t = r \<Longrightarrow> sw_channels s r = Some ch"
    using tr unfolding on_track_def by blast+
  show ?thesis
    using st
  proof (cases rule: sw_step.cases)
    case (fetched m')
    then show ?thesis
      using nd eq lv by (cases "unmarshal_streamToken m'") (auto simp: on_track_def)
  next
    case fetch_failed
    then show ?thesis using tr nd by simp
  next
    case (locked token)
    show ?thesis
    proof (cases "sw_channels s (sk_RequestID token)")
      case None
      have new: "sw_procs s (sw_next s) = None" using b by (simp add: procs_below_def)
      have "sw_channels s r \<noteq> Some (sw_next s)"
        using procs_match_below [OF m b, of r "sw_next s"] by auto
      then have q: "queued s' r = queued s r"
        using None locked by (auto simp: queued_def route_lookup_def Let_def split: option.split)
      have lv2: "for_req r (sw_calls s) \<noteq> [] \<and> sk_Done (last (for_req r (sw_calls s)))"
        if "sw_procs s' ch = Some (r, Leaving)" for ch
        using that lv [of ch] None locked by (auto simp: route_lookup_def Let_def split: if_splits)
      show ?thesis
        unfolding on_track_def q
        using nd eq lv2 None locked by (auto simp: route_lookup_def Let_def)
    next
      case (Some ch)
      then show ?thesis
        using nd eq lv locked by (auto simp: on_track_def route_lookup_def)
    qed
  next
    case (sent ch token)
    have q: "queued s' r = queued s r @ for_req r [token]"
    proof (cases "sk_RequestID token = r")
      case True
      with snd sent show ?thesis by (simp add: queued_def)
    next
      case False
      with rown sent have "sw_channels s r \<noteq> Some ch" by (auto simp: router_own_def)
      with False sent show ?thesis by (auto simp: queued_def split: option.split)
    qed
    show ?thesis
      unfolding on_track_def q using nd eq lv sent by auto
  next
    case (gave_up ch token)
    then show ?thesis using nd by simp
  next
    case (executed ch r' token rest)
    have ch: "sw_channels s r' = Some ch" and tok: "sk_RequestID token = r'"
      using unique(1) [OF executed(3)] own executed(4) by (auto simp: bufs_own_def)
    show ?thesis
    proof (cases "r' = r")
      case True
      have q: "queued s r = token # queued s' r"
        using executed ch True by (simp add: queued_def)
      have one: "sw_procs s ch' = Some (r, pc) \<Longrightarrow> ch' = ch" for ch' pc
        using unique(2) [OF executed(3)] True by blast
      have "for_req r (sw_calls s') = for_req r (sw_calls s) @ [token]"
        using executed tok True by simp
      moreover have "sk_Done token" if "sw_procs s' ch' = Some (r, Leaving)" for ch'
        using that one [of ch'] executed by (cases "ch' = ch") (auto split: if_splits)
      moreover have "sw_router s' = sw_router s" "sw_channels s' = sw_channels s" "\<not> sw_done s'"
          "fetched_of ev = []"
        using executed nd by simp_all
      ultimately show ?thesis
        using eq snd unfolding on_track_def by (simp only: q append_assoc) simp
    next
      case False
      with ch unique(3) [OF executed(3)] have "sw_channels s r \<noteq> Some ch" by blast
      then have q: "queued s' r = queued s r"
        using executed by (auto simp: queued_def split: option.split)
      show ?thesis
        using nd eq lv snd executed tok False unfolding on_track_def q by (auto split: if_splits)
    qed
  next
    case (timed_out ch r')
    then show ?thesis using ev by simp
  next
    case (ctx_seen ch r')
    then show ?thesis using nd by simp
  next
    case (left ch r')
    show ?thesis
    proof (cases "r' = r")
      case True
      have f: "queued s r = [] \<and> for_req r (in_router (sw_router s)) = []"
        using fin lv left(3) True by blast
      have "queued s' r = []" using left True by (simp add: queued_def)
      moreover have "sk_RequestID t \<noteq> r" if "sw_router s = Sending ch' t" for ch' t
        using f that by (auto split: if_splits)
      ultimately show ?thesis
        using nd eq lv f left True unfolding on_track_def by (auto split: if_splits)
    next
      case False
      then have q: "queued s' r = queued s r" using left by (simp add: queued_def split: option.split)
      show ?thesis
        using nd eq lv snd left False unfolding on_track_def q by (auto split: if_splits)
    qed
  next
    case cancelled
    then show ?thesis using ev by simp
  qed
qed

lemma fetched_append_single: "for_req r (fetched (evs @ [ev])) = for_req r (fetched evs @ fetched_of ev)"
  by simp

lemma steps_on_track:
  assumes "sw_steps exec evs (sw_New x) s" and "CtxCancelled \<notin> set evs" and "\<And>ch. TimedOut ch \<notin> set evs"
    and "done_last (for_req r (fetched evs))"
  shows "on_track s r (fetched evs)"
  using assms
proof (induction evs "sw_New x" s rule: sw_steps.induct)
  case (more_steps evs s' ev s'')
  have "done_last (for_req r (fetched evs))"
    using more_steps.prems(3) done_last_append by (simp add: fetched_def)
  then have "on_track s' r (fetched evs)"
    using more_steps by auto
  moreover have "sw_inv s'"
    using sw_steps_inv [OF more_steps.hyps(1)] by simp
  ultimately have "on_track s'' r (fetched evs @ fetched_of ev)"
    using more_steps.prems by (intro on_track_step [OF _ _ more_steps.hyps(3)]) auto
  then show ?case by simp
qed (simp add: on_track_def sw_New_def queued_def)

text \<open>The use case has been called once for each executed token, in that order.\<close>

lemma steps_useCase:
  "sw_steps exec evs s s' \<Longrightarrow> sw_useCase s = fold (\<lambda>t x. exec x (event_of t)) (sw_calls s) x0 \<Longrightarrow>
     sw_useCase s' = fold (\<lambda>t x. exec x (event_of t)) (sw_calls s') x0"
proof (induction rule: sw_steps.induct)
  case (more_steps evs s s' ev s'')
  then have "sw_useCase s' = fold (\<lambda>t x. exec x (event_of t)) (sw_calls s') x0" by blast
  with more_steps.hyps(2) show ?case
    by (cases rule: sw_step.cases) (auto simp: route_lookup_def Let_def split: option.splits)
qed simp

section \<open>A channel nobody reads\<close>

text \<open>
  The router got a channel from the map, and before it sent, the channel's goroutine left: nothing
  will ever read from it.
\<close>

definition orphaned :: "chan_ref \<Rightarrow> 'x StreamingWorker \<Rightarrow> bool" where
  "orphaned ch s \<longleftrightarrow> ch < sw_next s \<and> sw_procs s ch = None"

lemma orphaned_step:
  assumes "sw_step exec ev s s'" and "orphaned ch s"
  shows "orphaned ch s'"
  using assms
  by (cases rule: sw_step.cases)
    (auto simp: orphaned_def route_lookup_def Let_def split: option.splits)

text \<open>With a full orphaned channel the router blocks until the context ends.\<close>

lemma stuck_step:
  assumes "sw_step exec ev s s'" and "sw_router s = Sending ch t" and "orphaned ch s"
    and "length (sw_bufs s ch) = channel_capacity" and "\<not> sw_done s" and "ev \<noteq> CtxCancelled"
  shows "sw_router s' = Sending ch t \<and> orphaned ch s' \<and> sw_bufs s' ch = sw_bufs s ch \<and> \<not> sw_done s' \<and>
    fetched_of ev = []"
  using assms
  by (cases rule: sw_step.cases) (auto simp: orphaned_def)

lemma stuck_steps:
  "sw_steps exec evs s s' \<Longrightarrow> sw_router s = Sending ch t \<Longrightarrow> orphaned ch s \<Longrightarrow>
    length (sw_bufs s ch) = channel_capacity \<Longrightarrow> \<not> sw_done s \<Longrightarrow> CtxCancelled \<notin> set evs \<Longrightarrow>
    sw_router s' = Sending ch t \<and> orphaned ch s' \<and> sw_bufs s' ch = sw_bufs s ch \<and> \<not> sw_done s' \<and>
    fetched evs = []"
proof (induction rule: sw_steps.induct)
  case (more_steps evs s s' ev s'')
  then have "sw_router s' = Sending ch t \<and> orphaned ch s' \<and> sw_bufs s' ch = sw_bufs s ch \<and> \<not> sw_done s' \<and>
      fetched evs = []"
    by simp
  with stuck_step [OF more_steps.hyps(2), of ch t] more_steps.prems show ?case by auto
qed simp

text \<open>A run that fills a channel: \<open>n\<close> tokens of a request fetched, routed and sent.\<close>

definition stream_token_of :: "TokenEvent \<Rightarrow> streamToken" where
  "stream_token_of t =
     \<lparr>sk_RequestID = to_valid_utf8 (te_RequestID t), sk_Delta = to_valid_utf8 (te_Delta t), sk_Done = te_Done t\<rparr>"

text \<open>The consumer reads the producer's event with the fields it knows.\<close>

lemma stream_token_read_back [simp]:
  "unmarshal_streamToken (marshal_TokenEvent t) = Some (stream_token_of t)"
  by (simp add: unmarshal_streamToken_def marshal_TokenEvent_def Unmarshal_print wire_json
      find_field_def zero_streamToken_def stream_token_of_def fold_key_ascii ascii_def byte_def upper_def
      chr_def
      del: print_json.simps)

definition routed :: "streamToken \<Rightarrow> nat \<Rightarrow> 'x \<Rightarrow> 'x StreamingWorker" where
  "routed t n x =
     \<lparr>sw_useCase = x, sw_channels = [sk_RequestID t \<mapsto> 0], sw_bufs = (\<lambda>_. [])(0 := replicate n t),
      sw_next = 1, sw_procs = [0 \<mapsto> (sk_RequestID t, Selecting)], sw_router = Reading,
      sw_done = False, sw_calls = []\<rparr>"

definition send_events :: "TokenEvent \<Rightarrow> sw_event list" where
  "send_events e = [MsgFetched (marshal_TokenEvent e), RouteLocked, Sent]"

lemma fetch_route:
  assumes "sw_router s = Reading" and "t = stream_token_of e"
  shows "sw_steps exec [MsgFetched (marshal_TokenEvent e), RouteLocked] s
    (route_lookup t (s\<lparr>sw_router := Routing t\<rparr>))"
proof -
  have "sw_step exec (MsgFetched (marshal_TokenEvent e)) s (s\<lparr>sw_router := Routing t\<rparr>)"
    using fetched [OF assms(1), of exec "marshal_TokenEvent e"] assms(2) by simp
  from more_steps [OF steps_single [OF this] locked, of t] show ?thesis by simp
qed

lemma concat_replicate_snoc: "concat (replicate n xs) @ xs = concat (replicate (Suc n) xs)"
  by (induction n) simp_all

lemma fill_channel:
  assumes "t = stream_token_of e" and "n < channel_capacity"
  shows "sw_steps exec (concat (replicate (Suc n) (send_events e))) (sw_New x) (routed t (Suc n) x)"
  using assms(2)
proof (induction n)
  case 0
  have "sw_steps exec [MsgFetched (marshal_TokenEvent e), RouteLocked] (sw_New x)
      (route_lookup t ((sw_New x)\<lparr>sw_router := Routing t\<rparr>))"
    by (rule fetch_route [OF _ assms(1)]) (simp add: sw_New_def)
  from more_steps [OF this, of Sent "routed t 1 x"] sent [of "route_lookup t ((sw_New x)\<lparr>sw_router := Routing t\<rparr>)" 0 t exec]
  show ?case
    by (simp add: send_events_def routed_def sw_New_def route_lookup_def Let_def channel_capacity_def)
next
  case (Suc n)
  have "sw_steps exec [MsgFetched (marshal_TokenEvent e), RouteLocked] (routed t (Suc n) x)
      (route_lookup t ((routed t (Suc n) x)\<lparr>sw_router := Routing t\<rparr>))"
    by (rule fetch_route [OF _ assms(1)]) (simp add: routed_def)
  moreover have "sw_step exec Sent (route_lookup t ((routed t (Suc n) x)\<lparr>sw_router := Routing t\<rparr>))
      (routed t (Suc (Suc n)) x)"
  proof -
    have "replicate (Suc n) t @ [t] = replicate (Suc (Suc n)) t"
      by (simp add: replicate_append_same)
    then show ?thesis
      using sent [of "route_lookup t ((routed t (Suc n) x)\<lparr>sw_router := Routing t\<rparr>)" 0 t exec] Suc.prems
      by (simp add: routed_def route_lookup_def del: replicate_Suc)
  qed
  ultimately have last: "sw_steps exec (send_events e) (routed t (Suc n) x) (routed t (Suc (Suc n)) x)"
    using more_steps by (fastforce simp: send_events_def)
  from steps_trans [OF last Suc.IH] Suc.prems show ?case
    by (simp only: concat_replicate_snoc Suc_lessD)
qed

section \<open>Properties\<close>

text \<open>
  (C11) The streaming worker hands every token to the use case exactly once and in order: under every
  schedule of the router and the requests' goroutines, before shutdown and without timeouts, the
  tokens of a request passed to \<open>Execute\<close>, followed by those in its channel and in the router's
  hands, are the tokens fetched for it, if its done token comes last.
\<close>

theorem streaming_exactly_once:
  assumes "sw_steps exec evs (sw_New x) s" and "CtxCancelled \<notin> set evs" and "\<And>ch. TimedOut ch \<notin> set evs"
    and "done_last (for_req r (fetched evs))"
  shows "for_req r (sw_calls s) @ queued s r @ for_req r (in_router (sw_router s)) = for_req r (fetched evs)"
  using steps_on_track [OF assms] by (simp add: on_track_def)

theorem streaming_exactly_once_witness:
  "\<exists>s. sw_steps (\<lambda>x t. x) (send_events (demo_te ''r1'' ''a'' True) @ [Executed 0]) (sw_New ()) s \<and>
     sw_calls s = [stream_token_of (demo_te ''r1'' ''a'' True)]"
proof -
  let ?e = "demo_te ''r1'' ''a'' True" and ?t = "stream_token_of (demo_te ''r1'' ''a'' True)"
  have r: "sk_RequestID ?t = ''r1''"
    by (simp add: stream_token_of_def demo_te_def to_valid_utf8_ascii ascii_def byte_def)
  have 1: "sw_steps (\<lambda>x t. x) (send_events ?e) (sw_New ()) (routed ?t 1 ())"
    using fill_channel [OF refl, of 0 "\<lambda>x t. x" ?e "()"] by (simp add: channel_capacity_def)
  obtain s where 2: "sw_step (\<lambda>x t. x) (Executed 0) (routed ?t 1 ()) s" and q: "queued s ''r1'' = []"
    and p: "sw_router s = Reading" and c: "sw_calls s = for_req ''r1'' (sw_calls s)"
    using executed [of "routed ?t 1 ()" 0 "''r1''" ?t "[]" "\<lambda>x t. x"] r
    by (auto simp: routed_def queued_def)
  have run: "sw_steps (\<lambda>x t. x) (send_events ?e @ [Executed 0]) (sw_New ()) s"
    by (rule more_steps [OF 1 2])
  have f: "fetched (send_events ?e @ [Executed 0]) = [?t]"
    by (simp add: fetched_def send_events_def)
  have "for_req ''r1'' (sw_calls s) @ queued s ''r1'' @ for_req ''r1'' (in_router (sw_router s)) =
      for_req ''r1'' (fetched (send_events ?e @ [Executed 0]))"
  proof (rule streaming_exactly_once [OF run])
    show "CtxCancelled \<notin> set (send_events ?e @ [Executed 0])" by (simp add: send_events_def)
    show "TimedOut ch \<notin> set (send_events ?e @ [Executed 0])" for ch by (simp add: send_events_def)
    show "done_last (for_req ''r1'' (fetched (send_events ?e @ [Executed 0])))"
      by (simp only: f) (simp add: done_last_def r)
  qed
  with run f q p c r show ?thesis by auto
qed

text \<open>
  (C27) Under every schedule, shutdown and timeouts included: a request has at most one goroutine,
  which reads the channel registered for it and no other request's; no channel holds more than 32
  tokens, and a registered channel holds only its request's tokens.
\<close>

theorem streaming_structure:
  assumes "sw_steps exec evs (sw_New x) s"
  shows "(\<forall>r ch ch' pc pc'. sw_procs s ch = Some (r, pc) \<longrightarrow> sw_procs s ch' = Some (r, pc') \<longrightarrow> ch = ch') \<and>
         (\<forall>r ch. sw_channels s r = Some ch \<longleftrightarrow> (\<exists>pc. sw_procs s ch = Some (r, pc))) \<and>
         (\<forall>ch. length (sw_bufs s ch) \<le> 32) \<and>
         (\<forall>r ch. sw_channels s r = Some ch \<longrightarrow> for_req r (sw_bufs s ch) = sw_bufs s ch)"
proof -
  have inv: "sw_inv s"
    using sw_steps_inv [OF assms] by simp
  then have m: "procs_match (sw_channels s) (sw_procs s)" by (simp add: sw_inv_def)
  have "ch = ch'" if "sw_procs s ch = Some (r, pc)" "sw_procs s ch' = Some (r, pc')" for r ch ch' pc pc'
    using procs_match_unique(2) [OF m that(2,1)] .
  moreover have "for_req r (sw_bufs s ch) = sw_bufs s ch" if "sw_channels s r = Some ch" for r ch
    using inv that by (intro filter_True) (auto simp: sw_inv_def bufs_own_def)
  ultimately show ?thesis
    using inv procs_match_iff [OF m] by (auto simp: sw_inv_def bufs_small_def channel_capacity_def)
qed

theorem streaming_structure_witness:
  "\<exists>s. sw_steps (\<lambda>x t. x) (send_events (demo_te ''r1'' ''a'' False)) (sw_New ()) s \<and>
     length (sw_bufs s 0) = 1 \<and> (\<forall>ch. length (sw_bufs s ch) \<le> 32)"
proof -
  let ?t = "stream_token_of (demo_te ''r1'' ''a'' False)"
  have 1: "sw_steps (\<lambda>x t. x) (send_events (demo_te ''r1'' ''a'' False)) (sw_New ()) (routed ?t 1 ())"
    using fill_channel [OF refl, of 0 "\<lambda>x t. x" "demo_te ''r1'' ''a'' False" "()"] by (simp add: channel_capacity_def)
  moreover have "length (sw_bufs (routed ?t 1 ()) 0) = 1" by (simp add: routed_def)
  ultimately show ?thesis using streaming_structure [OF 1] by blast
qed

text \<open>
  (C39) One slow request can stop the worker for all: the router looks a channel up under the lock and
  sends into it afterwards.  If the channel is full and its goroutine takes the timeout and leaves in
  between, then under every schedule, until the context is cancelled, the router stays in that send
  and fetches nothing for any request; the witness runs the worker into such a state.
\<close>

theorem router_can_block_forever:
  assumes "sw_steps exec evs s s'" and "CtxCancelled \<notin> set evs"
    and "sw_router s = Sending ch t" and "sw_procs s ch = None" and "ch < sw_next s"
    and "length (sw_bufs s ch) = 32" and "\<not> sw_done s"
  shows "sw_router s' = Sending ch t \<and> sw_bufs s' ch = sw_bufs s ch \<and> fetched evs = []"
  using stuck_steps [OF assms(1,3)] assms by (simp add: orphaned_def channel_capacity_def)

theorem router_can_block_forever_witness:
  "\<exists>evs s t. sw_steps (\<lambda>x t. x) evs (sw_New ()) s \<and> CtxCancelled \<notin> set evs \<and> sw_router s = Sending 0 t \<and>
     (\<forall>evs' s'. sw_steps (\<lambda>x t. x) evs' s s' \<longrightarrow> CtxCancelled \<notin> set evs' \<longrightarrow>
        sw_router s' = Sending 0 t \<and> fetched evs' = [])"
proof -
  let ?x = "\<lambda>(x :: unit) (t :: TokenEvent). x" and ?e = "demo_te ''r1'' ''a'' False"
  define t where "t = stream_token_of ?e"
  define s where "s = (routed t 32 ())\<lparr>sw_channels := Map.empty, sw_procs := Map.empty, sw_router := Sending 0 t\<rparr>"
  have fill: "sw_steps ?x (concat (replicate 32 (send_events ?e))) (sw_New ()) (routed t 32 ())"
    using fill_channel [OF t_def, of 31 ?x "()"] by (simp add: channel_capacity_def)
  have "sw_steps ?x [MsgFetched (marshal_TokenEvent ?e), RouteLocked] (routed t 32 ())
      ((routed t 32 ())\<lparr>sw_router := Sending 0 t\<rparr>)"
    using fetch_route [of "routed t 32 ()" t ?e ?x] t_def by (simp add: routed_def route_lookup_def)
  from more_steps [OF more_steps [OF this timed_out [of _ 0 "sk_RequestID t"]] left [of _ 0 "sk_RequestID t"]]
  have "sw_steps ?x [MsgFetched (marshal_TokenEvent ?e), RouteLocked, TimedOut 0, Left 0] (routed t 32 ()) s"
    by (simp add: routed_def s_def)
  from steps_trans [OF this fill]
  have run: "sw_steps ?x (concat (replicate 32 (send_events ?e)) @
      [MsgFetched (marshal_TokenEvent ?e), RouteLocked, TimedOut 0, Left 0]) (sw_New ()) s" .
  have "CtxCancelled \<notin> set (concat (replicate 32 (send_events ?e)) @
      [MsgFetched (marshal_TokenEvent ?e), RouteLocked, TimedOut 0, Left 0])"
    by (simp add: send_events_def)
  moreover have "sw_router s = Sending 0 t" by (simp add: s_def)
  moreover have "sw_router s' = Sending 0 t \<and> fetched evs' = []"
    if "sw_steps ?x evs' s s'" "CtxCancelled \<notin> set evs'" for evs' s'
    using router_can_block_forever [OF that, of 0 t] by (simp add: s_def routed_def)
  ultimately show ?thesis using run by blast
qed

end
