(* ===== verification/Pipeline.thy ===== *)
theory Pipeline
  imports Decoded ChatWorker PersistenceWorker StreamingWorker TokenServer ChatStream
begin

text \<open>
  What lies between the programs: Kafka's topics and gRPC's streams, and the lemmas that carry a
  request's events from the worker that generates them to the database and to the handler that
  streams them.

  \<open>partitioned\<close>: a consumer group that has read a whole topic once.  Kafka keeps the order of
  the messages of one key (one partition) and nothing else.
\<close>

section \<open>A topic read by a consumer\<close>

definition partitioned :: "kafka_message list \<Rightarrow> kafka_message list \<Rightarrow> bool" where
  "partitioned ms q \<longleftrightarrow> (\<forall>key. filter (\<lambda>m. km_Key m = key) ms = filter (\<lambda>m. km_Key m = key) q)"

lemma partitioned_refl [simp]: "partitioned q q"
  by (simp add: partitioned_def)

lemma partitioned_set: "partitioned ms q \<Longrightarrow> set ms = set q"
proof -
  assume p: "partitioned ms q"
  have "m \<in> set (filter (\<lambda>x. km_Key x = km_Key m) ms) \<longleftrightarrow> m \<in> set (filter (\<lambda>x. km_Key x = km_Key m) q)" for m
    using p by (simp add: partitioned_def)
  then show ?thesis by auto
qed

text \<open>Events whose texts are valid UTF-8 are what their messages decode to.\<close>

abbreviation utf8_events :: "TokenEvent list \<Rightarrow> bool" where
  "utf8_events evs \<equiv> \<forall>t \<in> set evs. utf8_TokenEvent t = t"

definition session_events :: "string \<Rightarrow> TokenEvent list \<Rightarrow> TokenEvent list" where
  "session_events sid evs = filter (\<lambda>t. te_SessionID t = sid) evs"

definition event_in :: "kafka_message \<Rightarrow> TokenEvent" where
  "event_in m = the (unmarshal_TokenEvent (km_Value m))"

lemma queue_events:
  "map keyed_value q = map token_value evs \<Longrightarrow> utf8_events evs \<Longrightarrow>
     evs = map event_in q \<and>
     (\<forall>m \<in> set q. km_Value m = marshal_TokenEvent (event_in m) \<and> te_SessionID (event_in m) = km_Key m)"
proof (induction q arbitrary: evs)
  case (Cons m q)
  then obtain t ts where evs: "evs = t # ts" and m: "keyed_value m = token_value t" and ts: "map keyed_value q = map token_value ts"
    by auto
  then have "event_in m = t"
    using Cons.prems(2) by (simp add: event_in_def keyed_value_def token_value_def)
  with Cons.IH [OF ts] Cons.prems(2) evs m show ?case
    by (simp add: keyed_value_def token_value_def)
qed simp

lemma partitioned_events:
  assumes "partitioned ms q" and "map keyed_value q = map token_value evs" and "utf8_events evs"
  obtains ts where "map km_Value ms = map marshal_TokenEvent ts" and "utf8_events ts"
    and "\<And>sid. session_events sid ts = session_events sid evs"
proof
  note q = queue_events [OF assms(2,3)]
  note set = partitioned_set [OF assms(1)]
  have ms: "km_Value m = marshal_TokenEvent (event_in m)" "te_SessionID (event_in m) = km_Key m"
    if "m \<in> set ms" for m
    using q set that by simp_all
  show "map km_Value ms = map marshal_TokenEvent (map event_in ms)"
    using ms(1) by simp
  show "utf8_events (map event_in ms)"
    using q set assms(3) by auto
  show "session_events sid (map event_in ms) = session_events sid evs" for sid
  proof -
    have "session_events sid (map event_in xs) = map event_in (filter (\<lambda>m. km_Key m = sid) xs)"
      if "\<And>m. m \<in> set xs \<Longrightarrow> te_SessionID (event_in m) = km_Key m" for xs
      using that by (simp add: session_events_def filter_map comp_def cong: filter_cong)
    from this [of ms] this [of q] ms(2) q assms(1) show ?thesis
      by (simp add: partitioned_def)
  qed
qed

text \<open>What the consumer gets of a request whose events all carry one session.\<close>

lemma request_events:
  assumes "\<And>sid. session_events sid ts = session_events sid evs"
    and "\<And>t. t \<in> set evs \<Longrightarrow> te_RequestID t = r \<Longrightarrow> te_SessionID t = sid"
  shows "events_for r ts = events_for r evs"
proof -
  have in_ts: "te_SessionID t = sid" if "t \<in> set ts" "te_RequestID t = r" for t
  proof -
    have "t \<in> set (session_events (te_SessionID t) ts)" using that by (simp add: session_events_def)
    then have "t \<in> set (session_events (te_SessionID t) evs)" by (simp only: assms(1))
    with assms(2) that(2) show ?thesis by (simp add: session_events_def)
  qed
  have "events_for r (session_events sid xs) = events_for r xs"
    if "\<And>t. t \<in> set xs \<Longrightarrow> te_RequestID t = r \<Longrightarrow> te_SessionID t = sid" for xs
    unfolding session_events_def filter_filter using that by (intro filter_cong) auto
  from this [of ts] this [of evs] in_ts assms show ?thesis by metis
qed

section \<open>The reply of the worker\<close>

lemma done_not_delta: "done_event req \<notin> set (reply_events req sent False)"
  by (auto simp: reply_events_def done_event_def delta_event_def)

lemma proc_done:
  assumes "proc_ok gen cancelled p" and "\<not> cancelled" and "done_event (wp_Req p) \<in> set (wp_Sent p)"
  shows "\<exists>tokens. gen (cr_Content (wp_Req p)) (Inr tokens) \<and> wp_Sent p = reply_events (wp_Req p) tokens True"
proof -
  have "\<exists>tokens lost sent d. gen (cr_Content (wp_Req p)) (Inr tokens) \<and> sent @ lost = tokens \<and>
      (d \<longrightarrow> lost = []) \<and> wp_Sent p = reply_events (wp_Req p) sent d"
    if "wp_PC p \<noteq> Generating" and "\<And>rest. wp_PC p \<noteq> Ranging rest"
    using that assms unfolding proc_ok_def by (cases "wp_PC p") auto
  moreover have "wp_PC p \<noteq> Generating"
    using assms(1,3) by (auto simp: proc_ok_def)
  moreover have "wp_PC p \<noteq> Ranging rest" for rest
    using assms(1,3) done_not_delta [of "wp_Req p"] by (auto simp: proc_ok_def)
  ultimately obtain tokens lost sent d where "gen (cr_Content (wp_Req p)) (Inr tokens)" "sent @ lost = tokens"
    "d \<longrightarrow> lost = []" "wp_Sent p = reply_events (wp_Req p) sent d"
    by blast
  with assms(3) done_not_delta [of "wp_Req p" sent] show ?thesis by (cases d) auto
qed

lemma worker_reply:
  assumes "wk_steps gen publish c wevs (wk_New k) s" and "WkCancelled \<notin> set wevs"
    and "distinct (map proc_id (wk_procs s))" and "p \<in> set (wk_procs s)" and "done_event (wp_Req p) \<in> set (wk_calls s)"
  obtains tokens where "gen (cr_Content (wp_Req p)) (Inr tokens)"
    and "events_for (proc_id p) (wk_calls s) = reply_events (wp_Req p) tokens True"
proof -
  have "calls_match (wk_procs s) (wk_calls s)"
    by (rule calls_match_steps [OF assms(1) _ assms(3)]) (simp add: wk_New_def calls_match_def)
  with assms(4) have calls: "events_for (proc_id p) (wk_calls s) = wp_Sent p"
    by (simp add: calls_match_def)
  have ok: "proc_ok gen (wk_done s) p"
    using procs_ok_steps [OF assms(1)] assms(4) by (simp add: procs_ok_def wk_New_def)
  have nd: "\<not> wk_done s"
    using wk_done_steps [OF assms(1,2)] by (simp add: wk_New_def)
  have "done_event (wp_Req p) \<in> set (wp_Sent p)"
    unfolding calls [symmetric] using assms(5) by (simp add: proc_id_def done_event_def)
  then obtain tokens where "gen (cr_Content (wp_Req p)) (Inr tokens)"
    and "wp_Sent p = reply_events (wp_Req p) tokens True"
    using proc_done [OF ok nd] by blast
  with that calls show ?thesis by simp
qed

lemma reply_events_session: "t \<in> set (reply_events req tokens d) \<Longrightarrow> te_SessionID t = cr_SessionID req"
  by (auto simp: reply_events_def delta_event_def done_event_def split: if_splits)

lemma reply_of_calls_session:
  assumes "events_for r calls = reply_events req tokens d" and "t \<in> set calls" and "te_RequestID t = r"
  shows "te_SessionID t = cr_SessionID req"
proof -
  have "t \<in> set (events_for r calls)" using assms(2,3) by simp
  with assms(1) show ?thesis by (simp only: reply_events_session)
qed

lemma deltas_events_for: "deltas r ts = concat (map te_Delta (events_for r ts))"
  by (simp add: deltas_def)

lemma deltas_reply: "concat (map te_Delta (reply_events req tokens True)) = concat tokens"
  by (simp add: reply_events_def delta_event_def done_event_def comp_def)

section \<open>The persistence worker's side\<close>

fun pw_payload :: "pw_event \<Rightarrow> string list" where
  "pw_payload (Fetched m) = [m]"
| "pw_payload _ = []"

definition pw_payloads :: "pw_event list \<Rightarrow> string list" where
  "pw_payloads evs = concat (map pw_payload evs)"

lemma fetched_tokens_payloads: "fetched_tokens evs = concat (map msg_tokens (pw_payloads evs))"
proof (induction evs)
  case (Cons ev evs)
  then show ?case by (cases ev) (simp_all add: pw_payloads_def)
qed (simp add: pw_payloads_def)

lemma msg_tokens_marshal [simp]: "msg_tokens (marshal_TokenEvent t) = [utf8_TokenEvent t]"
  by (simp add: msg_tokens_def)

lemma fetched_tokens_marshal:
  "pw_payloads evs = map marshal_TokenEvent ts \<Longrightarrow> utf8_events ts \<Longrightarrow> fetched_tokens evs = ts"
  by (simp add: fetched_tokens_payloads comp_def map_idI)

text \<open>
  A run of the worker: it starts with empty topics, the context is not cancelled, no publication fails,
  and the requests have different ids; the generator's tokens are valid UTF-8.
\<close>

definition gen_utf8 :: "(string \<Rightarrow> go_error + string list \<Rightarrow> bool) \<Rightarrow> bool" where
  "gen_utf8 gen \<longleftrightarrow> (\<forall>content tokens. gen content (Inr tokens) \<longrightarrow> (\<forall>t \<in> set tokens. valid_utf8 t))"

definition worker_ran ::
  "'k kafka \<Rightarrow> ('k \<Rightarrow> string \<Rightarrow> kafka_message list) \<Rightarrow> (string \<Rightarrow> go_error + string list \<Rightarrow> bool) \<Rightarrow>
   nat \<Rightarrow> wk_event list \<Rightarrow> 'k \<Rightarrow> 'k Worker \<Rightarrow> bool" where
  "worker_ran kw queue gen c wevs k s \<longleftrightarrow>
     wk_steps gen (PublishToken kw) c wevs (wk_New k) s \<and> WkCancelled \<notin> set wevs \<and>
     (\<forall>i. PublishFailed i \<notin> set wevs) \<and> distinct (map proc_id (wk_procs s)) \<and>
     queue k topicStreamFE = [] \<and> queue k topicPersistLLM = [] \<and> gen_utf8 gen"

text \<open>Its events are valid UTF-8, since its requests were decoded.\<close>

definition reqs_utf8 :: "'k Worker \<Rightarrow> bool" where
  "reqs_utf8 s \<longleftrightarrow> (\<forall>p \<in> set (wk_procs s). request_utf8 (wp_Req p)) \<and>
     (\<forall>req. wk_loop s = WAcquiring req \<longrightarrow> request_utf8 req)"

lemma reqs_utf8_step: "wk_step gen publish c ev s s' \<Longrightarrow> reqs_utf8 s \<Longrightarrow> reqs_utf8 s'"
  by (induction rule: wk_step.induct)
    (auto simp: reqs_utf8_def set_pc_def published_def Let_def unmarshal_ChatRequest_utf8
      dest!: set_update_subset_insert [THEN subsetD] split: option.splits)

lemma reqs_utf8_steps: "wk_steps gen publish c evs s s' \<Longrightarrow> reqs_utf8 s \<Longrightarrow> reqs_utf8 s'"
  by (induction rule: wk_steps.induct) (auto dest: reqs_utf8_step)

lemma reply_events_utf8:
  assumes "request_utf8 req" and "\<forall>t \<in> set tokens. valid_utf8 t" and "e \<in> set (reply_events req tokens d)"
  shows "utf8_TokenEvent e = e"
  using assms by (intro event_utf8_id)
    (auto simp: reply_events_def delta_event_def done_event_def event_utf8_def request_utf8_def split: if_splits)

lemma proc_sent:
  assumes "proc_ok gen cancelled p"
  shows "wp_Sent p = [] \<or> (\<exists>sent lost d. gen (cr_Content (wp_Req p)) (Inr (sent @ lost)) \<and>
    wp_Sent p = reply_events (wp_Req p) sent d)"
  using assms unfolding proc_ok_def by (cases "wp_PC p") auto

lemma worker_utf8:
  assumes "worker_ran kw queue gen c wevs k s"
  shows "utf8_events (wk_calls s)"
proof
  fix e assume e: "e \<in> set (wk_calls s)"
  have run: "wk_steps gen (PublishToken kw) c wevs (wk_New k) s" "distinct (map proc_id (wk_procs s))" "gen_utf8 gen"
    using assms by (simp_all add: worker_ran_def)
  have match: "calls_match (wk_procs s) (wk_calls s)"
    by (rule calls_match_steps [OF run(1) _ run(2)]) (simp add: wk_New_def calls_match_def)
  have ne: "e \<in> set (events_for (te_RequestID e) (wk_calls s))" using e by simp
  then have "te_RequestID e \<in> proc_id ` set (wk_procs s)"
    using match unfolding calls_match_def by (metis empty_iff empty_set)
  then obtain p where p: "p \<in> set (wk_procs s)" "proc_id p = te_RequestID e" by auto
  with match ne have "e \<in> set (wp_Sent p)" unfolding calls_match_def by metis
  moreover have "proc_ok gen (wk_done s) p"
    using procs_ok_steps [OF run(1)] p(1) by (simp add: procs_ok_def wk_New_def)
  moreover have "request_utf8 (wp_Req p)"
    using reqs_utf8_steps [OF run(1)] p(1) by (simp add: reqs_utf8_def wk_New_def)
  ultimately show "utf8_TokenEvent e = e"
    using proc_sent [of gen "wk_done s" p] run(3) reply_events_utf8 [of "wp_Req p" _ e] unfolding gen_utf8_def by fastforce
qed

lemma worker_topics:
  assumes "kafka_documented kw queue" and "worker_ran kw queue gen c wevs k s"
  shows "map keyed_value (queue (wk_kafka s) topicStreamFE) = map token_value (wk_calls s)"
    and "map keyed_value (queue (wk_kafka s) topicPersistLLM) = map token_value (wk_calls s)"
  using broker.worker_streams [OF assms(1), of gen c wevs "wk_New k" s "[]" "[]"] assms(2)
  by (auto simp: worker_ran_def wk_New_def)

text \<open>A consumer that has read either topic once has every request's events, in order.\<close>

lemma topic_reply:
  assumes "worker_ran kw queue gen c wevs k s" and "p \<in> set (wk_procs s)" and "done_event (wp_Req p) \<in> set (wk_calls s)"
    and "partitioned ms q" and "map keyed_value q = map token_value (wk_calls s)"
  obtains tokens ts where "gen (cr_Content (wp_Req p)) (Inr tokens)" and "map km_Value ms = map marshal_TokenEvent ts"
    and "utf8_events ts" and "events_for (proc_id p) ts = reply_events (wp_Req p) tokens True"
proof -
  have run: "wk_steps gen (PublishToken kw) c wevs (wk_New k) s" "WkCancelled \<notin> set wevs"
    "distinct (map proc_id (wk_procs s))" "utf8_events (wk_calls s)"
    using assms(1) worker_utf8 [OF assms(1)] by (simp_all add: worker_ran_def)
  obtain tokens where t: "gen (cr_Content (wp_Req p)) (Inr tokens)"
    "events_for (proc_id p) (wk_calls s) = reply_events (wp_Req p) tokens True"
    using worker_reply [OF run(1-3) assms(2,3)] .
  obtain ts where ts: "map km_Value ms = map marshal_TokenEvent ts" "utf8_events ts"
    "\<And>sid. session_events sid ts = session_events sid (wk_calls s)"
    by (rule partitioned_events [OF assms(4,5) run(4)], rule that)
  have "events_for (proc_id p) ts = events_for (proc_id p) (wk_calls s)"
    using request_events [OF ts(3) reply_of_calls_session [OF t(2)]] by blast
  with that t ts show ?thesis by metis
qed

lemma reply_persisted:
  assumes "kafka_documented kw queue" and "worker_ran kw queue gen c wevs k s"
    and "p \<in> set (wk_procs s)" and "done_event (wp_Req p) \<in> set (wk_calls s)"
    and "partitioned ms (queue (wk_kafka s) topicPersistLLM)" and "pw_payloads evs = map km_Value ms"
  obtains tokens where "gen (cr_Content (wp_Req p)) (Inr tokens)"
    and "deltas (proc_id p) (fetched_tokens evs) = concat tokens"
proof -
  obtain tokens ts where t: "gen (cr_Content (wp_Req p)) (Inr tokens)" "map km_Value ms = map marshal_TokenEvent ts"
    "utf8_events ts" "events_for (proc_id p) ts = reply_events (wp_Req p) tokens True"
    using topic_reply [OF assms(2-5) worker_topics(2) [OF assms(1,2)]] .
  then have "fetched_tokens evs = ts"
    using fetched_tokens_marshal assms(6) by simp
  with t that show ?thesis by (simp add: deltas_events_for deltas_reply)
qed

section \<open>The streaming worker's side\<close>

fun sw_payload :: "sw_event \<Rightarrow> string list" where
  "sw_payload (MsgFetched m) = [m]"
| "sw_payload _ = []"

definition sw_payloads :: "sw_event list \<Rightarrow> string list" where
  "sw_payloads evs = concat (map sw_payload evs)"

lemma fetched_marshal:
  "sw_payloads evs = map marshal_TokenEvent ts \<Longrightarrow> fetched evs = map stream_token_of ts"
proof -
  have "fetched evs = concat (map (\<lambda>m. case unmarshal_streamToken m of None \<Rightarrow> [] | Some t \<Rightarrow> [t]) (sw_payloads evs))"
  proof (induction evs)
    case (Cons ev evs)
    then show ?case by (cases ev) (simp_all add: sw_payloads_def fetched_def)
  qed (simp add: sw_payloads_def fetched_def)
  then show "sw_payloads evs = map marshal_TokenEvent ts \<Longrightarrow> fetched evs = map stream_token_of ts"
    by (simp add: comp_def)
qed

lemma stream_token_of_utf8:
  "utf8_TokenEvent t = t \<Longrightarrow>
     stream_token_of t = \<lparr>sk_RequestID = te_RequestID t, sk_Delta = te_Delta t, sk_Done = te_Done t\<rparr>"
  by (cases t) (simp add: utf8_TokenEvent_def stream_token_of_def)

lemma for_req_stream_tokens:
  "utf8_events ts \<Longrightarrow> for_req r (map stream_token_of ts) = map stream_token_of (events_for r ts)"
  by (induction ts) (simp_all add: stream_token_of_utf8)

lemma done_last_reply: "done_last (map stream_token_of (reply_events req tokens True))"
  by (auto simp: done_last_def reply_events_def stream_token_of_def delta_event_def butlast_append)

text \<open>A request is drained when none of its tokens is in its channel or with the router.\<close>

definition drained :: "'x StreamingWorker \<Rightarrow> string \<Rightarrow> bool" where
  "drained s r \<longleftrightarrow> queued s r = [] \<and> in_router (sw_router s) = []"

lemma reply_executed:
  assumes "sw_steps exec evs (sw_New x) s" and "CtxCancelled \<notin> set evs" and "\<And>ch. TimedOut ch \<notin> set evs"
    and "sw_payloads evs = map marshal_TokenEvent ts" and "utf8_events ts"
    and "events_for r ts = reply_events req tokens True" and "drained s r"
  shows "for_req r (sw_calls s) = map stream_token_of (reply_events req tokens True)"
proof -
  have f: "for_req r (fetched evs) = map stream_token_of (reply_events req tokens True)"
    by (simp only: fetched_marshal [OF assms(4)] for_req_stream_tokens [OF assms(5)] assms(6))
  have "on_track s r (fetched evs)"
    by (rule steps_on_track [OF assms(1-3)]) (simp only: f done_last_reply)
  with f assms(7) show ?thesis
    by (simp add: on_track_def drained_def)
qed

text \<open>The calls of the use case, when none of them fails, are one run of it.\<close>

lemma stream_run_fold:
  "fst (stream_run lib getcb ts x) = Inr () \<Longrightarrow>
     snd (stream_run lib getcb ts x) = fold (\<lambda>t x. snd (stream_Execute lib getcb t x)) ts x"
proof (induction ts arbitrary: x)
  case (Cons t ts)
  then show ?case
    by (cases "stream_Execute lib getcb t x") (auto simp: go_bind_def split: sum.splits)
qed (simp add: go_return_def)

definition token_sent :: "TokenEvent \<Rightarrow> TokenMessage" where
  "token_sent t = \<lparr>tm_RequestId = te_RequestID t, tm_Delta = te_Delta t, tm_Done = te_Done t\<rparr>"

lemma message_of_stream_token:
  "utf8_TokenEvent t = t \<Longrightarrow> message_of (event_of (stream_token_of t)) = token_sent t"
  by (simp add: stream_token_of_utf8 event_of_def message_of_def token_sent_def)

lemma reply_sent:
  assumes "grpc_documented lib nv" and "lookup_documented getcb nv cb"
    and "sw_steps (\<lambda>x t. snd (stream_Execute lib getcb t x)) evs (sw_New (NewStreamTokens secret, w)) s"
    and "fst (stream_run lib getcb (map event_of (sw_calls s)) (NewStreamTokens secret, w)) = Inr ()"
    and "for_req r (sw_calls s) = map stream_token_of (reply_events req tokens True)"
    and "utf8_events (reply_events req tokens True)"
  obtains t where "nv_addr nv (snd (sw_useCase s)) t = Some (cb r)"
    and "nv_log nv (snd (sw_useCase s)) t = map token_sent (reply_events req tokens True)"
proof -
  let ?ts = "map event_of (sw_calls s)" and ?x0 = "(NewStreamTokens secret, w)"
  have "sw_useCase s = fold (\<lambda>t x. snd (stream_Execute lib getcb (event_of t) x)) (sw_calls s) ?x0"
    using steps_useCase [OF assms(3), of ?x0] by (simp add: sw_New_def)
  then have "snd (stream_run lib getcb ?ts ?x0) = sw_useCase s"
    using stream_run_fold [OF assms(4)] by (simp add: fold_map comp_def)
  with assms(4) have run: "stream_run lib getcb ?ts ?x0 = (Inr (), (fst (sw_useCase s), snd (sw_useCase s)))"
    by (simp add: prod_eq_iff)
  have f: "filter (\<lambda>k. te_RequestID k = r) ?ts = map (event_of \<circ> stream_token_of) (reply_events req tokens True)"
    using arg_cong [OF assms(5), of "map event_of"] by (simp add: filter_map comp_def event_of_def)
  have "progress nv cb r [] False (NewStreamTokens secret) w"
    by (simp add: progress_def NewStreamTokens_def)
  from stream_run_progress [OF assms(1,2) su_inv_New run this]
  have "progress nv cb r (map message_of (map (event_of \<circ> stream_token_of) (reply_events req tokens True))) True
      (fst (sw_useCase s)) (snd (sw_useCase s))"
    unfolding f by (auto simp: reply_events_def event_of_def stream_token_of_def delta_event_def done_event_def butlast_append)
  moreover have "map message_of (map (event_of \<circ> stream_token_of) (reply_events req tokens True)) =
      map token_sent (reply_events req tokens True)"
    using assms(6) by (simp add: message_of_stream_token)
  ultimately show ?thesis
    using that by (auto simp: progress_def reply_events_def)
qed

section \<open>The API server's side\<close>

text \<open>The hub operations of a gRPC stream that carries the messages \<open>ms\<close>.\<close>

definition deliver_ops :: "TokenMessage list \<Rightarrow> hub_op list" where
  "deliver_ops ms = map (\<lambda>m. OpDeliver (tm_RequestId m) (pubsub_of m)) ms"

lemma DeliverTokens_ops:
  "\<forall>m \<in> set ms. tm_RequestId m \<noteq> [] \<Longrightarrow>
     DeliverTokens hub_Deliver ack (map RecvMsg ms @ [RecvEOF]) h =
       (Some ack, fold (\<lambda>op. snd \<circ> hub_step op) (deliver_ops ms) h)"
  by (simp add: DeliverTokens_prefix deliver_ops_def fold_map comp_def)

lemma delivered_ops:
  "delivered r (deliver_ops ms) = map pubsub_of (filter (\<lambda>m. tm_RequestId m = r) ms)"
  by (induction ms) (simp_all add: deliver_ops_def)

text \<open>The lines of a complete reply.\<close>

definition reply_tokens :: "string \<Rightarrow> string list \<Rightarrow> PubSubToken list" where
  "reply_tokens rid tokens =
     map (\<lambda>t. \<lparr>pt_RequestID = rid, pt_Delta = t, pt_Done = False\<rparr>) tokens @
     [\<lparr>pt_RequestID = rid, pt_Delta = [], pt_Done = True\<rparr>]"

lemma upto_done_reply [simp]: "upto_done (reply_tokens rid tokens) = reply_tokens rid tokens"
  by (induction tokens) (simp_all add: reply_tokens_def)

lemma delivered_reply:
  "delivered (cr_RequestID req) (deliver_ops (map token_sent (reply_events req tokens True))) =
     reply_tokens (cr_RequestID req) tokens"
  by (simp add: delivered_ops reply_events_def reply_tokens_def token_sent_def pubsub_of_def delta_event_def
      done_event_def comp_def filter_map)

section \<open>Example runs\<close>

text \<open>The demo worker's run in the shape the other programs read.\<close>

definition demo_reply :: "TokenEvent list" where
  "demo_reply = reply_events demo_request [''a'', '' b''] True"

lemma demo_worker_ran:
  "\<exists>evs s p. worker_ran (ref_kafka None) (\<lambda>q. q) demo_gen 1 evs no_messages s \<and> p \<in> set (wk_procs s) \<and>
     wp_Req p = demo_request \<and> wk_calls s = demo_reply \<and> done_event demo_request \<in> set (wk_calls s) \<and>
     ReqFetched (marshal_ChatRequest demo_request) \<in> set evs \<and> wk_procs s = [p] \<and> wp_PC p = Releasing \<and>
     wk_loop s = WFetching"
proof -
  obtain evs s where run: "wk_steps demo_gen (PublishToken (ref_kafka None)) 1 evs (wk_New no_messages) s"
    and c: "WkCancelled \<notin> set evs" "\<forall>i. PublishFailed i \<notin> set evs" and ps: "map wp_Req (wk_procs s) = [demo_request]"
    and calls: "wk_calls s = reply_events demo_request [''a'', '' b''] True"
    and rest: "ReqFetched (marshal_ChatRequest demo_request) \<in> set evs" "map wp_PC (wk_procs s) = [Releasing]"
      "wk_loop s = WFetching"
    using demo_worker_run by (elim exE conjE) (rule that)
  from ps obtain p where p: "wk_procs s = [p]" "wp_Req p = demo_request" by auto
  have "gen_utf8 demo_gen"
    by (auto simp: gen_utf8_def demo_gen_def ascii_def byte_def intro!: valid_utf8_ascii)
  with run c p have "worker_ran (ref_kafka None) (\<lambda>q. q) demo_gen 1 evs no_messages s"
    by (simp add: worker_ran_def no_messages_def)
  with p calls rest show ?thesis
    by (intro exI [of _ evs] exI [of _ s] exI [of _ p]) (simp add: demo_reply_def reply_events_def)
qed

lemma keyed_values:
  "map keyed_value q = map token_value evs \<Longrightarrow> map km_Value q = map marshal_TokenEvent evs"
  by (drule arg_cong [of _ _ "map snd"]) (simp add: keyed_value_def token_value_def comp_def)

lemma pw_payloads_feeds [simp]: "pw_payloads (concat (map feed ts)) = map marshal_TokenEvent ts"
  by (induction ts) (simp_all add: pw_payloads_def feed_def)

text \<open>The streaming worker serves the events of one request, each before it fetches the next.\<close>

definition serve :: "TokenEvent list \<Rightarrow> sw_event list" where
  "serve es = concat (map (\<lambda>e. send_events e @ [Executed 0]) es)"

lemma sw_payloads_serve: "sw_payloads (serve es) = map marshal_TokenEvent es"
  by (induction es) (simp_all add: sw_payloads_def serve_def send_events_def)

lemma serve_calm: "CtxCancelled \<notin> set (serve es)" "TimedOut ch \<notin> set (serve es)"
  by (auto simp: serve_def send_events_def)

definition serving :: "string \<Rightarrow> bool \<Rightarrow> 'x StreamingWorker \<Rightarrow> bool" where
  "serving r over s \<longleftrightarrow> sw_router s = Reading \<and> sw_channels s r = Some 0 \<and> sw_bufs s 0 = [] \<and>
     sw_procs s 0 = Some (r, if over then Leaving else Selecting)"

lemma serve_one:
  assumes "serving r False s" and "sk_RequestID (stream_token_of e) = r"
  shows "\<exists>s'. sw_steps exec (send_events e @ [Executed 0]) s s' \<and> serving r (te_Done e) s' \<and>
    sw_calls s' = sw_calls s @ [stream_token_of e]"
proof -
  let ?t = "stream_token_of e"
  let ?s1 = "s\<lparr>sw_router := Sending 0 ?t\<rparr>"
  let ?s2 = "?s1\<lparr>sw_bufs := (sw_bufs ?s1)(0 := sw_bufs ?s1 0 @ [?t]), sw_router := Reading\<rparr>"
  note s = assms(1) [unfolded serving_def]
  have "sw_steps exec [MsgFetched (marshal_TokenEvent e), RouteLocked] s ?s1"
    using fetch_route [of s ?t e exec] s assms(2) by (simp add: route_lookup_def)
  moreover have "sw_step exec Sent ?s1 ?s2"
    using s by (intro sent) (simp_all add: channel_capacity_def)
  moreover obtain s' where "sw_step exec (Executed 0) ?s2 s'" "serving r (te_Done e) s'" "sw_calls s' = sw_calls s @ [?t]"
    using executed [of ?s2 0 r ?t "[]" exec] s by (simp add: serving_def stream_token_of_def)
  ultimately show ?thesis
    using more_steps [OF more_steps] by (fastforce simp: send_events_def)
qed

lemma serve_first:
  assumes "sk_RequestID (stream_token_of e) = r"
  shows "\<exists>s. sw_steps exec (send_events e @ [Executed 0]) (sw_New x) s \<and> serving r (te_Done e) s \<and>
    sw_calls s = [stream_token_of e]"
proof -
  have "sw_steps exec (send_events e) (sw_New x) (routed (stream_token_of e) 1 x)"
    using fill_channel [OF refl, of 0 exec e x] by (simp add: channel_capacity_def)
  moreover obtain s where "sw_step exec (Executed 0) (routed (stream_token_of e) 1 x) s" "serving r (te_Done e) s"
    "sw_calls s = [stream_token_of e]"
    using executed [of "routed (stream_token_of e) 1 x" 0 r "stream_token_of e" "[]" exec] assms
    by (simp add: serving_def routed_def stream_token_of_def)
  ultimately show ?thesis using more_steps by blast
qed

lemma serve_all:
  assumes "es \<noteq> []" and "\<forall>e \<in> set es. sk_RequestID (stream_token_of e) = r" and "\<forall>e \<in> set (butlast es). \<not> te_Done e"
  shows "\<exists>s. sw_steps exec (serve es) (sw_New x) s \<and> serving r (te_Done (last es)) s \<and>
    sw_calls s = map stream_token_of es"
  using assms
proof (induction es rule: rev_induct)
  case (snoc e es)
  show ?case
  proof (cases "es = []")
    case True
    with snoc.prems serve_first [of e r exec x] show ?thesis by (simp add: serve_def)
  next
    case False
    with snoc obtain s where s: "sw_steps exec (serve es) (sw_New x) s" "serving r (te_Done (last es)) s"
      "sw_calls s = map stream_token_of es"
      by (auto dest: in_set_butlastD)
    have "\<not> te_Done (last es)" using snoc.prems(3) False by simp
    with s(2) have "serving r False s" by simp
    from serve_one [OF this, of e exec] snoc.prems(2) obtain s' where
      "sw_steps exec (send_events e @ [Executed 0]) s s'" "serving r (te_Done e) s'"
      "sw_calls s' = sw_calls s @ [stream_token_of e]"
      by auto
    with steps_trans [OF this(1) s(1)] s(3) show ?thesis
      by (intro exI [of _ s']) (simp add: serve_def)
  qed
qed simp

lemma drained_serving: "serving r over s \<Longrightarrow> drained s r"
  by (simp add: serving_def drained_def queued_def)

text \<open>The stream use case on the reference network, and the handler that streams the reply.\<close>

definition demo_streamed :: "(redis_view, string \<Rightarrow> kafka_message list) stream_event list" where
  "demo_streamed =
     [HSetCallback, HSend] @ concat (map (\<lambda>t. [OtherHub (OpDeliver ''r1'' t), HReceive]) (reply_tokens ''r1'' [''a'', '' b'']))"

lemma demo_stream_run:
  "fst (stream_run toy_lib toy_getcb (map event_of (map stream_token_of demo_reply)) (NewStreamTokens ''key'', toy_start)) = Inr ()"
  "nv_addr toy_view (snd (snd (stream_run toy_lib toy_getcb (map event_of (map stream_token_of demo_reply))
      (NewStreamTokens ''key'', toy_start)))) t = Some a \<Longrightarrow> t = 1"
  "nv_log toy_view (snd (snd (stream_run toy_lib toy_getcb (map event_of (map stream_token_of demo_reply))
      (NewStreamTokens ''key'', toy_start)))) 1 = map token_sent demo_reply"
proof -
  have e: "map event_of (map stream_token_of demo_reply) =
      [demo_te ''r1'' ''a'' False, demo_te ''r1'' '' b'' False, demo_te ''r1'' [] True]"
    by (simp add: demo_reply_def reply_events_def delta_event_def done_event_def demo_request_def event_of_def
        stream_token_of_def demo_te_def to_valid_utf8_ascii ascii_def byte_def)
  note d = go_bind_def stream_Execute_def getOrOpenStream_def resolveAddr_def getConn_def wrap_err_def
        on_world_def toy_lib_def toy_getcb_def NewStreamTokens_def demo_te_def evict_def go_return_def toy_view_def toy_start_def
  show "fst (stream_run toy_lib toy_getcb (map event_of (map stream_token_of demo_reply)) (NewStreamTokens ''key'', toy_start)) = Inr ()"
    unfolding e by (simp add: d)
  show "nv_addr toy_view (snd (snd (stream_run toy_lib toy_getcb (map event_of (map stream_token_of demo_reply))
      (NewStreamTokens ''key'', toy_start)))) t = Some a \<Longrightarrow> t = 1"
    unfolding e by (simp add: d split: if_splits)
  show "nv_log toy_view (snd (snd (stream_run toy_lib toy_getcb (map event_of (map stream_token_of demo_reply))
      (NewStreamTokens ''key'', toy_start)))) 1 = map token_sent demo_reply"
    unfolding e by (simp add: d demo_reply_def reply_events_def token_sent_def delta_event_def done_event_def demo_request_def message_of_def)
qed

lemma demo_streamed_run:
  "\<exists>h1 w1 h2 w2 rsp. stream_step ref_redis demo_publish ''api:1'' ''s1'' ''ann'' (HRegister ''r1'') (SRegister ''hi'')
      demo_handler demo_api = Some (h1, w1) \<and>
    handler_run ref_redis demo_publish ''api:1'' ''s1'' ''ann'' demo_streamed h1 w1 = Some (h2, w2) \<and>
    sh_pc h2 = SReturned \<and> sh_rsp h2 = Some rsp \<and> rsp_Status rsp = 200"
  by (simp add: demo_api_def demo_handler_def demo_streamed_def reply_tokens_def hub_op_defs hub_New_def Let_def
      SetCallback_def go_bind_def go_return_def ref_redis_def send_Execute_def PublishRequest_def publisher_write_def
      ref_kafka_def new_streamOutputPort_def chan_offer_def hub_capacity_def write_chunk_def
      ndjson_start_def)


lemma demo_streamed_calm:
  "ev \<in> set demo_streamed \<Longrightarrow> quiet ''r1'' (hub_next (api_hub demo_api)) ev"
  "ev \<in> set demo_streamed \<Longrightarrow> ev \<noteq> HClientGone \<and> ev \<noteq> HWriteFails"
  "delivered ''r1'' (hub_ops demo_streamed) = reply_tokens ''r1'' [''a'', '' b'']"
  by (auto simp: demo_streamed_def reply_tokens_def quiet_def hub_ops_def)

end
