(* ===== verification/WorkerMain.thy ===== *)
theory WorkerMain
  imports ChatWorker StreamingWorker TokenGenerator Config Lifecycle
begin

text \<open>
  \<open>cmd/worker/main.go\<close> and \<open>cmd/streaming-worker/main.go\<close>: the processes around the LLM worker and
  the streaming worker.  Each has one hook, which runs the worker and cancels its context; nothing
  waits for the goroutines that \<open>Run\<close> has started.
\<close>

section \<open>The LLM worker's process\<close>

definition runWorker :: "'k Worker fx_hook list \<Rightarrow> 'k Worker fx_hook list" where
  "runWorker lc = lc @ [run_hook (\<lambda>s. s\<lparr>wk_done := True\<rparr>)]"

text \<open>The hooks, or the error of the one constructor that has one of its own.\<close>

definition worker_hooks :: "Config \<Rightarrow> go_error + 'k Worker fx_hook list" where
  "worker_hooks cfg =
     (case newTokenGenerator (cfg_LLMProvider cfg) of
        Inl err \<Rightarrow> Inl err
      | Inr generator \<Rightarrow> Inr (runWorker []))"

definition chat_step where
  "chat_step gen publish c ev s s' \<longleftrightarrow> ev \<noteq> WkCancelled \<and> wk_step gen publish c ev s s'"

definition chat_steps where
  "chat_steps gen publish c evs s s' \<longleftrightarrow> WkCancelled \<notin> set evs \<and> wk_steps gen publish c evs s s'"

lemma chat_steps_cases:
  assumes "chat_steps gen publish c evs s s'"
  shows "evs = [] \<and> s' = s \<or>
    (\<exists>evs' ev s1. evs = evs' @ [ev] \<and> chat_steps gen publish c evs' s s1 \<and> chat_step gen publish c ev s1 s')"
proof -
  have "wk_steps gen publish c evs s s'" and "WkCancelled \<notin> set evs"
    using assms by (simp_all add: chat_steps_def)
  then show ?thesis
  proof cases
    case (wk_snoc evs' s1 ev)
    with \<open>WkCancelled \<notin> set evs\<close> show ?thesis
      by (intro disjI2 exI [of _ evs'] exI [of _ ev] exI [of _ s1]) (auto simp: chat_steps_def chat_step_def)
  qed simp
qed

text \<open>What the world has of the LLM worker: the topics, and the list of the published events.\<close>

interpretation chat_worker: background_worker "chat_step gen publish c" "chat_steps gen publish c"
    "\<lambda>s. s\<lparr>wk_done := True\<rparr>" "\<lambda>s. (wk_kafka s, wk_calls s)"
  for gen :: "string \<Rightarrow> go_error + string list \<Rightarrow> bool" and publish :: "TokenEvent \<Rightarrow> ('k, unit) go_call" and c :: nat
  by unfold_locales (rule chat_steps_cases, assumption, simp)

section \<open>The streaming worker's process\<close>

definition newStreamTokens :: "Config \<Rightarrow> ('c, 't) StreamTokensUseCase" where
  "newStreamTokens cfg = NewStreamTokens (cfg_CallbackSecret cfg)"

definition runStreamingWorker :: "'x StreamingWorker fx_hook list \<Rightarrow> 'x StreamingWorker fx_hook list" where
  "runStreamingWorker lc = lc @ [run_hook (\<lambda>s. s\<lparr>sw_done := True\<rparr>)]"

definition serving_step where
  "serving_step exec ev s s' \<longleftrightarrow> ev \<noteq> CtxCancelled \<and> sw_step exec ev s s'"

definition serving_steps where
  "serving_steps exec evs s s' \<longleftrightarrow> CtxCancelled \<notin> set evs \<and> sw_steps exec evs s s'"

lemma serving_steps_cases:
  assumes "serving_steps exec evs s s'"
  shows "evs = [] \<and> s' = s \<or>
    (\<exists>evs' ev s1. evs = evs' @ [ev] \<and> serving_steps exec evs' s s1 \<and> serving_step exec ev s1 s')"
proof -
  have "sw_steps exec evs s s'" and "CtxCancelled \<notin> set evs"
    using assms by (simp_all add: serving_steps_def)
  then show ?thesis
  proof cases
    case (more_steps evs' s1 ev)
    with \<open>CtxCancelled \<notin> set evs\<close> show ?thesis
      by (intro disjI2 exI [of _ evs'] exI [of _ ev] exI [of _ s1]) (auto simp: serving_steps_def serving_step_def)
  qed simp
qed

text \<open>What the world has of the streaming worker: the use case's connections, and the calls of \<open>Execute\<close>.\<close>

interpretation streaming_worker: background_worker "serving_step exec" "serving_steps exec"
    "\<lambda>s. s\<lparr>sw_done := True\<rparr>" "\<lambda>s. (sw_useCase s, sw_calls s)"
  for exec :: "'x \<Rightarrow> TokenEvent \<Rightarrow> 'x"
  by unfold_locales (rule serving_steps_cases, assumption, simp)

section \<open>Properties\<close>

text \<open>A goroutine that still ranges over its channel has published the deltas of the tokens before.\<close>

lemma ranging_sent:
  assumes "wk_steps gen publish c evs (wk_New k) s" and "WkCancelled \<notin> set evs"
    and "distinct (map proc_id (wk_procs s))" and "p \<in> set (wk_procs s)" and "wp_PC p = Ranging rest"
  obtains sent where "gen (cr_Content (wp_Req p)) (Inr (sent @ rest))"
    and "events_for (proc_id p) (wk_calls s) = reply_events (wp_Req p) sent False"
proof -
  have "\<not> wk_done s"
    using wk_done_steps [OF assms(1,2)] by (simp add: wk_New_def)
  moreover have "proc_ok gen (wk_done s) p"
    using procs_ok_steps [OF assms(1)] assms(4) by (simp add: procs_ok_def wk_New_def)
  moreover have "calls_match (wk_procs s) (wk_calls s)"
    by (rule calls_match_steps [OF assms(1) _ assms(3)]) (simp add: wk_New_def calls_match_def)
  ultimately show thesis
    using assms(4,5) that by (auto simp: proc_ok_def calls_match_def)
qed


definition demo_config :: Config where
  "demo_config = config_Load (\<lambda>_. [])"


text \<open>
  The streaming worker's process does not drain its channels: stopped at any moment, it can end at
  once, and then the tokens in the request's channel and in the router's hands, whose offsets are committed,
  are never passed to \<open>Execute\<close>.
\<close>

theorem streaming_stop_loses_queued:
  assumes "sw_steps exec evs (sw_New x) s" and "CtxCancelled \<notin> set evs" and "\<And>ch. TimedOut ch \<notin> set evs"
    and "done_last (for_req r (fetched evs))"
  shows "\<exists>pr. fx_documented 1 (fx_run 1 evs) \<and>
    process_steps (serving_step exec) (runStreamingWorker []) (fx_run 1 evs) (fx_New (sw_New x)) pr \<and>
    (\<forall>evs' pr'. process_steps (serving_step exec) (runStreamingWorker []) evs' pr pr' \<longrightarrow> pr' = pr) \<and>
    for_req r (sw_calls (pr_state pr)) @ queued s r @ for_req r (in_router (sw_router s)) = for_req r (fetched evs)"
proof -
  have "serving_steps exec evs (sw_New x) s"
    using assms(1,2) by (simp add: serving_steps_def)
  from streaming_worker.exits_at_once [OF this] obtain pr where
    "process_steps (serving_step exec) (runStreamingWorker []) (fx_run 1 evs) (fx_New (sw_New x)) pr" "pr_exited pr"
    "sw_calls (pr_state pr) = sw_calls s"
    by (auto simp: runStreamingWorker_def)
  moreover from this(2) have
    "\<forall>evs' pr'. process_steps (serving_step exec) (runStreamingWorker []) evs' pr pr' \<longrightarrow> pr' = pr"
    using exited_stays by blast
  moreover have "for_req r (sw_calls s) @ queued s r @ for_req r (in_router (sw_router s)) = for_req r (fetched evs)"
    using steps_on_track [OF assms] by (simp add: on_track_def)
  ultimately show ?thesis
    using fx_run_documented [of 1 evs] by (intro exI [of _ pr]) simp
qed

theorem streaming_stop_loses_queued_witness:
  "\<exists>pr. process_steps (serving_step (\<lambda>x t. x)) (runStreamingWorker []) (fx_run 1 (send_events (demo_te ''r1'' ''a'' True)))
       (fx_New (sw_New ())) pr \<and> for_req ''r1'' (sw_calls (pr_state pr)) = []"
proof -
  let ?e = "demo_te ''r1'' ''a'' True" and ?t = "stream_token_of (demo_te ''r1'' ''a'' True)"
  have r: "sk_RequestID ?t = ''r1''"
    by (simp add: stream_token_of_def demo_te_def to_valid_utf8_ascii ascii_def byte_def)
  have run: "sw_steps (\<lambda>x t. x) (send_events ?e) (sw_New ()) (routed ?t 1 ())"
    using fill_channel [OF refl, of 0 "\<lambda>x t. x" ?e "()"] by (simp add: channel_capacity_def)
  have f: "fetched (send_events ?e) = [?t]"
    by (simp add: fetched_def send_events_def)
  have q: "queued (routed ?t 1 ()) ''r1'' = [?t]" "in_router (sw_router (routed ?t 1 ())) = []"
    using r by (simp_all add: routed_def queued_def)
  have "CtxCancelled \<notin> set (send_events ?e)" and "\<And>ch. TimedOut ch \<notin> set (send_events ?e)"
    by (simp_all add: send_events_def)
  moreover have "done_last (for_req ''r1'' (fetched (send_events ?e)))"
    unfolding f by (simp add: done_last_def r)
  ultimately obtain pr where "process_steps (serving_step (\<lambda>x t. x)) (runStreamingWorker []) (fx_run 1 (send_events ?e))
       (fx_New (sw_New ())) pr"
    and eq: "for_req ''r1'' (sw_calls (pr_state pr)) @ queued (routed ?t 1 ()) ''r1'' @
       for_req ''r1'' (in_router (sw_router (routed ?t 1 ()))) = for_req ''r1'' (fetched (send_events ?e))"
    using streaming_stop_loses_queued [OF run, of "''r1''"] by blast
  moreover have "for_req ''r1'' (sw_calls (pr_state pr)) = []"
    using eq unfolding q f by (simp add: r)
  ultimately show ?thesis by blast
qed

end
