(* ===== verification/AsyncWriter.thy ===== *)
theory AsyncWriter
  imports Pipeline WorkerMain
begin

text \<open>
  The three writers of \<open>NewEventPublisher\<close> are asynchronous: \<open>WriteMessages\<close> queues a message and
  returns, and the client sends batches in the background, at most \<open>BatchSize\<close> messages of one
  partition at a time.  This theory separates what was handed to the writers, which is the \<open>queue\<close>
  of \<open>kafka_documented\<close>, from what the topics hold, and shows what \<open>Close\<close>, which no program
  calls, would do.
\<close>

section \<open>What the client documents\<close>

text \<open>
  The client is not code of the repository.  \<open>kc_send w t p n\<close>: in the background, the next batch of the
  writer for a partition of a topic, some of the messages pending there and at most \<open>BatchSize\<close>, goes to the broker, which stores it \<open>n\<close> times (none when all
  attempts fail, more than once when an attempt timed out but had succeeded).  \<open>kc_close w ok\<close>:
  \<open>Close\<close>, with \<open>ok\<close> when the broker stores every remaining batch once.
\<close>

record 'k kafka_client =
  kc_write :: "'k kafka"
  kc_send :: "kafka_writer \<Rightarrow> string \<Rightarrow> nat \<Rightarrow> nat \<Rightarrow> 'k \<Rightarrow> 'k"
  kc_close :: "kafka_writer \<Rightarrow> bool \<Rightarrow> ('k, unit) go_call"

text \<open>
  What this process has handed to a topic, what each writer has not sent yet and what the broker has
  stored of it, by topic and partition; the hash balancer maps a key to a partition.
\<close>

record 'k kafka_view =
  kv_handed :: "'k \<Rightarrow> string \<Rightarrow> kafka_message list"
  kv_pending :: "'k \<Rightarrow> kafka_writer \<Rightarrow> string \<Rightarrow> nat \<Rightarrow> kafka_message list"
  kv_stored :: "'k \<Rightarrow> string \<Rightarrow> nat \<Rightarrow> kafka_message list"
  kv_part :: "string \<Rightarrow> nat"

definition msg_part :: "'k kafka_view \<Rightarrow> kafka_message \<Rightarrow> nat" where
  "msg_part v m = kv_part v (km_Key m)"

definition async_documented :: "'k kafka_client \<Rightarrow> 'k kafka_view \<Rightarrow> bool" where
  "async_documented kc v \<longleftrightarrow>
     (\<forall>w m k k'. kc_write kc w m k = (Inr (), k') \<longrightarrow>
        kv_handed v k' = (kv_handed v k)(km_Topic m := kv_handed v k (km_Topic m) @ [m]) \<and>
        (\<forall>w' t p. kv_pending v k' w' t p = kv_pending v k w' t p @
           (if w' = w \<and> t = km_Topic m \<and> p = msg_part v m then [m] else [])) \<and>
        kv_stored v k' = kv_stored v k) \<and>
     (\<forall>w m k e k'. kc_write kc w m k = (Inl e, k') \<longrightarrow>
        kv_handed v k' = kv_handed v k \<and> kv_pending v k' = kv_pending v k \<and> kv_stored v k' = kv_stored v k) \<and>
     (\<forall>w t p n k. \<exists>j \<le> wc_BatchSize (NewEventPublisher w). (j = 0 \<longrightarrow> kv_pending v k w t p = []) \<and>
        (let k' = kc_send kc w t p n k in
         kv_handed v k' = kv_handed v k \<and>
         (\<forall>w' t' p'. kv_pending v k' w' t' p' =
            (if w' = w \<and> t' = t \<and> p' = p then drop j (kv_pending v k w t p) else kv_pending v k w' t' p')) \<and>
         (\<forall>t' p'. kv_stored v k' t' p' = kv_stored v k t' p' @
            (if t' = t \<and> p' = p then concat (replicate n (take j (kv_pending v k w t p))) else [])))) \<and>
     (\<forall>w k r k'. kc_close kc w True k = (r, k') \<longrightarrow>
        kv_handed v k' = kv_handed v k \<and>
        (\<forall>w' t p. kv_pending v k' w' t p = (if w' = w then [] else kv_pending v k w' t p)) \<and>
        (\<forall>t p. kv_stored v k' t p = kv_stored v k t p @ kv_pending v k w t p))"

lemma async_documentedD:
  assumes "async_documented kc v"
  shows "kc_write kc w m k = (Inr (), k') \<Longrightarrow>
      kv_handed v k' = (kv_handed v k)(km_Topic m := kv_handed v k (km_Topic m) @ [m]) \<and>
      (\<forall>w' t p. kv_pending v k' w' t p = kv_pending v k w' t p @
         (if w' = w \<and> t = km_Topic m \<and> p = msg_part v m then [m] else [])) \<and> kv_stored v k' = kv_stored v k"
    and "kc_write kc w m k = (Inl e, k') \<Longrightarrow>
      kv_handed v k' = kv_handed v k \<and> kv_pending v k' = kv_pending v k \<and> kv_stored v k' = kv_stored v k"
    and "kc_close kc w True k = (r, k') \<Longrightarrow> kv_handed v k' = kv_handed v k \<and>
      (\<forall>w' t p. kv_pending v k' w' t p = (if w' = w then [] else kv_pending v k w' t p)) \<and>
      (\<forall>t p. kv_stored v k' t p = kv_stored v k t p @ kv_pending v k w t p)"
proof -
  note d = assms [unfolded async_documented_def Let_def]
  show "kc_write kc w m k = (Inr (), k') \<Longrightarrow>
      kv_handed v k' = (kv_handed v k)(km_Topic m := kv_handed v k (km_Topic m) @ [m]) \<and>
      (\<forall>w' t p. kv_pending v k' w' t p = kv_pending v k w' t p @
         (if w' = w \<and> t = km_Topic m \<and> p = msg_part v m then [m] else [])) \<and> kv_stored v k' = kv_stored v k"
    by (rule d [THEN conjunct1, rule_format])
  show "kc_write kc w m k = (Inl e, k') \<Longrightarrow>
      kv_handed v k' = kv_handed v k \<and> kv_pending v k' = kv_pending v k \<and> kv_stored v k' = kv_stored v k"
    by (rule d [THEN conjunct2, THEN conjunct1, rule_format])
  show "kc_close kc w True k = (r, k') \<Longrightarrow> kv_handed v k' = kv_handed v k \<and>
      (\<forall>w' t p. kv_pending v k' w' t p = (if w' = w then [] else kv_pending v k w' t p)) \<and>
      (\<forall>t p. kv_stored v k' t p = kv_stored v k t p @ kv_pending v k w t p)"
    by (rule d [THEN conjunct2, THEN conjunct2, THEN conjunct2, rule_format])
qed

lemma async_send:
  assumes "async_documented kc v"
  obtains j where "j \<le> wc_BatchSize (NewEventPublisher w)" and "j = 0 \<Longrightarrow> kv_pending v k w t p = []"
    and "kv_handed v (kc_send kc w t p n k) = kv_handed v k"
    and "\<And>w' t' p'. kv_pending v (kc_send kc w t p n k) w' t' p' =
      (if w' = w \<and> t' = t \<and> p' = p then drop j (kv_pending v k w t p) else kv_pending v k w' t' p')"
    and "\<And>t' p'. kv_stored v (kc_send kc w t p n k) t' p' = kv_stored v k t' p' @
      (if t' = t \<and> p' = p then concat (replicate n (take j (kv_pending v k w t p))) else [])"
  using assms [unfolded async_documented_def Let_def, THEN conjunct2, THEN conjunct2, THEN conjunct1,
      THEN spec [of _ w], THEN spec [of _ t], THEN spec [of _ p], THEN spec [of _ n], THEN spec [of _ k]]
  by (elim exE conjE) (rule that, auto)

section \<open>A program and the client's background\<close>

text \<open>
  A program sees the client only when it calls it, so any interleaving of its calls with the background is
  a list that says which batches are sent before each call.
\<close>

type_synonym sent_batch = "kafka_writer \<times> string \<times> nat \<times> nat"

definition send_batch :: "'k kafka_client \<Rightarrow> sent_batch \<Rightarrow> 'k \<Rightarrow> 'k" where
  "send_batch kc = (\<lambda>(w, t, p, n). kc_send kc w t p n)"

definition with_sends :: "'k kafka_client \<Rightarrow> (sent_batch list list \<times> 'k) kafka" where
  "with_sends kc w m = (\<lambda>(sched, k).
     case kc_write kc w m (fold (send_batch kc) (concat (take 1 sched)) k) of (r, k') \<Rightarrow> (r, (drop 1 sched, k')))"

lemma send_batches_handed:
  "async_documented kc v \<Longrightarrow> kv_handed v (fold (send_batch kc) bs k) = kv_handed v k"
proof (induction bs arbitrary: k)
  case (Cons b bs)
  obtain w t p n where b: "b = (w, t, p, n)" by (cases b)
  have "kv_handed v (send_batch kc b k) = kv_handed v k"
    by (rule async_send [OF Cons.prems, of w k t p n]) (simp add: b send_batch_def)
  with Cons show ?case by simp
qed simp

text \<open>With any background, the client is the Kafka that the publisher's lemmas are about.\<close>

lemma with_sends_documented:
  assumes "async_documented kc v"
  shows "kafka_documented (with_sends kc) (\<lambda>(sched, k). kv_handed v k)"
  using async_documentedD(1,2) [OF assms]
  by (fastforce simp: kafka_documented_def with_sends_def send_batches_handed [OF assms] split: prod.splits)

section \<open>What the topics hold\<close>

text \<open>
  Each topic has one writer.  As long as the broker stores every batch once, a partition and what
  is pending for it are together what was handed to the topic for that partition, in order.
\<close>

definition writer_of :: "string \<Rightarrow> kafka_writer" where
  "writer_of t = (if t = topicStreamFE then StreamWriter else if t = topicPersistLLM then PersistWriter else MainWriter)"

definition in_step :: "'k kafka_view \<Rightarrow> 'k \<Rightarrow> bool" where
  "in_step v k \<longleftrightarrow>
     (\<forall>t p. kv_stored v k t p @ kv_pending v k (writer_of t) t p = filter (\<lambda>m. msg_part v m = p) (kv_handed v k t) \<and>
        (\<forall>w. w \<noteq> writer_of t \<longrightarrow> kv_pending v k w t p = []))"

definition stored_once :: "sent_batch \<Rightarrow> bool" where
  "stored_once = (\<lambda>(w, t, p, n). n = 1)"

lemma in_step_send:
  assumes "async_documented kc v" and "in_step v k" and "stored_once b"
  shows "in_step v (send_batch kc b k)"
proof -
  obtain w t p where b: "b = (w, t, p, 1)"
    using assms(3) by (cases b) (simp add: stored_once_def)
  obtain j where d: "kv_handed v (kc_send kc w t p 1 k) = kv_handed v k"
    "\<And>w' t' p'. kv_pending v (kc_send kc w t p 1 k) w' t' p' =
      (if w' = w \<and> t' = t \<and> p' = p then drop j (kv_pending v k w t p) else kv_pending v k w' t' p')"
    "\<And>t' p'. kv_stored v (kc_send kc w t p 1 k) t' p' = kv_stored v k t' p' @
      (if t' = t \<and> p' = p then concat (replicate 1 (take j (kv_pending v k w t p))) else [])"
    by (rule async_send [OF assms(1), of w k t p 1], rule that)
  show ?thesis
    using assms(2) by (auto simp: in_step_def b send_batch_def d [unfolded One_nat_def])
qed

lemma in_step_sends:
  "async_documented kc v \<Longrightarrow> in_step v k \<Longrightarrow> \<forall>b \<in> set bs. stored_once b \<Longrightarrow> in_step v (fold (send_batch kc) bs k)"
  by (induction bs arbitrary: k) (auto intro: in_step_send)

lemma in_step_write:
  assumes "async_documented kc v" and "in_step v k" and "w = writer_of (km_Topic m)" and "kc_write kc w m k = (r, k')"
  shows "in_step v k'"
proof (cases r)
  case (Inl e)
  with async_documentedD(2) [OF assms(1)] assms(2,4) show ?thesis by (simp add: in_step_def)
next
  case (Inr u)
  with async_documentedD(1) [OF assms(1)] assms(4)
  have d: "kv_handed v k' = (kv_handed v k)(km_Topic m := kv_handed v k (km_Topic m) @ [m])"
    "\<And>w' t p. kv_pending v k' w' t p = kv_pending v k w' t p @
       (if w' = w \<and> t = km_Topic m \<and> p = msg_part v m then [m] else [])" "kv_stored v k' = kv_stored v k"
    by simp_all
  have "kv_stored v k' t p @ kv_pending v k' (writer_of t) t p = filter (\<lambda>m. msg_part v m = p) (kv_handed v k' t)" for t p
    using assms(2,3) by (simp add: in_step_def d append_assoc [symmetric] del: append_assoc)
  moreover have "kv_pending v k' w' t p = []" if "w' \<noteq> writer_of t" for w' t p
    using assms(2,3) that by (auto simp: in_step_def d)
  ultimately show ?thesis by (simp add: in_step_def)
qed

text \<open>The state of a scheduled client: its background stores every batch once, and its topics are in step.\<close>

definition on_schedule :: "'k kafka_view \<Rightarrow> sent_batch list list \<times> 'k \<Rightarrow> bool" where
  "on_schedule v = (\<lambda>(sched, k). (\<forall>bs \<in> set sched. \<forall>b \<in> set bs. stored_once b) \<and> in_step v k)"

lemma on_schedule_write:
  assumes "async_documented kc v" and "on_schedule v x" and "w = writer_of (km_Topic m)"
    and "with_sends kc w m x = (r, x')"
  shows "on_schedule v x'"
proof -
  obtain sched k where x: "x = (sched, k)" by (cases x)
  let ?k = "fold (send_batch kc) (concat (take 1 sched)) k"
  obtain k' where k': "kc_write kc w m ?k = (r, k')" "x' = (drop 1 sched, k')"
    using assms(4) by (auto simp: x with_sends_def split: prod.splits)
  have "\<forall>b \<in> set (concat (take 1 sched)). stored_once b" and s: "\<forall>bs \<in> set (drop 1 sched). \<forall>b \<in> set bs. stored_once b"
    using assms(2) set_take_subset [of 1 sched] set_drop_subset [of 1 sched] by (auto simp: x on_schedule_def)
  then have "in_step v ?k"
    using in_step_sends [OF assms(1)] assms(2) by (simp add: x on_schedule_def)
  from in_step_write [OF assms(1) this assms(3) k'(1)] s show ?thesis
    by (simp add: on_schedule_def k'(2))
qed

lemma on_schedule_PublishToken:
  assumes "async_documented kc v" and "on_schedule v x" and "PublishToken (with_sends kc) t x = (r, x')"
  shows "on_schedule v x'"
proof -
  have w: "StreamWriter = writer_of (km_Topic (token_message topicStreamFE t))"
    "PersistWriter = writer_of (km_Topic (token_message topicPersistLLM t))"
    by (simp_all add: writer_of_def)
  note first = on_schedule_write [OF assms(1,2) w(1)] and second = on_schedule_write [OF assms(1) _ w(2)]
  from assms(3) show ?thesis
    by (rule PublishToken_cases) (blast intro: first second)+
qed

lemma wk_kafka_step:
  assumes "wk_step gen publish c ev s s'" and "I (wk_kafka s)" and "\<And>t k r k'. publish t k = (r, k') \<Longrightarrow> I k \<Longrightarrow> I k'"
  shows "I (wk_kafka s')"
  using assms(1,2) assms(3) by (cases rule: wk_step.cases) (auto simp: published_def Let_def split: option.split)

lemma wk_kafka_steps:
  "wk_steps gen publish c evs s s' \<Longrightarrow> I (wk_kafka s) \<Longrightarrow> (\<And>t k r k'. publish t k = (r, k') \<Longrightarrow> I k \<Longrightarrow> I k') \<Longrightarrow>
     I (wk_kafka s')"
  by (induction rule: wk_steps.induct) (auto intro: wk_kafka_step)

section \<open>Closing the publisher\<close>

lemma in_step_close:
  assumes "async_documented kc v" and "in_step v k" and "kc_close kc w True k = (r, k')"
  shows "in_step v k'" and "kv_handed v k' = kv_handed v k" and "kv_pending v k' w t p = []"
    and "kv_pending v k w' t p = [] \<Longrightarrow> kv_pending v k' w' t p = []"
  using async_documentedD(3) [OF assms(1,3)] assms(2) by (auto simp: in_step_def)

lemma publisher_Close_all:
  assumes "async_documented kc v" and "in_step v k" and "publisher_Close (\<lambda>w. kc_close kc w True) k = (r, k')"
  shows "kv_handed v k' = kv_handed v k" and "kv_stored v k' t p = filter (\<lambda>m. msg_part v m = p) (kv_handed v k t)"
proof -
  obtain r1 k1 r2 k2 where c: "kc_close kc StreamWriter True k = (r1, k1)" "kc_close kc PersistWriter True k1 = (r2, k2)"
    "kc_close kc MainWriter True k2 = (r, k')"
    using assms(3) by (auto simp: publisher_Close_def split: prod.splits)
  note 1 = in_step_close [OF assms(1,2) c(1)]
  note 2 = in_step_close [OF assms(1) 1(1) c(2)]
  note 3 = in_step_close [OF assms(1) 2(1) c(3)]
  show h: "kv_handed v k' = kv_handed v k" using 1(2) 2(2) 3(2) by simp
  have "kv_pending v k' w t p = []" for w
    using 1(3,4) 2(3,4) 3(3,4) by (cases w) blast+
  with 3(1) h show "kv_stored v k' t p = filter (\<lambda>m. msg_part v m = p) (kv_handed v k t)"
    by (metis append_Nil2 in_step_def)
qed

text \<open>A consumer group that has read a whole topic: each partition in its order, merged in any way.\<close>

definition topic_read :: "'k kafka_view \<Rightarrow> 'k \<Rightarrow> string \<Rightarrow> kafka_message list \<Rightarrow> bool" where
  "topic_read v k t ms \<longleftrightarrow> (\<forall>p. filter (\<lambda>m. msg_part v m = p) ms = kv_stored v k t p)"

lemma filter_key_part:
  "filter (\<lambda>m. km_Key m = key) (filter (\<lambda>m. msg_part v m = kv_part v key) ms) = filter (\<lambda>m. km_Key m = key) ms"
  by (induction ms) (auto simp: msg_part_def)

lemma topic_read_partitioned:
  assumes "topic_read v k t ms" and "\<And>p. kv_stored v k t p = filter (\<lambda>m. msg_part v m = p) q"
  shows "partitioned ms q"
proof -
  have "filter (\<lambda>m. km_Key m = key) ms = filter (\<lambda>m. km_Key m = key) q" for key
  proof -
    have "filter (\<lambda>m. msg_part v m = kv_part v key) ms = filter (\<lambda>m. msg_part v m = kv_part v key) q"
      using assms by (simp add: topic_read_def)
    then show ?thesis by (metis filter_key_part)
  qed
  then show ?thesis by (simp add: partitioned_def)
qed

section \<open>A client that meets the hypotheses\<close>

record ref_client =
  rc_handed :: "string \<Rightarrow> kafka_message list"
  rc_pending :: "kafka_writer \<Rightarrow> string \<Rightarrow> kafka_message list"
  rc_stored :: "string \<Rightarrow> kafka_message list"

definition ref_client_New :: ref_client where
  "ref_client_New = \<lparr>rc_handed = (\<lambda>_. []), rc_pending = (\<lambda>_ _. []), rc_stored = (\<lambda>_. [])\<rparr>"

text \<open>Every topic has one partition.\<close>

definition ref_async :: "ref_client kafka_client" where
  "ref_async =
     \<lparr>kc_write = (\<lambda>w m k. (Inr (), k\<lparr>rc_handed := (rc_handed k)(km_Topic m := rc_handed k (km_Topic m) @ [m]),
         rc_pending := (rc_pending k)(w := (rc_pending k w)(km_Topic m := rc_pending k w (km_Topic m) @ [m]))\<rparr>)),
      kc_send = (\<lambda>w t p n k. if p \<noteq> 0 then k else
         let batch = wc_BatchSize (NewEventPublisher w) in
         k\<lparr>rc_pending := (rc_pending k)(w := (rc_pending k w)(t := drop batch (rc_pending k w t))),
           rc_stored := (rc_stored k)(t := rc_stored k t @ concat (replicate n (take batch (rc_pending k w t))))\<rparr>),
      kc_close = (\<lambda>w ok k. (Inr (), k\<lparr>rc_pending := (rc_pending k)(w := (\<lambda>_. [])),
         rc_stored := (\<lambda>t. rc_stored k t @ (if ok then rc_pending k w t else []))\<rparr>))\<rparr>"

definition ref_client_view :: "ref_client kafka_view" where
  "ref_client_view =
     \<lparr>kv_handed = rc_handed, kv_pending = (\<lambda>k w t p. if p = 0 then rc_pending k w t else []),
      kv_stored = (\<lambda>k t p. if p = 0 then rc_stored k t else []), kv_part = (\<lambda>_. 0)\<rparr>"

lemma ref_async_send:
  "let j = wc_BatchSize (NewEventPublisher w); k' = kc_send ref_async w t p n k; v = ref_client_view in
     (j = 0 \<longrightarrow> kv_pending v k w t p = []) \<and> kv_handed v k' = kv_handed v k \<and>
     (\<forall>w' t' p'. kv_pending v k' w' t' p' =
        (if w' = w \<and> t' = t \<and> p' = p then drop j (kv_pending v k w t p) else kv_pending v k w' t' p')) \<and>
     (\<forall>t' p'. kv_stored v k' t' p' = kv_stored v k t' p' @
        (if t' = t \<and> p' = p then concat (replicate n (take j (kv_pending v k w t p))) else []))"
  by (cases w) (auto simp: ref_async_def ref_client_view_def Let_def)

lemma ref_async_documented: "async_documented ref_async ref_client_view"
proof -
  have send: "\<forall>w t p n k. \<exists>j \<le> wc_BatchSize (NewEventPublisher w). (j = 0 \<longrightarrow> kv_pending ref_client_view k w t p = []) \<and>
      (let k' = kc_send ref_async w t p n k in kv_handed ref_client_view k' = kv_handed ref_client_view k \<and>
       (\<forall>w' t' p'. kv_pending ref_client_view k' w' t' p' =
          (if w' = w \<and> t' = t \<and> p' = p then drop j (kv_pending ref_client_view k w t p) else kv_pending ref_client_view k w' t' p')) \<and>
       (\<forall>t' p'. kv_stored ref_client_view k' t' p' = kv_stored ref_client_view k t' p' @
          (if t' = t \<and> p' = p then concat (replicate n (take j (kv_pending ref_client_view k w t p))) else [])))"
    by (intro allI, rule exI, rule conjI [OF order_refl])
      (use ref_async_send in \<open>simp add: Let_def\<close>)
  show ?thesis
    unfolding async_documented_def
    by (intro conjI send) (auto simp: ref_async_def ref_client_view_def msg_part_def fun_eq_iff)
qed

lemma ref_client_in_step: "on_schedule ref_client_view ([], ref_client_New)"
  by (simp add: on_schedule_def in_step_def ref_client_view_def ref_client_New_def)

lemma publish_ref_async: "\<exists>x'. PublishToken (with_sends ref_async) t x = (Inr (), x')"
  by (cases x) (simp add: PublishToken_def with_sends_def go_bind_def ref_async_def Let_def)

lemmas demo_async_run = demo_run_of [of "PublishToken (with_sends ref_async)" "([], ref_client_New)", OF publish_ref_async]

text \<open>Without background, nothing is stored.\<close>

lemma nothing_stored:
  assumes "PublishToken (with_sends ref_async) t x = (r, x')" and "fst x = [] \<and> rc_stored (snd x) = (\<lambda>_. [])"
  shows "fst x' = [] \<and> rc_stored (snd x') = (\<lambda>_. [])"
  using assms by (cases x) (auto simp: PublishToken_def with_sends_def go_bind_def ref_async_def Let_def)

section \<open>Properties\<close>







end
