(* ===== verification/RequestPath.thy ===== *)
theory RequestPath
  imports Pipeline
begin

text \<open>
  The way of one request: from the body a client posts through the handler's publication and Kafka to
  the worker's goroutine, and from the published reply back to the lines of the response.
\<close>

section \<open>From the body to the topic\<close>

lemma first_value_utf8: "first_value s = Some j \<Longrightarrow> json_utf8 j"
  by (auto simp: first_value_def intro: parse_json_utf8 split: list.splits)

lemma content_utf8:
  assumes "ShouldBindJSON content_fields [] body = Some content"
  shows "valid_utf8 content"
proof -
  obtain j where j: "first_value body = Some j" "store_value content_fields [] j = Some content"
    using assms by (auto simp: ShouldBindJSON_def split: option.splits)
  have u: "json_utf8 j" using first_value_utf8 [OF j(1)] .
  have "keeps content_fields valid_utf8"
    by (auto simp: keeps_def content_fields_def dest!: field_string_valid)
  with set_fields_keeps [OF this] j(2) u show ?thesis
    by (cases j) fastforce+
qed

text \<open>Until it is sent, the content the handler carries is the one bound from the body.\<close>

definition carries :: "string \<Rightarrow> stream_handler \<Rightarrow> bool" where
  "carries body h \<longleftrightarrow>
     (\<forall>content. (sh_pc h = SClaim content \<or> sh_pc h = SRegister content \<or>
         (\<exists>r ch. sh_pc h = SSetCallback content r ch) \<or> (\<exists>r ch. sh_pc h = SSend content r ch)) \<longrightarrow>
       ShouldBindJSON content_fields [] body = Some content)"

lemma carries_start: "carries body (stream_start body)"
  by (simp add: carries_def stream_start_def returned_def split: option.split)

lemma carries_step:
  assumes "stream_step run publish addr sid uid ev (sh_pc h) h w = Some (h', w')" and "carries body h"
  shows "carries body h'"
proof (cases "\<exists>op d k. ev = OtherHub op \<or> ev = OtherWorld d k")
  case True
  with assms show ?thesis by auto
next
  case False
  with assms show ?thesis
    by (cases "sh_pc h"; cases ev)
      (auto simp: carries_def returned_def write_chunk_def split: prod.splits sum.splits option.splits if_splits)
qed

lemma carries_run:
  "handler_run run publish addr sid uid evs h w = Some (h', w') \<Longrightarrow> carries body h \<Longrightarrow> carries body h'"
  by (induction evs arbitrary: h w) (auto split: option.splits dest: carries_step)

text \<open>A response of 200 means that the request was published.\<close>

definition unsent :: "string \<Rightarrow> string \<Rightarrow> stream_handler \<Rightarrow> bool" where
  "unsent rid content h \<longleftrightarrow> sh_pc h \<in> {SSetCallback content rid ch | ch. True} \<union> {SSend content rid ch | ch. True}"

lemma unsent_step:
  assumes "stream_step run publish addr sid uid ev (sh_pc h) h w = Some (h', w')" and "unsent rid content h"
  shows "unsent rid content h' \<or> ev = HSend \<and>
    (\<exists>out. send_Execute publish sid content rid new_streamOutputPort (api_kafka w) = (out, api_kafka w') \<and>
      (so_err out = None \<or> (\<exists>rsp. sh_pc h' = SReturned \<and> sh_rsp h' = Some rsp \<and> rsp_Status rsp = 500)))"
proof (cases "\<exists>op d k. ev = OtherHub op \<or> ev = OtherWorld d k")
  case True
  with assms show ?thesis by auto
next
  case False
  with assms show ?thesis
    by (cases "sh_pc h"; cases ev) (auto simp: unsent_def returned_def split: prod.splits option.splits)
qed

lemma stays_returned:
  "handler_run run publish addr sid uid evs h w = Some (h', w') \<Longrightarrow> sh_pc h = SReturned \<Longrightarrow> h' = h"
proof (induction evs arbitrary: w)
  case (Cons ev evs)
  then show ?case by (cases ev) auto
qed simp

lemma published_before_200:
  assumes "handler_run run publish addr sid uid evs h w = Some (h', w')" and "unsent rid content h"
    and "sh_pc h' = SReturned" and "sh_rsp h' = Some rsp" and "rsp_Status rsp = 200"
  obtains e1 e2 k h1 w1 out where "evs = e1 @ HSend # e2"
    and "handler_run run publish addr sid uid (e1 @ [HSend]) h w = Some (h1, w1)"
    and "send_Execute publish sid content rid new_streamOutputPort k = (out, api_kafka w1)" and "so_err out = None"
  using assms
proof (induction evs arbitrary: h w thesis)
  case Nil
  then show ?case by (auto simp: unsent_def)
next
  case (Cons ev evs)
  from Cons.prems(2) obtain h1 w1 where s: "stream_step run publish addr sid uid ev (sh_pc h) h w = Some (h1, w1)"
    and r: "handler_run run publish addr sid uid evs h1 w1 = Some (h', w')"
    by (auto split: option.splits)
  from unsent_step [OF s Cons.prems(3)] show ?case
  proof (elim disjE conjE exE)
    assume u: "unsent rid content h1"
    show ?case
    proof (rule Cons.IH [OF _ r u Cons.prems(4-6)])
      fix e1 e2 k h2 w2 out
      assume "evs = e1 @ HSend # e2" and "handler_run run publish addr sid uid (e1 @ [HSend]) h1 w1 = Some (h2, w2)"
        and "send_Execute publish sid content rid new_streamOutputPort k = (out, api_kafka w2)" and "so_err out = None"
      with s show thesis by (intro Cons.prems(1) [of "ev # e1" e2]) simp_all
    qed
  next
    fix out
    assume "ev = HSend" and "so_err out = None"
      and "send_Execute publish sid content rid new_streamOutputPort (api_kafka w) = (out, api_kafka w1)"
    with s show thesis by (intro Cons.prems(1) [of "[]" evs]) simp_all
  next
    fix out rsp'
    assume "sh_pc h1 = SReturned" and "sh_rsp h1 = Some rsp'" and "rsp_Status rsp' = 500"
    with stays_returned [OF r] Cons.prems(5,6) show thesis by simp
  qed
qed

text \<open>The message that a successful send appends to the topic of chat requests, and what it decodes to.\<close>

lemma request_sent:
  assumes "kafka_documented kw queue"
    and "send_Execute (PublishRequest kw) sid content rid out k = (out', k')" and "so_err out' = None" and "so_err out = None"
  obtains m where "queue k' topicRequests = queue k topicRequests @ [m]" and "km_Key m = sid" and "so_requestID out' = rid"
    and "unmarshal_ChatRequest (km_Value m) =
      Some \<lparr>cr_RequestID = to_valid_utf8 rid, cr_SessionID = to_valid_utf8 sid, cr_Content = to_valid_utf8 content,
            cr_Timestamp = ''0''\<rparr>"
proof -
  let ?req = "\<lparr>cr_RequestID = rid, cr_SessionID = sid, cr_Content = content, cr_Timestamp = ''0''\<rparr>"
  let ?m = "\<lparr>km_Topic = topicRequests, km_Key = sid, km_Value = marshal_ChatRequest ?req\<rparr>"
  have "kw MainWriter ?m k = (Inr (), k')" and o: "so_requestID out' = rid"
    using assms(2-4) by (auto simp: send_Execute_def PublishRequest_def publisher_write_def Let_def
        split: prod.splits sum.splits)
  from kafka_documentedD(1) [OF assms(1) this(1)] have "queue k' topicRequests = queue k topicRequests @ [?m]" by simp
  moreover have "unmarshal_ChatRequest (marshal_ChatRequest ?req) = Some (utf8_ChatRequest ?req)"
    by (simp add: chat_request_read_back)
  ultimately show thesis using o that [of ?m] by (simp add: utf8_ChatRequest_def)
qed

section \<open>From the topic to the done event\<close>

text \<open>A worker that has nothing left to publish.\<close>

definition worker_idle :: "'k Worker \<Rightarrow> bool" where
  "worker_idle s \<longleftrightarrow> (\<forall>req. wk_loop s \<noteq> WAcquiring req) \<and>
     (\<forall>p \<in> set (wk_procs s). wp_PC p = Releasing \<or> wp_PC p = Exited)"

text \<open>Every decoded request waits for a slot or has its goroutine.\<close>

definition taken :: "'k Worker \<Rightarrow> ChatRequest \<Rightarrow> bool" where
  "taken s req \<longleftrightarrow> wk_loop s = WAcquiring req \<or> req \<in> wp_Req ` set (wk_procs s)"

lemma reqs_update: "i < length ps \<Longrightarrow> wp_Req q = wp_Req (ps ! i) \<Longrightarrow> wp_Req ` set (ps[i := q]) = wp_Req ` set ps"
  by (metis map_update_same set_map)

lemma taken_step: "wk_step gen publish c ev s s' \<Longrightarrow> taken s req \<Longrightarrow> taken s' req"
  by (induction rule: wk_step.induct)
    (auto simp: taken_def set_pc_def ChatWorker.published_def Let_def reqs_update split: option.split)

lemma taken_fetched: "wk_step gen publish c (ReqFetched m) s s' \<Longrightarrow> unmarshal_ChatRequest m = Some req \<Longrightarrow> taken s' req"
  by (erule wk_step.cases) (auto simp: taken_def)

lemma taken_steps:
  "wk_steps gen publish c evs s s' \<Longrightarrow> ReqFetched m \<in> set evs \<Longrightarrow> unmarshal_ChatRequest m = Some req \<Longrightarrow> taken s' req"
  by (induction rule: wk_steps.induct)
    (auto simp: taken_step taken_fetched)

text \<open>
  Where the generator has no errors, no publication fails and nobody cancels, a goroutine leaves its
  loop only after the done event.
\<close>

definition finishes :: "worker_proc \<Rightarrow> bool" where
  "finishes p \<longleftrightarrow> (wp_PC p = Releasing \<or> wp_PC p = Exited \<longrightarrow> done_event (wp_Req p) \<in> set (wp_Sent p))"

lemma finishes_update:
  "\<forall>p \<in> set ps. finishes p \<Longrightarrow> finishes q \<Longrightarrow> \<forall>p \<in> set (ps[i := q]). finishes p"
  using set_update_subset_insert [of ps i q] by auto

lemma finishes_step:
  assumes "wk_step gen publish c ev s s'" and "\<forall>p \<in> set (wk_procs s). finishes p" and "\<not> wk_done s"
    and "\<forall>i. ev \<noteq> PublishFailed i" and "\<And>content r. gen content r \<Longrightarrow> \<exists>tokens. r = Inr tokens"
  shows "\<forall>p \<in> set (wk_procs s'). finishes p"
  using assms
proof (induction rule: wk_step.induct)
  case (generated i s r)
  then obtain tokens where r: "r = Inr tokens" by blast
  have "finishes ((wk_procs s ! i)\<lparr>wp_PC := Ranging tokens\<rparr>)" by (simp add: finishes_def)
  from finishes_update [OF generated(4) this, of i] show ?case
    by (simp add: r set_pc_def)
next
  case (published i s rest k)
  have "finishes ((wk_procs s ! i)\<lparr>wp_Sent := wp_Sent (wk_procs s ! i) @ [next_event (wp_Req (wk_procs s ! i)) rest],
      wp_PC := after_event rest\<rparr>)"
    by (simp add: finishes_def after_event_def next_event_def split: list.split)
  from finishes_update [OF published(4) this, of i] show ?case
    by (simp add: ChatWorker.published_def Let_def)
next
  case (released i s)
  then have "finishes (wk_procs s ! i)" by simp
  with released(2) have "finishes ((wk_procs s ! i)\<lparr>wp_PC := Exited\<rparr>)" by (simp add: finishes_def)
  from finishes_update [OF released(3) this, of i] show ?case by (simp add: set_pc_def)
qed (auto simp: finishes_def split: option.split)

lemma finishes_steps:
  "wk_steps gen publish c evs s s' \<Longrightarrow> \<forall>p \<in> set (wk_procs s). finishes p \<Longrightarrow> \<not> wk_done s \<Longrightarrow>
     WkCancelled \<notin> set evs \<Longrightarrow> \<forall>i. PublishFailed i \<notin> set evs \<Longrightarrow>
     (\<And>content r. gen content r \<Longrightarrow> \<exists>tokens. r = Inr tokens) \<Longrightarrow> \<forall>p \<in> set (wk_procs s'). finishes p"
proof (induction rule: wk_steps.induct)
  case (wk_snoc evs s s' ev s'')
  have "\<not> wk_done s'"
    using wk_done_steps [OF wk_snoc(1)] wk_snoc(5,6) by simp
  with wk_snoc show ?case
    by (intro finishes_step [OF wk_snoc(2)]) auto
qed simp

text \<open>An idle worker has published the done event of every request it has read.\<close>

lemma request_done:
  assumes "worker_ran kw queue gen c wevs k s" and "worker_idle s" and "\<And>content r. gen content r \<Longrightarrow> \<exists>tokens. r = Inr tokens"
    and "ReqFetched m \<in> set wevs" and "unmarshal_ChatRequest m = Some req"
  obtains p where "p \<in> set (wk_procs s)" and "wp_Req p = req" and "done_event req \<in> set (wk_calls s)"
proof -
  have run: "wk_steps gen (PublishToken kw) c wevs (wk_New k) s" "WkCancelled \<notin> set wevs" "\<forall>i. PublishFailed i \<notin> set wevs"
    "distinct (map proc_id (wk_procs s))"
    using assms(1) by (simp_all add: worker_ran_def)
  have "taken s req"
    using taken_steps [OF run(1) assms(4,5)] .
  with assms(2) obtain p where p: "p \<in> set (wk_procs s)" "wp_Req p = req"
    by (auto simp: taken_def worker_idle_def)
  have "\<forall>p \<in> set (wk_procs s). finishes p"
    by (rule finishes_steps [OF run(1) _ _ run(2,3) assms(3)]) (simp_all add: wk_New_def)
  with assms(2) p have d: "done_event req \<in> set (wp_Sent p)"
    by (auto simp: finishes_def worker_idle_def)
  have "calls_match (wk_procs s) (wk_calls s)"
    by (rule calls_match_steps [OF run(1) _ run(4)]) (simp add: wk_New_def calls_match_def)
  with p(1) have "events_for (proc_id p) (wk_calls s) = wp_Sent p"
    by (simp add: calls_match_def)
  with d have "done_event req \<in> set (events_for (proc_id p) (wk_calls s))" by simp
  with p that show thesis by simp
qed

section \<open>From the done event to the response\<close>

text \<open>The calls of \<open>Execute\<close> for the request, when the streaming worker has served it.\<close>

lemma reply_calls:
  assumes "kafka_documented kw queue" and "worker_ran kw queue gen c wevs k s"
    and "p \<in> set (wk_procs s)" and "proc_id p = rid" and "done_event (wp_Req p) \<in> set (wk_calls s)"
    and "partitioned ms (queue (wk_kafka s) topicStreamFE)" and "sw_payloads sevs = map km_Value ms"
    and "sw_steps exec sevs (sw_New x) ss"
    and "CtxCancelled \<notin> set sevs" and "\<And>ch. TimedOut ch \<notin> set sevs" and "drained ss rid"
  obtains tokens where "gen (cr_Content (wp_Req p)) (Inr tokens)" and "utf8_events (reply_events (wp_Req p) tokens True)"
    and "for_req rid (sw_calls ss) = map stream_token_of (reply_events (wp_Req p) tokens True)"
proof -
  obtain tokens ts where t: "gen (cr_Content (wp_Req p)) (Inr tokens)" "map km_Value ms = map marshal_TokenEvent ts"
    "utf8_events ts" "events_for rid ts = reply_events (wp_Req p) tokens True"
    using topic_reply [OF assms(2,3,5,6) worker_topics(1) [OF assms(1,2)]] assms(4) by auto
  have "utf8_events (events_for rid ts)" using t(3) by auto
  then have "utf8_events (reply_events (wp_Req p) tokens True)" by (simp only: t(4))
  with that t(1) reply_executed [OF assms(8-10) _ t(3,4) assms(11)] t(2) assms(7) show thesis by simp
qed

lemma reply_streamed:
  assumes "kafka_documented kw queue" and "worker_ran kw queue gen c wevs k s"
    and "p \<in> set (wk_procs s)" and "proc_id p = rid" and "done_event (wp_Req p) \<in> set (wk_calls s)"
    and "partitioned ms (queue (wk_kafka s) topicStreamFE)" and "sw_payloads sevs = map km_Value ms"
    and "grpc_documented lib nv" and "lookup_documented getcb nv cb"
    and "sw_steps (\<lambda>x t. snd (stream_Execute lib getcb t x)) sevs (sw_New (NewStreamTokens secret, w)) ss"
    and "CtxCancelled \<notin> set sevs" and "\<And>ch. TimedOut ch \<notin> set sevs" and "drained ss rid"
    and "fst (stream_run lib getcb (map event_of (sw_calls ss)) (NewStreamTokens secret, w)) = Inr ()"
    and "\<And>t. nv_addr nv (snd (sw_useCase ss)) t = Some (cb rid) \<Longrightarrow>
        delivered rid (deliver_ops (nv_log nv (snd (sw_useCase ss)) t)) \<noteq> [] \<Longrightarrow>
        delivered rid (hub_ops evs) = delivered rid (deliver_ops (nv_log nv (snd (sw_useCase ss)) t))"
  shows "\<exists>tokens. gen (cr_Content (wp_Req p)) (Inr tokens) \<and> delivered rid (hub_ops evs) = reply_tokens rid tokens"
proof -
  obtain tokens where t: "gen (cr_Content (wp_Req p)) (Inr tokens)" "utf8_events (reply_events (wp_Req p) tokens True)"
    "for_req rid (sw_calls ss) = map stream_token_of (reply_events (wp_Req p) tokens True)"
    by (rule reply_calls [OF assms(1-7,10-13)])
  from reply_sent [OF assms(8,9,10,14) t(3,2)] obtain st where
    st: "nv_addr nv (snd (sw_useCase ss)) st = Some (cb rid)"
    "nv_log nv (snd (sw_useCase ss)) st = map token_sent (reply_events (wp_Req p) tokens True)"
    by blast
  have "delivered rid (deliver_ops (nv_log nv (snd (sw_useCase ss)) st)) = reply_tokens rid tokens"
    using delivered_reply [of "wp_Req p" tokens] assms(4) by (simp add: st(2) proc_id_def)
  with assms(15) [OF st(1)] have "delivered rid (hub_ops evs) = reply_tokens rid tokens"
    by (simp add: reply_tokens_def)
  with t(1) show ?thesis by blast
qed

section \<open>An example\<close>

definition demo_post :: string where
  "demo_post = ''{'' @ [CHR 0x22] @ ''content'' @ [CHR 0x22] @ '':'' @ [CHR 0x22] @ ''hi'' @ [CHR 0x22] @ ''}''"

lemma demo_post_content: "ShouldBindJSON content_fields [] demo_post = Some ''hi''"
  by code_simp

lemma demo_post_claimed:
  "\<exists>w1. handler_run ref_redis demo_publish ''api:1'' ''s1'' ''ann'' [HClaim] (stream_start demo_post) demo_api =
     Some (demo_handler, w1) \<and> api_hub w1 = hub_New \<and> api_kafka w1 = no_messages"
  by (simp add: stream_start_def demo_post_content demo_api_def demo_handler_def ClaimOwner_ref)

lemma demo_post_run:
  assumes "api_hub w1 = hub_New" and "api_kafka w1 = no_messages"
  shows "\<exists>h2 w2 rsp. handler_run ref_redis demo_publish ''api:1'' ''s1'' ''ann'' (HRegister ''r1'' # demo_streamed) demo_handler w1 =
      Some (h2, w2) \<and> sh_pc h2 = SReturned \<and> sh_rsp h2 = Some rsp \<and> rsp_Status rsp = 200"
  by (simp add: assms demo_handler_def demo_streamed_def reply_tokens_def hub_op_defs hub_New_def Let_def
      SetCallback_def go_bind_def go_return_def ref_redis_def send_Execute_def PublishRequest_def publisher_write_def
      ref_kafka_def new_streamOutputPort_def chan_offer_def hub_capacity_def write_chunk_def
      ndjson_start_def)

lemma demo_post_sent:
  assumes "api_hub w1 = hub_New" and "api_kafka w1 = no_messages" and "demo_streamed = e1 @ HSend # e2"
    and "handler_run ref_redis demo_publish ''api:1'' ''s1'' ''ann'' (HRegister ''r1'' # e1 @ [HSend]) demo_handler w1 = Some (h, v)"
    and "m \<in> set (api_kafka v topicRequests)"
  shows "km_Value m = marshal_ChatRequest demo_request"
proof -
  have "e1 = [HSetCallback]"
    using assms(3) by (auto simp: demo_streamed_def reply_tokens_def Cons_eq_append_conv)
  with assms show ?thesis
    by (auto simp: demo_handler_def hub_op_defs hub_New_def Let_def SetCallback_def go_bind_def go_return_def
      ref_redis_def send_Execute_def PublishRequest_def publisher_write_def ref_kafka_def new_streamOutputPort_def
      no_messages_def demo_request_def)
qed

text \<open>The streaming worker serves the demo reply, and the hub gets what its stream carried.\<close>

lemma demo_served:
  obtains ss where "sw_steps (\<lambda>x t. snd (stream_Execute toy_lib toy_getcb t x)) (serve demo_reply)
      (sw_New (NewStreamTokens ''key'', toy_start)) ss" and "drained ss ''r1''"
    and "fst (stream_run toy_lib toy_getcb (map event_of (sw_calls ss)) (NewStreamTokens ''key'', toy_start)) = Inr ()"
    and "\<And>t. nv_addr toy_view (snd (sw_useCase ss)) t = Some (''api:'' @ ''r1'') \<Longrightarrow>
      delivered ''r1'' (hub_ops demo_streamed) = delivered ''r1'' (deliver_ops (nv_log toy_view (snd (sw_useCase ss)) t))"
proof -
  let ?x0 = "(NewStreamTokens ''key'', toy_start)"
  obtain ss where ss: "sw_steps (\<lambda>x t. snd (stream_Execute toy_lib toy_getcb t x)) (serve demo_reply) (sw_New ?x0) ss"
    "serving ''r1'' (te_Done (last demo_reply)) ss" "sw_calls ss = map stream_token_of demo_reply"
    using serve_all [of demo_reply "''r1''" "\<lambda>x t. snd (stream_Execute toy_lib toy_getcb t x)" ?x0]
    by (auto simp: demo_reply_def reply_events_def stream_token_of_def delta_event_def done_event_def
        demo_request_def to_valid_utf8_ascii ascii_def byte_def)
  have uc: "sw_useCase ss = snd (stream_run toy_lib toy_getcb (map event_of (sw_calls ss)) ?x0)"
    using steps_useCase [OF ss(1), of ?x0] stream_run_fold [OF demo_stream_run(1)]
    by (simp only: ss(3)) (simp add: sw_New_def fold_map comp_def)
  have "fst (stream_run toy_lib toy_getcb (map event_of (sw_calls ss)) ?x0) = Inr ()"
    unfolding ss(3) by (rule demo_stream_run(1))
  moreover have "delivered ''r1'' (deliver_ops (map token_sent demo_reply)) = reply_tokens ''r1'' [''a'', '' b'']"
    using delivered_reply [of demo_request "[''a'', '' b'']"] by (simp add: demo_reply_def demo_request_def)
  then have "delivered ''r1'' (hub_ops demo_streamed) =
      delivered ''r1'' (deliver_ops (nv_log toy_view (snd (sw_useCase ss)) t))"
    if "nv_addr toy_view (snd (sw_useCase ss)) t = Some (''api:'' @ ''r1'')" for t
    using that demo_stream_run(2,3) unfolding uc ss(3) demo_streamed_calm(3) by metis
  ultimately show thesis
    using that ss(1) drained_serving [OF ss(2)] by blast
qed

end
