(* ===== verification/StoredChat.thy ===== *)
theory StoredChat
  imports RequestPath ApiServer
begin

text \<open>
  What the table of messages has of one request: nothing, or two rows next to each other among the rows of
  the request, the user's message and then the reply, both in the session of the request.  Every step of
  the persistence worker keeps this, whatever fails and however its flushes interleave.
\<close>

section \<open>The rows of a request\<close>

abbreviation of_request :: "string \<Rightarrow> Message list \<Rightarrow> Message list" where
  "of_request r ms \<equiv> filter (\<lambda>m. msg_RequestID m = r) ms"

definition chat_rows :: "string \<Rightarrow> string \<Rightarrow> string \<Rightarrow> string \<Rightarrow> Message list" where
  "chat_rows sid r um reply =
     [\<lparr>msg_SessionID = sid, msg_RequestID = r, msg_Role = RoleUser, msg_Content = um\<rparr>,
      \<lparr>msg_SessionID = sid, msg_RequestID = r, msg_Role = RoleAssistant, msg_Content = reply\<rparr>]"

definition one_chat :: "string \<Rightarrow> string \<Rightarrow> string \<Rightarrow> Message list \<Rightarrow> bool" where
  "one_chat sid r um ms \<longleftrightarrow> of_request r ms = [] \<or> (\<exists>reply. of_request r ms = chat_rows sid r um reply)"

lemma contents_of_request: "contents ms (r, role) = contents (of_request r ms) (r, role)"
  by (induction ms) (auto simp: contents_def msg_key_def)

lemma contents_chat_rows [simp]:
  "contents (chat_rows sid r um reply) (r, RoleUser) = Some um"
  "contents (chat_rows sid r um reply) (r, RoleAssistant) = Some reply"
  by (simp_all add: chat_rows_def contents_def msg_key_def)

lemma contents_Nil [simp]: "contents [] k = None"
  by (simp add: contents_def)

lemma of_request_upsert:
  "of_request r (pg_upsert tbl rows) = map (set_content (contents rows)) (of_request r tbl) @
     filter (\<lambda>m. msg_key m \<notin> msg_key ` set tbl) (of_request r rows)"
proof -
  have "msg_RequestID (set_content f m) = msg_RequestID m" for f m
    by (simp add: set_content_def split: option.split)
  then show ?thesis
    by (simp add: pg_upsert_alt filter_map comp_def conj_commute)
qed

lemma keys_of_request: "(r, role) \<in> msg_key ` set tbl \<longleftrightarrow> (r, role) \<in> msg_key ` set (of_request r tbl)"
  by (force simp: msg_key_def)

lemma chat_rows_keys [simp]:
  "msg_key ` set (chat_rows sid r um reply) = {(r, RoleUser), (r, RoleAssistant)}"
  by (simp add: chat_rows_def msg_key_def)

lemma one_chat_upsert:
  assumes "one_chat sid r um tbl" and "one_chat sid r um rows"
  shows "one_chat sid r um (pg_upsert tbl rows)"
proof -
  note up = of_request_upsert [of r tbl rows] and c = contents_of_request [of rows r]
  show ?thesis
  proof (cases "of_request r rows = []")
    case True
    then have "set_content (contents rows) m = m" if "msg_RequestID m = r" for m
      using c [of "msg_Role m"] that by (simp add: set_content_def msg_key_def)
    then have "of_request r (pg_upsert tbl rows) = of_request r tbl"
      using True by (auto simp: up intro!: map_idI)
    with assms(1) show ?thesis by (simp add: one_chat_def)
  next
    case False
    then obtain reply where rows: "of_request r rows = chat_rows sid r um reply"
      using assms(2) by (auto simp: one_chat_def)
    note k = keys_of_request [of r _ tbl]
    show ?thesis
    proof (cases "of_request r tbl = []")
      case True
      then have "(r, role) \<notin> msg_key ` set tbl" for role
        using k by simp
      then have "of_request r (pg_upsert tbl rows) = chat_rows sid r um reply"
        using True by (simp add: up rows) (simp add: chat_rows_def msg_key_def)
      then show ?thesis by (auto simp: one_chat_def)
    next
      case False
      then obtain old where tbl: "of_request r tbl = chat_rows sid r um old"
        using assms(1) by (auto simp: one_chat_def)
      have "(r, RoleUser) \<in> msg_key ` set tbl" "(r, RoleAssistant) \<in> msg_key ` set tbl"
        using k by (simp_all add: tbl)
      then have "filter (\<lambda>m. msg_key m \<notin> msg_key ` set tbl) (chat_rows sid r um reply) = []"
        by (simp add: chat_rows_def msg_key_def)
      moreover have "map (set_content (contents rows)) (chat_rows sid r um old) = chat_rows sid r um reply"
        using c [of RoleUser] c [of RoleAssistant]
        by (simp add: rows) (simp add: chat_rows_def set_content_def msg_key_def)
      ultimately have "of_request r (pg_upsert tbl rows) = chat_rows sid r um reply"
        by (simp add: up rows tbl)
      then show ?thesis by (auto simp: one_chat_def)
    qed
  qed
qed

text \<open>The reply is the content of the second row.\<close>

lemma one_chat_reply:
  assumes "one_chat sid r um ms" and "stored_reply ms r \<noteq> []"
  shows "of_request r ms = chat_rows sid r um (stored_reply ms r)"
proof -
  have s: "stored_reply ms r = str_at (contents (of_request r ms)) (r, RoleAssistant)"
    using contents_of_request [of ms r RoleAssistant] by (simp add: stored_reply_def str_at_def)
  with assms show ?thesis
    by (auto simp: one_chat_def str_at_def)
qed

section \<open>Buffers and batches\<close>

text \<open>The events and the buffers of the request carry its session and the user's message.\<close>

definition token_of :: "string \<Rightarrow> string \<Rightarrow> string \<Rightarrow> TokenEvent \<Rightarrow> bool" where
  "token_of sid r um t \<longleftrightarrow> (te_RequestID t = r \<longrightarrow> te_SessionID t = sid \<and> te_UserMessage t = um)"

definition buffer_of :: "string \<Rightarrow> string \<Rightarrow> string \<Rightarrow> snapshot \<Rightarrow> bool" where
  "buffer_of sid r um m \<longleftrightarrow> (\<forall>b. gm_get m r = Some b \<longrightarrow> tb_sessionID b = sid \<and> tb_userMessage b = um)"

lemma buffer_of_Nil [simp]: "buffer_of sid r um []"
  by (simp add: buffer_of_def)

lemma buffer_of_AddToken:
  assumes "buffer_of sid r um (ps_buffers uc)" and "token_of sid r um t"
  shows "buffer_of sid r um (ps_buffers (AddToken t uc))"
proof (cases "te_RequestID t = r")
  case True
  with assms show ?thesis
    by (cases "gm_get (ps_buffers uc) r") (simp_all add: buffer_of_def token_of_def AddToken_def Let_def gm_get_put)
next
  case False
  with assms(1) show ?thesis
    by (simp add: buffer_of_def AddToken_def Let_def gm_get_put)
qed

lemma of_request_pairs:
  "distinct ks \<Longrightarrow> of_request r (concat (map (\<lambda>k. case gm_get m k of None \<Rightarrow> [] | Some b \<Rightarrow> flush_pair ex k b) ks)) =
     (if r \<in> set ks then (case gm_get m r of None \<Rightarrow> [] | Some b \<Rightarrow> flush_pair ex r b) else [])"
  by (induction ks) (auto simp: flush_pair_def split: option.split)

lemma one_chat_flush:
  assumes "buffer_of sid r um m" and "gm_inv m" and "range_order it"
  shows "one_chat sid r um (flush_msgs it ex m)"
proof -
  have "distinct (it (gm_keys m))"
    using assms(2,3) by (simp add: gm_inv_def range_orderD)
  from of_request_pairs [where r = r and m = m and ex = ex, OF this] show ?thesis
    using assms(1)
    by (cases "gm_get m r") (auto simp: one_chat_def flush_msgs_def buffer_of_def flush_pair_def chat_rows_def)
qed

section \<open>The worker keeps it\<close>

fun phase_of :: "string \<Rightarrow> string \<Rightarrow> string \<Rightarrow> flush_phase \<Rightarrow> bool" where
  "phase_of sid r um (AtRead m) = (gm_inv m \<and> buffer_of sid r um m)"
| "phase_of sid r um (AtUpsert m ex) = (gm_inv m \<and> buffer_of sid r um m)"
| "phase_of sid r um _ = True"

definition final_phases :: "'d PersistenceWorker \<Rightarrow> flush_phase list" where
  "final_phases s = (case pw_flusher s of FinalFlush ph \<Rightarrow> [ph] | _ \<Rightarrow> [])"

context message_store
begin

definition places :: "string \<Rightarrow> string \<Rightarrow> string \<Rightarrow> 'e \<Rightarrow> 'd \<Rightarrow> PersistSessionUseCase \<Rightarrow> bool" where
  "places sid r um e d uc \<longleftrightarrow> one_chat sid r um (rows e d) \<and> ps_inv uc \<and> buffer_of sid r um (ps_buffers uc)"

lemma flush_step_places:
  assumes "good e" and "orders_ok o'" and "places sid r um e d uc" and "phase_of sid r um ph"
    and "flush_step (get e) (upsert e) c o' ph (uc, d) = (ph', (uc', d'))"
  shows "places sid r um e d' uc' \<and> phase_of sid r um ph'"
proof (cases ph)
  case AtSnapshot
  with assms(3,5) show ?thesis
    by (auto simp: flush_step_def flush_snapshot_eq places_def ps_inv_def split: if_splits)
next
  case (AtRead m)
  have "rows e d' = rows e d"
    using assms(5) get_ok [OF assms(1)] get_fail [OF assms(1)]
    by (auto simp: AtRead flush_step_def split: if_splits prod.splits sum.splits)
  with assms(3-5) AtRead show ?thesis
    by (auto simp: flush_step_def places_def split: if_splits prod.splits sum.splits)
next
  case (AtUpsert m ex)
  have "rows e d' = rows e d \<or> rows e d' = pg_upsert (rows e d) (flush_msgs (ord_msgs o') ex m)"
  proof (cases c)
    case False
    obtain x where x: "upsert e (ord_sessions o') (flush_msgs (ord_msgs o') ex m) d = (x, d')"
      using assms(5) False by (auto simp: AtUpsert flush_step_def split: prod.splits)
    with upsert_ok [OF assms(1)] upsert_fail [OF assms(1)] show ?thesis
      by (cases x) auto
  qed (use assms(5) in \<open>simp add: AtUpsert flush_step_def\<close>)
  moreover have "one_chat sid r um (flush_msgs (ord_msgs o') ex m)"
    using assms(2,4) by (intro one_chat_flush) (simp_all add: AtUpsert orders_ok_def)
  ultimately have "one_chat sid r um (rows e d')"
    using one_chat_upsert assms(3) by (auto simp: places_def)
  with assms(3,5) AtUpsert show ?thesis
    by (auto simp: flush_step_def places_def split: if_splits prod.splits)
qed (use assms in \<open>auto simp: flush_step_def\<close>)

definition placed :: "string \<Rightarrow> string \<Rightarrow> string \<Rightarrow> 'e \<Rightarrow> 'd PersistenceWorker \<Rightarrow> bool" where
  "placed sid r um e s \<longleftrightarrow> places sid r um e (pw_db s) (pw_useCase s) \<and>
     (\<forall>ph \<in> set (guarded s @ final_phases s). phase_of sid r um ph) \<and>
     (\<forall>t \<in> set (pc_tokens (pw_consumer s)). token_of sid r um t)"

lemmas placed_defs = placed_def guarded_def tick_phases_def final_phases_def

lemma placed_consumer:
  assumes "consumer_step ev s = Some s'" and "placed sid r um e s" and "\<forall>t \<in> set (ev_tokens ev). token_of sid r um t"
  shows "placed sid r um e s'"
  using assms unfolding consumer_step_def
  by (elim consume_cases)
    (auto simp: placed_defs places_def msg_tokens_def buffer_of_AddToken ps_inv_AddToken split: option.splits if_splits)

lemma placed_spawned:
  assumes "good e" and "orders_ok o'" and "spawned_step (get e) (upsert e) i o' s = Some s'" and "placed sid r um e s"
  shows "placed sid r um e s'"
proof -
  have i: "i < length (pw_spawned s)"
    using assms(3) by (simp add: spawned_step_def split: if_splits)
  then have ph: "phase_of sid r um (pw_spawned s ! i)" and pl: "places sid r um e (pw_db s) (pw_useCase s)"
    using assms(4) nth_mem [OF i] by (auto simp: placed_def guarded_def)
  show ?thesis
  proof (cases "\<exists>x. pw_spawned s ! i = AtReturn x")
    case True
    then obtain x where "pw_spawned s ! i = AtReturn x" by blast
    with assms(3) i have s': "s' = s\<lparr>pw_spawned := take i (pw_spawned s) @ drop (Suc i) (pw_spawned s),
        pw_flushing := False, pw_log := pw_log s @ [flush_entry x]\<rparr>"
      by (simp add: spawned_step_def)
    with assms(4) show ?thesis
      by (auto simp: placed_defs dest: in_set_takeD in_set_dropD)
  next
    case False
    obtain ph' uc' d' where st: "flush_step (get e) (upsert e) (pw_done s) o' (pw_spawned s ! i) (pw_useCase s, pw_db s) =
        (ph', (uc', d'))"
      by (metis prod_cases3)
    have s': "s' = s\<lparr>pw_spawned := (pw_spawned s)[i := ph'], pw_useCase := uc', pw_db := d'\<rparr>"
      using assms(3) i False st by (cases "pw_spawned s ! i") (simp_all add: spawned_step_def)
    from flush_step_places [OF assms(1,2) pl ph st] assms(4) show ?thesis
      by (auto simp: placed_defs s' dest!: set_update_subset_insert [THEN subsetD])
  qed
qed

lemma placed_flusher:
  assumes "good e" and "orders_ok o'" and "flusher_step (get e) (upsert e) o' s = Some s'" and "placed sid r um e s"
  shows "placed sid r um e s'"
proof -
  have pl: "places sid r um e (pw_db s) (pw_useCase s)"
    using assms(4) by (simp add: placed_def)
  note step = flush_step_places [OF assms(1,2) pl]
  show ?thesis
  proof (cases "pw_flusher s")
    case (TickFlush ph)
    then have ph: "phase_of sid r um ph"
      using assms(4) by (simp add: placed_defs)
    obtain ph' uc' d' where st: "flush_step (get e) (upsert e) (pw_done s) o' ph (pw_useCase s, pw_db s) = (ph', (uc', d'))"
      by (metis prod_cases3)
    from assms(3,4) TickFlush st step [OF ph st] show ?thesis
      by (cases ph) (auto simp: flusher_step_def placed_defs)
  next
    case (FinalFlush ph)
    then have ph: "phase_of sid r um ph"
      using assms(4) by (simp add: placed_defs)
    obtain ph' uc' d' where st: "flush_step (get e) (upsert e) False o' ph (pw_useCase s, pw_db s) = (ph', (uc', d'))"
      by (metis prod_cases3)
    from assms(3,4) FinalFlush st step [OF ph st] show ?thesis
      by (cases ph) (auto simp: flusher_step_def placed_defs)
  qed (use assms(3) in \<open>simp_all add: flusher_step_def\<close>)
qed

lemma placed_step:
  assumes "good e" and "ev_orders_ok ev" and "pw_step (get e) (upsert e) ev s = Some s'" and "placed sid r um e s"
    and "\<forall>t \<in> set (ev_tokens ev). token_of sid r um t"
  shows "placed sid r um e s'"
proof (cases ev)
  case (SpawnedStep i o')
  with assms placed_spawned show ?thesis by (simp add: pw_step_def)
next
  case (FlusherStep o')
  with assms placed_flusher show ?thesis by (simp add: pw_step_def)
next
  case TickerFires
  with assms(3,4) show ?thesis by (auto simp: pw_step_def placed_defs split: if_splits)
next
  case DoneSeen
  with assms(3,4) show ?thesis by (auto simp: pw_step_def placed_defs split: if_splits)
next
  case Cancel
  with assms(3,4) show ?thesis by (auto simp: pw_step_def placed_defs split: flusher_pc.splits)
qed (use assms placed_consumer [of ev s s'] in \<open>simp_all add: pw_step_def\<close>)

lemma placed_run:
  assumes "good e"
  shows "pw_run (get e) (upsert e) evs s = Some s' \<Longrightarrow> \<forall>ev \<in> set evs. ev_orders_ok ev \<Longrightarrow>
    \<forall>t \<in> set (fetched_tokens evs). token_of sid r um t \<Longrightarrow> placed sid r um e s \<Longrightarrow> placed sid r um e s'"
proof (induction evs arbitrary: s)
  case (Cons ev evs)
  then obtain s1 where "pw_step (get e) (upsert e) ev s = Some s1" "pw_run (get e) (upsert e) evs s1 = Some s'"
    by (auto split: option.splits)
  with Cons placed_step [OF assms] show ?case by auto
qed simp

lemma placed_New:
  "of_request r (rows e d) = [] \<Longrightarrow> placed sid r um e (pw_New d)"
  by (simp add: placed_defs places_def one_chat_def) (simp add: pw_New_def NewPersistSession_def ps_inv_def)

end

section \<open>Reading it\<close>

lemma worker_one_chat:
  assumes "pg_documented db view" and "pg_worker db evs (pw_New d) = Some s" and "\<forall>ev \<in> set evs. ev_orders_ok ev"
    and "\<forall>t \<in> set (fetched_tokens evs). token_of sid r um t" and "of_request r (pv_messages (view d)) = []"
  shows "one_chat sid r um (pv_messages (view (pw_db s)))"
proof -
  have "pg.placed sid r um (db, view) (pw_New d)"
    using assms(5) by (intro pg.placed_New) simp
  then have "pg.placed sid r um (db, view) s"
    using pg.placed_run [of "(db, view)" evs "pw_New d" s] assms(1-4) by simp
  then show ?thesis
    by (simp add: pg.placed_def pg.places_def)
qed

lemma served_history:
  assumes "redis_documented run rview" and "pg_documented db view"
    and "pick api_routes (rq_Method rq) (rq_Path rq) = Some (RouteGetHistoryDB, full, sid)"
    and "api_serve run db jwt_Parse cfg pick latency rq a = (Answered rsp, a')" and "rsp_Status rsp = 200"
  shows "rsp = c_JSON 200 (dtos_json (map message_dto (filter (\<lambda>m. msg_SessionID m = sid) (pv_messages (view (as_db a))))))"
proof (cases "authenticate jwt_Parse (cfg_JWTSecret cfg) (rq_Authorization rq)")
  case (Inl rsp')
  with assms(3,4) have "rsp' = rsp" by (simp add: api_serve_def api_route_def)
  with authenticate_Inl [OF Inl] assms(5) show ?thesis by simp
next
  case (Inr u)
  have "handler_GetHistoryDB run db u sid (as_redis a, as_db a) = (rsp, (as_redis a', as_db a'))"
    using api_serve_next [OF assms(4,3) Inr] by (simp add: api_next_def split: prod.splits)
  from db_history_cases [OF assms(1,2) this] assms(5) show ?thesis by auto
qed

lemma fetched_tokens_flusher [simp]: "fetched_tokens (replicate n (FlusherStep o')) = []"
  by (induction n) simp_all

text \<open>The session's messages have the same rows of the request as the table.\<close>

lemma of_request_session:
  assumes "of_request r ms = chat_rows sid r um reply"
  shows "of_request r (filter (\<lambda>m. msg_SessionID m = sid) ms) = chat_rows sid r um reply"
proof -
  have "of_request r (filter (\<lambda>m. msg_SessionID m = sid) ms) = filter (\<lambda>m. msg_SessionID m = sid) (of_request r ms)"
    by (simp add: conj_commute)
  then show ?thesis
    unfolding assms by (simp add: chat_rows_def)
qed

text \<open>The events of a topic that are for a request are all of its session and message.\<close>

lemma reply_token_of:
  assumes "events_for (cr_RequestID req) ts = reply_events req tokens d" and "t \<in> set ts"
  shows "token_of (cr_SessionID req) (cr_RequestID req) (cr_Content req) t"
proof (cases "te_RequestID t = cr_RequestID req")
  case True
  with assms(2) have "t \<in> set (events_for (cr_RequestID req) ts)" by simp
  then have "t \<in> set (reply_events req tokens d)" by (simp only: assms(1))
  then show ?thesis
    by (auto simp: token_of_def reply_events_def delta_event_def done_event_def split: if_splits)
qed (simp add: token_of_def)

text \<open>The demo reply in the persistence worker, and the history request of the session's owner.\<close>

lemma demo_persisted:
  obtains ps where "\<forall>ev \<in> set (concat (map feed demo_reply)). ev_orders_ok ev" and "Cancel \<notin> set (concat (map feed demo_reply))"
    and "pg_worker ref_db (concat (map feed demo_reply)) (pw_New empty_pg) = Some ps" and "pw_clean ps"
    and "pw_consumer ps = Fetching" and "pw_spawned ps = []" and "pw_flusher ps = Waiting"
    and "\<forall>t \<in> set (fetched_tokens (concat (map feed demo_reply))). event_texts t"
proof -
  let ?evs = "concat (map feed demo_reply)"
  have calm: "\<forall>ev \<in> set ?evs. ev_orders_ok ev" "Cancel \<notin> set ?evs"
    by (auto simp: feed_def)
  obtain ps where ps: "pg_worker ref_db ?evs (pw_New empty_pg) = Some ps" "pw_clean ps" "pw_consumer ps = Fetching"
    "pw_spawned ps = []" "pw_flusher ps = Waiting"
    using feeds_run [of "pw_New empty_pg" demo_reply _ _ "[]"]
    by (simp add: pw_New_def NewPersistSession_def pw_clean_def guarded_def tick_phases_def demo_reply_def reply_events_def)
  have "\<forall>t \<in> set (fetched_tokens ?evs). event_texts t"
    by (simp add: demo_reply_def reply_events_def delta_event_def done_event_def demo_request_def event_texts_def
        utf8_TokenEvent_def to_valid_utf8_ascii demo_texts)
  with that calm ps show thesis by blast
qed

lemma demo_served_history:
  "\<exists>rsp a'. api_serve ref_redis ref_db toy_Parse demo_cfg demo_pick 1 (demo_http ''GET'' ''/history/s1/db'')
      (demo_as\<lparr>as_db := q\<rparr>) = (Answered rsp, a') \<and> rsp_Status rsp = 200"
proof -
  have own: "guardSession ref_redis ''ann'' ''s1'' (as_redis demo_as) = (None, as_redis demo_as)"
    by (simp add: demo_as_def guardSession_def GetOwner_ref lookup_set_key alive_def)
  obtain ms q' where "store_GetHistory ref_db ''s1'' q = (Inr ms, q')"
    using GetHistory_avail [OF ref_db_available, of "''s1''" q] by (auto simp: demo_texts)
  then show ?thesis
    by (simp add: api_serve_def api_route_def demo_http_def demo_picks demo_authenticate api_next_def
        handler_GetHistoryDB_def own)
qed

section \<open>Properties\<close>

text \<open>
  (C21) The table never has half a chat: whatever the schedule of the persistence worker, its shutdown and the
  failures of the database, when all events of a request carry its session and the user's message and it had
  no rows, it has none, or the user's message followed by one reply, in its session.
\<close>

theorem chat_stored_whole:
  assumes "pg_documented db view" and "pg_worker db evs (pw_New d) = Some s" and "\<forall>ev \<in> set evs. ev_orders_ok ev"
    and "\<forall>t \<in> set (fetched_tokens evs). te_RequestID t = r \<longrightarrow> te_SessionID t = sid \<and> te_UserMessage t = um"
    and "of_request r (pv_messages (view d)) = []"
  shows "of_request r (pv_messages (view (pw_db s))) = [] \<or>
    (\<exists>reply. of_request r (pv_messages (view (pw_db s))) =
       [\<lparr>msg_SessionID = sid, msg_RequestID = r, msg_Role = RoleUser, msg_Content = um\<rparr>,
        \<lparr>msg_SessionID = sid, msg_RequestID = r, msg_Role = RoleAssistant, msg_Content = reply\<rparr>])"
  using worker_one_chat [OF assms(1-3), of sid r um] assms(4,5)
  by (simp add: token_of_def one_chat_def chat_rows_def)

text \<open>The worker is stopped in the middle of a flush, which fails: the request has no row.\<close>

theorem chat_stored_whole_witness:
  "\<exists>s. pg_worker ref_db (feed (demo_event ''r1'' ''hey'' False) @ [TickerFires, FlusherStep demo_orders, Cancel, FlusherStep demo_orders])
      (pw_New empty_pg) = Some s \<and> pw_flusher s = TickFlush (AtReturn (Inl CtxErr)) \<and>
     (of_request ''r1'' (pv_messages (ref_view (pw_db s))) = [] \<or>
      (\<exists>reply. of_request ''r1'' (pv_messages (ref_view (pw_db s))) =
         [\<lparr>msg_SessionID = ''s1'', msg_RequestID = ''r1'', msg_Role = RoleUser, msg_Content = ''hi''\<rparr>,
          \<lparr>msg_SessionID = ''s1'', msg_RequestID = ''r1'', msg_Role = RoleAssistant, msg_Content = reply\<rparr>]))"
proof -
  let ?e = "demo_event ''r1'' ''hey'' False"
  let ?evs = "feed ?e @ [TickerFires, FlusherStep demo_orders, Cancel, FlusherStep demo_orders]"
  have u: "utf8_TokenEvent ?e = ?e"
    by (simp add: utf8_TokenEvent_def demo_event_def to_valid_utf8_ascii ascii_def byte_def)
  obtain s where s: "pg_worker ref_db ?evs (pw_New empty_pg) = Some s" and f: "pw_flusher s = TickFlush (AtReturn (Inl CtxErr))"
    by (simp add: feed_run u)
      (simp add: pw_New_def NewPersistSession_def AddToken_def demo_event_def pw_step_def flusher_step_def flush_step_simps)
  have "\<forall>ev \<in> set ?evs. ev_orders_ok ev"
    by (simp add: feed_def)
  moreover have "\<forall>t \<in> set (fetched_tokens ?evs). te_RequestID t = ''r1'' \<longrightarrow> te_SessionID t = ''s1'' \<and> te_UserMessage t = ''hi''"
    by (simp add: u) (simp add: demo_event_def)
  moreover have "of_request ''r1'' (pv_messages (ref_view empty_pg)) = []"
    by (simp add: ref_view_def empty_pg_def)
  ultimately show ?thesis
    using chat_stored_whole [OF ref_db_documented s] s f by blast
qed

end
