(* ===== verification/HubSpec.thy ===== *)
theory HubSpec
  imports TokenHub
begin

text \<open>
  What the token hub promises, without channels: for each registered request a queue of at most 1000
  tokens.  The abstraction forgets the channels nobody can reach through the registry; every
  operation of the hub commutes with it.  Proved for any token hub, then for the code's.
\<close>

section \<open>The abstract hub\<close>

type_synonym queues = "string \<rightharpoonup> PubSubToken list"

definition spec_register :: "string \<Rightarrow> queues \<Rightarrow> queues" where
  "spec_register r q = q(r \<mapsto> [])"

definition spec_cleanup :: "string \<Rightarrow> queues \<Rightarrow> queues" where
  "spec_cleanup r q = q(r := None)"

definition spec_deliver :: "nat \<Rightarrow> string \<Rightarrow> PubSubToken \<Rightarrow> queues \<Rightarrow> queues" where
  "spec_deliver cap r t q =
     (case q r of None \<Rightarrow> q | Some ts \<Rightarrow> if length ts < cap then q(r \<mapsto> ts @ [t]) else q)"

definition spec_take :: "string \<Rightarrow> queues \<Rightarrow> (PubSubToken \<times> queues) option" where
  "spec_take r q = (case q r of Some (t # ts) \<Rightarrow> Some (t, q(r \<mapsto> ts)) | _ \<Rightarrow> None)"

section \<open>Abstraction\<close>

context token_hub
begin

definition queues_of :: "'h \<Rightarrow> queues" where
  "queues_of h r = map_option (hbuf h) (hchan h r)"

lemma queues_register:
  assumes "hinv h" and "hreg r h = (c, h')"
  shows "queues_of h' = spec_register r (queues_of h)"
proof
  fix r'
  have "c \<noteq> c'" if "hchan h r' = Some c'" for c'
    using reg_fresh [OF assms] that by (auto simp: ran_def)
  then show "queues_of h' r' = spec_register r (queues_of h) r'"
    by (cases "hchan h r'")
      (auto simp: queues_of_def spec_register_def reg_chan [OF assms(2)] reg_buf [OF assms])
qed

lemma queues_cleanup: "queues_of (hclean r h) = spec_cleanup r (queues_of h)"
  by (auto simp: queues_of_def spec_cleanup_def clean_chan clean_buf)

lemma queues_update:
  assumes "hinv h" and "hchan h r = Some c" and "hchan h' = hchan h" and "hbuf h' = (hbuf h)(c := ts)"
  shows "queues_of h' = (queues_of h)(r \<mapsto> ts)"
proof
  fix r'
  have "c' \<noteq> c" if "hchan h r' = Some c'" and "r' \<noteq> r" for c'
    using inv_inj [OF assms(1,2), of r'] that by auto
  then show "queues_of h' r' = ((queues_of h)(r \<mapsto> ts)) r'"
    using assms(2) by (cases "hchan h r'") (auto simp: queues_of_def assms(3,4))
qed

lemma queues_deliver:
  assumes "hinv h"
  shows "queues_of (hdeliver r t h) = spec_deliver hcap r t (queues_of h)"
proof (cases "hchan h r")
  case None
  then show ?thesis
    by (simp add: queues_of_def spec_deliver_def deliver_chan deliver_none fun_eq_iff)
next
  case (Some c)
  have "queues_of (hdeliver r t h) = (queues_of h)(r \<mapsto> chan_offer hcap t (hbuf h c))"
    by (rule queues_update [OF assms Some deliver_chan deliver_some [OF Some]])
  with Some show ?thesis
    by (auto simp: queues_of_def spec_deliver_def chan_offer_def fun_eq_iff)
qed

lemma queues_take:
  assumes "hinv h" and "hchan h r = Some c"
  shows "map_option (\<lambda>(t, h'). (t, queues_of h')) (hrecv c h) = spec_take r (queues_of h)"
proof (cases "hbuf h c")
  case Nil
  with assms(2) show ?thesis
    by (simp add: recv_nil spec_take_def queues_of_def)
next
  case (Cons t ts)
  obtain h' where h': "hrecv c h = Some (t, h')" "hbuf h' = (hbuf h)(c := ts)" "hchan h' = hchan h"
    using recv_cons [OF Cons] by blast
  have "queues_of h' = (queues_of h)(r \<mapsto> ts)"
    by (rule queues_update [OF assms h'(3,2)])
  moreover have "queues_of h r = Some (t # ts)"
    by (simp add: queues_of_def assms(2) Cons)
  ultimately show ?thesis
    by (simp add: h'(1) spec_take_def)
qed

lemma queues_detached:
  assumes "c \<notin> ran (hchan h)" and "hrecv c h = Some (t, h')"
  shows "queues_of h' = queues_of h"
proof
  fix r
  obtain ts where ts: "hbuf h' = (hbuf h)(c := ts)" "hchan h' = hchan h"
    using assms(2) by (cases "hbuf h c") (auto simp: recv_nil dest: recv_cons)
  have "c' \<noteq> c" if "hchan h r = Some c'" for c'
    using assms(1) that by (auto simp: ran_def)
  then show "queues_of h' r = queues_of h r"
    by (cases "hchan h r") (auto simp: queues_of_def ts)
qed

end

section \<open>Properties\<close>

text \<open>The abstraction of the code's hub.\<close>

definition hub_queues :: "TokenHub \<Rightarrow> queues" where
  "hub_queues h r = map_option (hub_chans h) (hub_pending h r)"

lemma hub_queues_eq: "hub.queues_of = hub_queues"
  by (simp add: fun_eq_iff hub.queues_of_def hub_queues_def)

text \<open>
  (C8) The hub implements its specification: through the abstraction, which reads the buffer of the channel
  registered for each request, \<open>Register\<close>, the cleanup function, \<open>Deliver\<close> and the handler's
  receive are the operations on bounded queues by request id, a receive on a channel that is no longer
  registered changes no queue, and no queue is longer than 1000.
\<close>

theorem hub_refines_queues:
  assumes "hub_inv h"
  shows "hub_queues (snd (hub_Register r h)) = spec_register r (hub_queues h) \<and>
    hub_queues (hub_cleanup r h) = spec_cleanup r (hub_queues h) \<and>
    hub_queues (hub_Deliver r t h) = spec_deliver 1000 r t (hub_queues h) \<and>
    (\<forall>c. hub_pending h r = Some c \<longrightarrow>
       map_option (\<lambda>(t, h'). (t, hub_queues h')) (hub_recv c h) = spec_take r (hub_queues h)) \<and>
    (\<forall>c t h'. c \<notin> ran (hub_pending h) \<longrightarrow> hub_recv c h = Some (t, h') \<longrightarrow> hub_queues h' = hub_queues h) \<and>
    (\<forall>q. hub_queues h r = Some q \<longrightarrow> length q \<le> 1000)"
proof -
  note [simp] = hub_queues_eq [symmetric]
  have "hub.queues_of (hub_Deliver r t h) = spec_deliver 1000 r t (hub.queues_of h)"
    using hub.queues_deliver [OF assms] by (simp add: hub_capacity_def)
  moreover have "length q \<le> 1000" if "hub.queues_of h r = Some q" for q
    using assms that by (auto simp: hub.queues_of_def hub_inv_def hub_capacity_def)
  ultimately show ?thesis
    using hub.queues_register [OF assms surjective_pairing] hub.queues_cleanup hub.queues_take [OF assms]
      hub.queues_detached
    by simp
qed

theorem hub_refines_queues_witness:
  "hub_queues (hub_Deliver ''r1'' \<lparr>pt_RequestID = ''r1'', pt_Delta = ''a'', pt_Done = False\<rparr>
       (snd (hub_Register ''r1'' hub_New))) ''r1'' =
     Some [\<lparr>pt_RequestID = ''r1'', pt_Delta = ''a'', pt_Done = False\<rparr>]"
proof -
  let ?t = "\<lparr>pt_RequestID = ''r1'', pt_Delta = ''a'', pt_Done = False\<rparr>"
  have "hub_queues (snd (hub_Register ''r1'' hub_New)) = spec_register ''r1'' (hub_queues hub_New)"
    using hub_refines_queues [OF hub_inv_New] by blast
  moreover have "hub_queues (hub_Deliver ''r1'' ?t (snd (hub_Register ''r1'' hub_New))) =
      spec_deliver 1000 ''r1'' ?t (hub_queues (snd (hub_Register ''r1'' hub_New)))"
    using hub_refines_queues [OF hub_inv_snd_Register [OF hub_inv_New]] by blast
  ultimately show ?thesis
    by (simp add: spec_register_def spec_deliver_def)
qed

end
