(* ===== verification/Migrate.thy ===== *)
theory Migrate
  imports MessageStore
begin

text \<open>
  \<open>cmd/migrate/main.go\<close> and the tables it creates: the GORM tags of \<open>store/session_model.go\<close> and
  \<open>store/message_model.go\<close> as data, and \<open>main\<close> over \<open>gorm.Open\<close> and \<open>AutoMigrate\<close> as
  parameters.  \<open>migrate_documented\<close> states what GORM documents of \<open>AutoMigrate\<close>.
\<close>

section \<open>The tables\<close>

record column =
  col_Name :: string
  col_NotNull :: bool
  col_AutoIncrement :: bool

text \<open>Foreign keys: the columns, the table they refer to, and its columns.\<close>

record table =
  tab_Name :: string
  tab_Columns :: "column list"
  tab_PrimaryKey :: "string list"
  tab_Unique :: "(string \<times> string list) list"
  tab_Foreign :: "(string list \<times> string \<times> string list) list"

definition SessionModel_table :: table where
  "SessionModel_table =
     \<lparr>tab_Name = ''sessions'',
      tab_Columns = [\<lparr>col_Name = ''session_id'', col_NotNull = True, col_AutoIncrement = False\<rparr>],
      tab_PrimaryKey = [''session_id''], tab_Unique = [], tab_Foreign = []\<rparr>"

definition MessageModel_table :: table where
  "MessageModel_table =
     \<lparr>tab_Name = ''messages'',
      tab_Columns =
        [\<lparr>col_Name = ''id'', col_NotNull = True, col_AutoIncrement = True\<rparr>,
         \<lparr>col_Name = ''session_id'', col_NotNull = True, col_AutoIncrement = False\<rparr>,
         \<lparr>col_Name = ''request_id'', col_NotNull = True, col_AutoIncrement = False\<rparr>,
         \<lparr>col_Name = ''role'', col_NotNull = True, col_AutoIncrement = False\<rparr>,
         \<lparr>col_Name = ''content'', col_NotNull = True, col_AutoIncrement = False\<rparr>],
      tab_PrimaryKey = [''id''], tab_Unique = [(''idx_request_role'', [''request_id'', ''role''])],
      tab_Foreign = [([''session_id''], ''sessions'', [''session_id''])]\<rparr>"

section \<open>The program\<close>

text \<open>The exit status, and the messages logged: \<open>auto\<close> is \<open>AutoMigrate\<close> on a connection.\<close>

datatype migrate_log = ConnectFailed go_error | MigrationFailed go_error | MigrationCompleted

definition migrate_main ::
  "(string \<Rightarrow> ('d, 'c) go_call) \<Rightarrow> ('c \<Rightarrow> table \<Rightarrow> ('d, unit) go_call) \<Rightarrow> string \<Rightarrow> 'd \<Rightarrow>
   (nat \<times> migrate_log) \<times> 'd" where
  "migrate_main open auto url d =
     (case open url d of
        (Inl err, d1) \<Rightarrow> ((1, ConnectFailed err), d1)
      | (Inr db, d1) \<Rightarrow>
          (case auto db SessionModel_table d1 of
             (Inl err, d2) \<Rightarrow> ((1, MigrationFailed err), d2)
           | (Inr _, d2) \<Rightarrow>
               (case auto db MessageModel_table d2 of
                  (Inl err, d3) \<Rightarrow> ((1, MigrationFailed err), d3)
                | (Inr _, d3) \<Rightarrow> ((0, MigrationCompleted), d3))))"

section \<open>What GORM documents\<close>

text \<open>The tables of a database, by name; a table holds another when it has all its parts.\<close>

type_synonym schema = "string \<rightharpoonup> table"

definition holds :: "table \<Rightarrow> table \<Rightarrow> bool" where
  "holds t u \<longleftrightarrow> tab_Name t = tab_Name u \<and> col_Name ` set (tab_Columns u) \<subseteq> col_Name ` set (tab_Columns t) \<and>
     tab_PrimaryKey t = tab_PrimaryKey u \<and> set (tab_Unique u) \<subseteq> set (tab_Unique t) \<and>
     set (tab_Foreign u) \<subseteq> set (tab_Foreign t)"

definition extends :: "schema \<Rightarrow> schema \<Rightarrow> bool" where
  "extends new old \<longleftrightarrow> (\<forall>n u. old n = Some u \<longrightarrow> (\<exists>t. new n = Some t \<and> holds t u))"

text \<open>
  \<open>AutoMigrate\<close> creates a missing table with its keys and indexes and adds what is missing to one that
  is there with the same primary key, and never drops anything, also when it fails; a foreign key
  needs the table it refers to.  Opening changes no table.
\<close>

definition migrate_documented ::
  "(string \<Rightarrow> ('d, 'c) go_call) \<Rightarrow> ('c \<Rightarrow> table \<Rightarrow> ('d, unit) go_call) \<Rightarrow> ('d \<Rightarrow> schema) \<Rightarrow> bool" where
  "migrate_documented open auto tables \<longleftrightarrow>
     (\<forall>url d r d'. open url d = (r, d') \<longrightarrow> tables d' = tables d) \<and>
     (\<forall>db t d r d'. auto db t d = (r, d') \<longrightarrow> extends (tables d') (tables d)) \<and>
     (\<forall>db t d d'. auto db t d = (Inr (), d') \<longrightarrow> (\<exists>u. tables d' (tab_Name t) = Some u \<and> holds u t) \<and>
        (\<forall>cols ref refcols. (cols, ref, refcols) \<in> set (tab_Foreign t) \<longrightarrow> tables d' ref \<noteq> None))"

lemma holds_refl: "holds t t"
  by (simp add: holds_def)

lemma holds_trans: "holds a b \<Longrightarrow> holds b c \<Longrightarrow> holds a c"
  unfolding holds_def by (simp add: subset_trans) (metis subset_trans)

lemma extends_refl: "extends s s"
  by (simp add: extends_def holds_refl)

lemma extends_trans: "extends a b \<Longrightarrow> extends b c \<Longrightarrow> extends a c"
  unfolding extends_def by (meson holds_trans)

lemma extends_holds: "extends new old \<Longrightarrow> old n = Some u \<Longrightarrow> holds u t \<Longrightarrow> \<exists>v. new n = Some v \<and> holds v t"
  unfolding extends_def by (meson holds_trans)

lemma migrate_documentedD:
  assumes "migrate_documented open auto tables"
  shows "open url d = (r1, d') \<Longrightarrow> tables d' = tables d"
    and "auto db t d = (r2, d') \<Longrightarrow> extends (tables d') (tables d)"
    and "auto db t d = (Inr (), d') \<Longrightarrow> \<exists>u. tables d' (tab_Name t) = Some u \<and> holds u t"
  using assms unfolding migrate_documented_def by blast+

lemma migrate_main_cases:
  assumes "migrate_main open auto url d = ((code, entry), d')"
  obtains (stopped) "code = 1" and "entry \<noteq> MigrationCompleted"
  | (completed) db d1 d2 where "code = 0" and "entry = MigrationCompleted" and "open url d = (Inr db, d1)"
      and "auto db SessionModel_table d1 = (Inr (), d2)" and "auto db MessageModel_table d2 = (Inr (), d')"
  using assms unfolding migrate_main_def by (auto split: prod.splits sum.splits)

lemma migrate_extends:
  assumes "migrate_documented open auto tables" and "migrate_main open auto url d = ((code, entry), d')"
  shows "extends (tables d') (tables d)"
proof -
  note doc = migrate_documentedD [OF assms(1)]
  obtain r1 d1 where o: "open url d = (r1, d1)" by fastforce
  show ?thesis
  proof (cases r1)
    case (Inl e)
    with o assms(2) doc(1) [OF o] show ?thesis by (simp add: migrate_main_def extends_refl)
  next
    case (Inr db)
    obtain r2 d2 where a: "auto db SessionModel_table d1 = (r2, d2)" by fastforce
    have 1: "extends (tables d2) (tables d)"
      using doc(2) [OF a] doc(1) [OF o] by simp
    obtain r3 d3 where b: "auto db MessageModel_table d2 = (r3, d3)" by fastforce
    have "extends (tables d3) (tables d)"
      using extends_trans [OF doc(2) [OF b] 1] .
    with 1 o Inr a b assms(2) show ?thesis
      by (auto simp: migrate_main_def split: sum.splits)
  qed
qed

section \<open>A database that meets the hypotheses\<close>

definition merge_table :: "table \<Rightarrow> table \<Rightarrow> table" where
  "merge_table u t =
     u\<lparr>tab_Columns := tab_Columns u @ filter (\<lambda>c. col_Name c \<notin> col_Name ` set (tab_Columns u)) (tab_Columns t),
       tab_Unique := tab_Unique u @ tab_Unique t, tab_Foreign := tab_Foreign u @ tab_Foreign t\<rparr>"

definition ref_auto :: "unit \<Rightarrow> table \<Rightarrow> (schema, unit) go_call" where
  "ref_auto db t s =
     (if \<exists>(cols, ref, refcols) \<in> set (tab_Foreign t). s ref = None then (Inl (ErrText ''relation does not exist''), s)
      else case s (tab_Name t) of
        None \<Rightarrow> (Inr (), s(tab_Name t \<mapsto> t))
      | Some u \<Rightarrow>
          if tab_PrimaryKey u = tab_PrimaryKey t \<and> tab_Name u = tab_Name t
          then (Inr (), s(tab_Name t \<mapsto> merge_table u t)) else (Inl (ErrText ''primary key differs''), s))"

lemma holds_merge:
  "tab_PrimaryKey u = tab_PrimaryKey t \<Longrightarrow> tab_Name u = tab_Name t \<Longrightarrow> holds (merge_table u t) u \<and> holds (merge_table u t) t"
  by (auto simp: holds_def merge_table_def)

lemma ref_auto_cases:
  assumes "ref_auto db t s = (r, s')"
  obtains (failed) e where "r = Inl e" and "s' = s"
  | (created) u where "r = Inr ()" and "s' = s(tab_Name t \<mapsto> u)" and "holds u t"
      and "\<And>v. s (tab_Name t) = Some v \<Longrightarrow> holds u v"
      and "\<And>cols ref refcols. (cols, ref, refcols) \<in> set (tab_Foreign t) \<Longrightarrow> s ref \<noteq> None"
proof (cases "\<exists>(cols, ref, refcols) \<in> set (tab_Foreign t). s ref = None")
  case True
  with assms have "r = Inl (ErrText ''relation does not exist'')" "s' = s" by (simp_all add: ref_auto_def)
  with failed show thesis by blast
next
  case False
  then have ref: "s ref \<noteq> None" if "(cols, ref, refcols) \<in> set (tab_Foreign t)" for cols ref refcols
    using that by auto
  show thesis
  proof (cases "s (tab_Name t)")
    case None
    with assms False have "r = Inr ()" "s' = s(tab_Name t \<mapsto> t)"
      by (simp_all add: ref_auto_def)
    with created [OF this holds_refl _ ref] None show thesis by simp
  next
    case (Some u)
    show thesis
    proof (cases "tab_PrimaryKey u = tab_PrimaryKey t \<and> tab_Name u = tab_Name t")
      case True
      then have "r = Inr ()" "s' = s(tab_Name t \<mapsto> merge_table u t)"
        using assms False Some by (simp_all add: ref_auto_def)
      with created [OF this _ _ ref] holds_merge True Some show thesis by simp
    next
      case pk: False
      have "r = Inl (ErrText ''primary key differs'')" "s' = s"
        using assms False Some pk by (auto simp: ref_auto_def split: if_splits)
      with failed show thesis by blast
    qed
  qed
qed

lemma ref_auto_documented: "migrate_documented (\<lambda>url s. (Inr (), s)) ref_auto (\<lambda>s. s)"
proof -
  have "extends s' s" if "ref_auto db t s = (r, s')" for db t s r s'
    using that
  proof (cases rule: ref_auto_cases)
    case (created u)
    then show ?thesis by (auto simp: extends_def holds_refl)
  qed (simp add: extends_refl)
  moreover have "(\<exists>u. s' (tab_Name t) = Some u \<and> holds u t) \<and>
      (\<forall>cols ref refcols. (cols, ref, refcols) \<in> set (tab_Foreign t) \<longrightarrow> s' ref \<noteq> None)"
    if "ref_auto db t s = (Inr (), s')" for db t s s'
    using that by (cases rule: ref_auto_cases) auto
  ultimately show ?thesis by (auto simp: migrate_documented_def)
qed

section \<open>Properties\<close>

text \<open>The unique index of a table, and its foreign keys whose target is the other table's primary key.\<close>

definition conflict_target_ok :: "schema \<Rightarrow> string \<Rightarrow> string list \<Rightarrow> bool" where
  "conflict_target_ok s n target \<longleftrightarrow> (\<exists>t. s n = Some t \<and> target \<in> snd ` set (tab_Unique t))"

text \<open>The columns a row of \<open>CreateMessages\<close> and \<open>UpsertMessages\<close> fills, without the generated id.\<close>

definition message_columns :: "string list" where
  "message_columns = [''session_id'', ''request_id'', ''role'', ''content'']"



end
