(* ===== verification/Fleet.thy ===== *)
theory Fleet
  imports RequestPath Config
begin

text \<open>
  Any number of API servers and the streaming worker, as one machine: the servers share Redis and the
  topic of chat requests, each has its own hub and its own advertised gRPC address, and the streaming
  worker finds the server of a request in Redis and sends its tokens there.  A handler's steps are those
  of \<open>ChatStream\<close>, on its server's hub; the streaming worker's are the calls of \<open>Execute\<close> of
  \<open>StreamTokens\<close>, with its lookups in the shared Redis; the gRPC servers receive what is on the
  streams, behind their interceptor.

  Nothing here is assumed of the hub, of the callback store or of what one program does while another
  is between two of its steps: that tokens reach the handler that waits for them is proved from the
  steps of all of them.
\<close>

section \<open>The machine\<close>

text \<open>
  \<open>NewChatStreamHandler\<close>.  The steps of \<open>ChatStream\<close> have its fields as parameters; the machine
  below gives them what the fields hold, of which the configuration gives the address.
\<close>

record ('u, 'o, 'h, 'c, 'l) ChatStreamHandler =
  csh_sendMessage :: 'u
  csh_ownerStore :: 'o
  csh_hub :: 'h
  csh_callbackStore :: 'c
  csh_grpcAddr :: string
  csh_log :: 'l

definition NewChatStreamHandler ::
  "'u \<Rightarrow> 'o \<Rightarrow> 'h \<Rightarrow> 'c \<Rightarrow> Config \<Rightarrow> 'l \<Rightarrow> ('u, 'o, 'h, 'c, 'l) ChatStreamHandler" where
  "NewChatStreamHandler sendMessage ownerStore hub callbackStore cfg log =
     \<lparr>csh_sendMessage = sendMessage, csh_ownerStore = ownerStore, csh_hub = hub, csh_callbackStore = callbackStore,
      csh_grpcAddr = cfg_GRPCAdvertisedAddr cfg, csh_log = log\<rparr>"

text \<open>A posted request: the server that serves it, and what the middleware and the path give it.\<close>

record post =
  po_server :: nat
  po_session :: string
  po_user :: string
  po_body :: string

text \<open>
  What the machine is made of: Redis, the Kafka client, gRPC and what is seen of it, the server that a
  dialled address reaches, the servers' configurations, the streaming worker's, and the requests.
\<close>

record ('d, 'k, 'n, 'c, 't) fleet_env =
  fe_redis :: "'d redis"
  fe_kafka :: "'k kafka"
  fe_lib :: "('n, 'c, 't) grpc_lib"
  fe_view :: "('n, 'c, 't) net_view"
  fe_reach :: "string \<Rightarrow> nat"
  fe_cfg :: "nat \<Rightarrow> Config"
  fe_worker :: Config
  fe_posts :: "nat \<Rightarrow> post"

text \<open>
  \<open>fl_read\<close>: how many messages of a stream its server has received; \<open>fl_over\<close>: the streams whose
  server-side handler has returned with an error.
\<close>

record ('d, 'k, 'n, 'c, 't) fleet =
  fl_redis :: 'd
  fl_kafka :: 'k
  fl_hubs :: "nat \<Rightarrow> TokenHub"
  fl_handlers :: "nat \<Rightarrow> stream_handler"
  fl_streams :: "('c, 't) StreamTokensUseCase"
  fl_net :: 'n
  fl_read :: "'t \<Rightarrow> nat"
  fl_over :: "'t set"

datatype ('d, 'k, 't) fleet_event =
    Handler nat "('d, 'k) stream_event"
  | Executes TokenEvent
  | ExecuteFails TokenEvent
  | ServerRecv 't

fun own :: "('d, 'k) stream_event \<Rightarrow> bool" where
  "own (OtherHub op) = False"
| "own (OtherWorld d k) = False"
| "own ev = True"

abbreviation home :: "('d, 'k, 'n, 'c, 't) fleet_env \<Rightarrow> nat \<Rightarrow> nat" where
  "home E i \<equiv> po_server (fe_posts E i)"

definition advertised :: "('d, 'k, 'n, 'c, 't) fleet_env \<Rightarrow> nat \<Rightarrow> string" where
  "advertised E s = csh_grpcAddr (NewChatStreamHandler () () () () (fe_cfg E s) ())"

definition api_of :: "('d, 'k, 'n, 'c, 't) fleet_env \<Rightarrow> ('d, 'k, 'n, 'c, 't) fleet \<Rightarrow> nat \<Rightarrow> ('d, 'k) api" where
  "api_of E F s = \<lparr>api_redis = fl_redis F, api_kafka = fl_kafka F, api_hub = fl_hubs F s\<rparr>"

definition handler_step ::
  "('d, 'k, 'n, 'c, 't) fleet_env \<Rightarrow> nat \<Rightarrow> ('d, 'k) stream_event \<Rightarrow> ('d, 'k, 'n, 'c, 't) fleet \<Rightarrow>
   ('d, 'k, 'n, 'c, 't) fleet option" where
  "handler_step E i ev F =
     (case stream_step (fe_redis E) (PublishRequest (fe_kafka E)) (advertised E (home E i))
             (po_session (fe_posts E i)) (po_user (fe_posts E i)) ev (sh_pc (fl_handlers F i)) (fl_handlers F i)
             (api_of E F (home E i)) of
        None \<Rightarrow> None
      | Some (h, w) \<Rightarrow>
          Some (F\<lparr>fl_redis := api_redis w, fl_kafka := api_kafka w,
                  fl_hubs := (fl_hubs F)(home E i := api_hub w),
                  fl_handlers := (fl_handlers F)(i := h)\<rparr>))"

text \<open>The streaming worker's world: the network and Redis.\<close>

definition on_net :: "('n, 'a) go_call \<Rightarrow> ('n \<times> 'd, 'a) go_call" where
  "on_net m = (\<lambda>(n, d). case m n of (r, n') \<Rightarrow> (r, (n', d)))"

definition shared_lib :: "('n, 'c, 't) grpc_lib \<Rightarrow> ('n \<times> 'd, 'c, 't) grpc_lib" where
  "shared_lib lib =
     \<lparr>gl_NewClient = (\<lambda>a secret. on_net (gl_NewClient lib a secret)),
      gl_DeliverTokens = (\<lambda>c. on_net (gl_DeliverTokens lib c)),
      gl_Send = (\<lambda>t m. on_net (gl_Send lib t m)),
      gl_CloseAndRecv = (\<lambda>t. on_net (gl_CloseAndRecv lib t))\<rparr>"

definition shared_view :: "('n, 'c, 't) net_view \<Rightarrow> ('n \<times> 'd, 'c, 't) net_view" where
  "shared_view nv =
     \<lparr>nv_conn = nv_conn nv \<circ> fst, nv_addr = nv_addr nv \<circ> fst, nv_log = nv_log nv \<circ> fst, nv_closed = nv_closed nv \<circ> fst\<rparr>"

definition shared_getcb :: "'d redis \<Rightarrow> string \<Rightarrow> ('n \<times> 'd, string) go_call" where
  "shared_getcb run requestID = (\<lambda>(n, d). case GetCallback run requestID d of (r, d') \<Rightarrow> (r, (n, d')))"

definition execute_step ::
  "('d, 'k, 'n, 'c, 't) fleet_env \<Rightarrow> TokenEvent \<Rightarrow> ('d, 'k, 'n, 'c, 't) fleet \<Rightarrow>
   (go_error + unit) \<times> ('d, 'k, 'n, 'c, 't) fleet" where
  "execute_step E tok F =
     (case stream_Execute (shared_lib (fe_lib E)) (shared_getcb (fe_redis E)) tok (fl_streams F, (fl_net F, fl_redis F)) of
        (r, (uc, (n, d))) \<Rightarrow> (r, F\<lparr>fl_streams := uc, fl_net := n, fl_redis := d\<rparr>))"

text \<open>
  A server receives the next message of a stream.  The interceptor decides by the metadata of the call
  alone, so asking it at every message is asking it once.
\<close>

definition metadata_of :: "string \<Rightarrow> string \<Rightarrow> string list" where
  "metadata_of secret k = (case GetRequestMetadata secret k of None \<Rightarrow> [] | Some v \<Rightarrow> [v])"

definition recv_step ::
  "('d, 'k, 'n, 'c, 't) fleet_env \<Rightarrow> 't \<Rightarrow> ('d, 'k, 'n, 'c, 't) fleet \<Rightarrow> ('d, 'k, 'n, 'c, 't) fleet option" where
  "recv_step E t F =
     (case nv_addr (fe_view E) (fl_net F) t of
        None \<Rightarrow> None
      | Some a \<Rightarrow>
          if t \<in> fl_over F \<or> length (nv_log (fe_view E) (fl_net F) t) \<le> fl_read F t then None
          else
            (case StreamAuthInterceptor (cfg_CallbackSecret (fe_cfg E (fe_reach E a)))
                    (Some (metadata_of (cfg_CallbackSecret (fe_worker E))))
                    (DeliverTokens hub_Deliver None [RecvMsg (nv_log (fe_view E) (fl_net F) t ! fl_read F t)])
                    (fl_hubs F (fe_reach E a)) of
               (res, hub) \<Rightarrow>
                 Some (F\<lparr>fl_hubs := (fl_hubs F)(fe_reach E a := hub), fl_read := (fl_read F)(t := Suc (fl_read F t)),
                         fl_over := (if res = None then fl_over F else insert t (fl_over F))\<rparr>)))"

fun fleet_step ::
  "('d, 'k, 'n, 'c, 't) fleet_env \<Rightarrow> ('d, 'k, 't) fleet_event \<Rightarrow> ('d, 'k, 'n, 'c, 't) fleet \<Rightarrow>
   ('d, 'k, 'n, 'c, 't) fleet option" where
  "fleet_step E (Handler i ev) F = (if own ev then handler_step E i ev F else None)"
| "fleet_step E (Executes tok) F = (case execute_step E tok F of (Inr _, F') \<Rightarrow> Some F' | _ \<Rightarrow> None)"
| "fleet_step E (ExecuteFails tok) F = (case execute_step E tok F of (Inl _, F') \<Rightarrow> Some F' | _ \<Rightarrow> None)"
| "fleet_step E (ServerRecv t) F = recv_step E t F"

fun fleet_run where
  "fleet_run E [] F = Some F"
| "fleet_run E (ev # evs) F = (case fleet_step E ev F of None \<Rightarrow> None | Some F' \<Rightarrow> fleet_run E evs F')"

definition fleet_New ::
  "('d, 'k, 'n, 'c, 't) fleet_env \<Rightarrow> 'd \<Rightarrow> 'k \<Rightarrow> 'n \<Rightarrow> ('d, 'k, 'n, 'c, 't) fleet" where
  "fleet_New E d k n =
     \<lparr>fl_redis = d, fl_kafka = k, fl_hubs = (\<lambda>_. hub_New),
      fl_handlers = (\<lambda>i. stream_start (po_body (fe_posts E i))),
      fl_streams = NewStreamTokens (cfg_CallbackSecret (fe_worker E)), fl_net = n,
      fl_read = (\<lambda>_. 0), fl_over = {}\<rparr>"

lemma fleet_run_append:
  "fleet_run E (evs @ evs') F = (case fleet_run E evs F of None \<Rightarrow> None | Some F' \<Rightarrow> fleet_run E evs' F')"
  by (induction evs arbitrary: F) (auto split: option.split)

lemma handler_stepE:
  assumes "handler_step E i ev F = Some F'"
  obtains h w where "stream_step (fe_redis E) (PublishRequest (fe_kafka E)) (advertised E (home E i))
      (po_session (fe_posts E i)) (po_user (fe_posts E i)) ev (sh_pc (fl_handlers F i)) (fl_handlers F i)
      (api_of E F (home E i)) = Some (h, w)"
    and "F' = F\<lparr>fl_redis := api_redis w, fl_kafka := api_kafka w, fl_hubs := (fl_hubs F)(home E i := api_hub w),
      fl_handlers := (fl_handlers F)(i := h)\<rparr>"
  using assms by (auto simp: handler_step_def split: option.splits)

lemma execute_stepE:
  assumes "execute_step E tok F = (r, F')"
  obtains uc n d where "stream_Execute (shared_lib (fe_lib E)) (shared_getcb (fe_redis E)) tok
      (fl_streams F, (fl_net F, fl_redis F)) = (r, (uc, (n, d)))"
    and "F' = F\<lparr>fl_streams := uc, fl_net := n, fl_redis := d\<rparr>"
  using assms by (auto simp: execute_step_def split: prod.splits)

section \<open>Callback addresses in Redis\<close>

text \<open>Every callback address in Redis is the one that \<open>cb\<close> names.\<close>

definition callbacks_ok :: "(string \<Rightarrow> string) \<Rightarrow> redis_view \<Rightarrow> bool" where
  "callbacks_ok cb v \<longleftrightarrow> (\<forall>r a dl. callback_entries v r = Some (a, dl) \<longrightarrow> a = cb r)"

text \<open>The commands of the other gateways, and a lookup, leave at most what was there.\<close>

lemma entries_at_time:
  "rv_now v \<le> t \<Longrightarrow> callback_entries (at_time t v) r = Some x \<Longrightarrow> callback_entries v r = Some x"
  by (auto simp: callback_entries_at_time still_def split: option.splits if_splits)

lemma entries_set_owner [simp]: "callback_entries (set_key (owner_key s) x dl v) = callback_entries v"
  by (rule ext) (simp add: callback_entries_def lookup_set_key)

lemma redis_after:
  assumes "redis_documented run view" and "run c d = (res, d')"
  shows "rv_now (view d) \<le> rv_now (view d')"
    and "view d' = at_time (rv_now (view d')) (view d) \<or>
      (\<exists>reply. redis_effect c (at_time (rv_now (view d')) (view d)) = Some (reply, view d'))"
proof -
  have "rv_now (view d) \<le> rv_now (view d') \<and> (view d' = at_time (rv_now (view d')) (view d) \<or>
      (\<exists>reply. redis_effect c (at_time (rv_now (view d')) (view d)) = Some (reply, view d')))"
  proof (cases res)
    case (Inl e)
    with redis_documented_errD [OF assms(1), of c d e d'] assms(2) show ?thesis by blast
  next
    case (Inr reply)
    with redis_documentedD [OF assms(1), of c d reply d'] assms(2) show ?thesis by blast
  qed
  then show "rv_now (view d) \<le> rv_now (view d')"
    and "view d' = at_time (rv_now (view d')) (view d) \<or>
      (\<exists>reply. redis_effect c (at_time (rv_now (view d')) (view d)) = Some (reply, view d'))"
    by blast+
qed

lemma effect_keeps:
  assumes "redis_effect c w = Some (reply, v)" and "c = RGet k \<or> c = EvalClaimOwner (owner_key s) u ttl"
  shows "callback_entries v = callback_entries w"
  using assms by (auto split: option.splits redis_value.splits prod.splits if_splits)

lemma entries_keep:
  assumes "redis_documented run view" and "run c d = (res, d')" and "c = RGet k \<or> c = EvalClaimOwner (owner_key s) u ttl"
    and "callback_entries (view d') r = Some x"
  shows "callback_entries (view d) r = Some x"
proof -
  have "callback_entries (view d') = callback_entries (at_time (rv_now (view d')) (view d))"
    using redis_after(2) [OF assms(1,2)]
  proof
    assume v: "view d' = at_time (rv_now (view d')) (view d)"
    show ?thesis by (subst v) (rule refl)
  next
    assume "\<exists>reply. redis_effect c (at_time (rv_now (view d')) (view d)) = Some (reply, view d')"
    with effect_keeps [OF _ assms(3)] show ?thesis by blast
  qed
  with entries_at_time [OF redis_after(1) [OF assms(1,2)]] assms(4) show ?thesis by metis
qed

lemma entries_set:
  assumes "redis_documented run view" and "run (RSetEX (callbackKey q) b ttl) d = (res, d')"
    and "callback_entries (view d') r = Some (a, dl)"
  shows "r = q \<and> a = b \<or> callback_entries (view d) r = Some (a, dl)"
proof -
  let ?v = "at_time (rv_now (view d')) (view d)"
  have "callback_entries (set_key (callbackKey q) (VString b) e w) r = Some (a, dl) \<Longrightarrow>
      r = q \<and> a = b \<or> callback_entries w r = Some (a, dl)" for e w
    by (auto simp: callback_entries_def lookup_set_key split: if_splits)
  moreover have "view d' = ?v \<or> view d' = set_key (callbackKey q) (VString b) (Some (rv_now ?v + ttl)) ?v"
    using redis_after(2) [OF assms(1,2)] by (simp only: redis_effect.simps) auto
  ultimately have "r = q \<and> a = b \<or> callback_entries ?v r = Some (a, dl)"
    using assms(3) by metis
  with entries_at_time [OF redis_after(1) [OF assms(1,2)]] show ?thesis by metis
qed

lemma reply_state:
  "reply_int x d = (res, d') \<Longrightarrow> d' = d" "reply_string x d = (res', d') \<Longrightarrow> d' = d"
  by (cases x; simp add: go_return_def go_fail_def)+

lemma GetCallback_keeps:
  assumes "redis_documented run view" and "GetCallback run q d = (res, d')" and "callback_entries (view d') r = Some x"
  shows "callback_entries (view d) r = Some x"
proof -
  have "\<exists>res. run (RGet (callbackKey q)) d = (res, d')"
    using assms(2) by (auto simp: GetCallback_def elim!: go_bind_cases dest: reply_state)
  with entries_keep [OF assms(1) _ _ assms(3)] show ?thesis by blast
qed

lemma ClaimOwner_keeps:
  assumes "redis_documented run view" and "ClaimOwner run s u d = (res, d')" and "callback_entries (view d') r = Some x"
  shows "callback_entries (view d) r = Some x"
proof -
  have "\<exists>res. run (EvalClaimOwner (owner_key s) u owner_ttl) d = (res, d')"
    using assms(2) by (auto simp: ClaimOwner_def go_return_def elim!: go_bind_cases dest: reply_state)
  with entries_keep [OF assms(1) _ _ assms(3)] show ?thesis by blast
qed

lemma SetCallback_sets:
  assumes "redis_documented run view" and "SetCallback run q b d = (res, d')" and "callback_entries (view d') r = Some (a, dl)"
  shows "r = q \<and> a = b \<or> callback_entries (view d) r = Some (a, dl)"
proof -
  have "\<exists>res. run (RSetEX (callbackKey q) b callbackTTL) d = (res, d')"
    using assms(2) by (auto simp: SetCallback_def go_return_def elim!: go_bind_cases)
  with entries_set [OF assms(1) _ assms(3)] show ?thesis by blast
qed

lemma GetCallback_found:
  assumes "redis_documented run view" and "GetCallback run r d = (Inr a, d')"
  shows "\<exists>dl. callback_entries (view d) r = Some (a, dl)"
  using callback.get_ok [of "(run, view)" r d a d'] assms
  by (auto simp: still_def split: option.splits if_splits)

section \<open>Lookups guarded by an invariant\<close>

text \<open>
  \<open>Execute\<close> looks an address up once, at the start.  Where a property of the world holds at that
  moment, the lookup can as well be one that answers only in such worlds.
\<close>

definition guarded_by :: "('w \<Rightarrow> bool) \<Rightarrow> (string \<Rightarrow> ('w, string) go_call) \<Rightarrow> string \<Rightarrow> ('w, string) go_call" where
  "guarded_by I getcb r w = (if I w then getcb r w else (Inl RedisNil, w))"

lemma Execute_guarded:
  assumes "I w"
  shows "stream_Execute lib (guarded_by I getcb) tok (uc, w) = stream_Execute lib getcb tok (uc, w)"
proof -
  have "resolveAddr (guarded_by I getcb) r (uc, w) = resolveAddr getcb r (uc, w)" for r
    using assms by (simp add: resolveAddr_def go_bind_def on_world_def guarded_by_def split: option.split)
  then have "getOrOpenStream lib (guarded_by I getcb) r (uc, w) = getOrOpenStream lib getcb r (uc, w)" for r
    by (simp add: getOrOpenStream_def go_bind_def wrap_err_def split: option.split)
  then show ?thesis by (simp add: stream_Execute_def go_bind_def)
qed

lemma on_net_eq: "on_net m (n, d) = (r, (n', d')) \<longleftrightarrow> m n = (r, n') \<and> d' = d"
  by (auto simp: on_net_def split: prod.split)

lemma shared_documented:
  assumes "grpc_documented lib nv"
  shows "grpc_documented (shared_lib lib) (shared_view nv)"
  unfolding grpc_documented_def split_paired_All same_net_def shared_lib_def shared_view_def grpc_lib.simps net_view.simps
    on_net_eq comp_apply fst_conv
  by (intro conjI allI impI; elim conjE;
      metis grpc_NewClient [OF assms] grpc_DeliverTokens [OF assms] grpc_Send [OF assms] grpc_Close [OF assms]
        grpc_failed [OF assms, unfolded same_net_def])

lemma shared_lookup:
  assumes "redis_documented run view"
  shows "lookup_documented (guarded_by (\<lambda>(n, d). callbacks_ok cb (view d)) (shared_getcb run)) (shared_view nv) cb"
  using GetCallback_found [OF assms]
  by (fastforce simp: lookup_documented_def guarded_by_def shared_getcb_def same_net_def shared_view_def callbacks_ok_def
      split: prod.splits if_splits)

lemma shared_su_inv [simp]: "su_inv (shared_view nv) cb uc (n, d) = su_inv nv cb uc n"
  by (simp add: su_inv_def shared_view_def)

lemma shared_progress [simp]: "progress (shared_view nv) cb r hist over uc (n, d) = progress nv cb r hist over uc n"
  by (simp add: progress_def shared_view_def)

section \<open>What a call of Execute does to its world\<close>

text \<open>A computation that moves its state only along \<open>R\<close>.\<close>

definition moves :: "('s \<Rightarrow> 's \<Rightarrow> bool) \<Rightarrow> ('s, 'a) go_call \<Rightarrow> bool" where
  "moves R m \<longleftrightarrow> (\<forall>x. R x (snd (m x)))"

lemma moves_bind: "transp R \<Longrightarrow> moves R m \<Longrightarrow> (\<And>x. moves R (f x)) \<Longrightarrow> moves R (go_bind m f)"
  unfolding moves_def go_bind_def by (auto split: prod.split sum.split) (metis snd_conv transpD)+

lemma moves_on_world: "(\<And>uc w. R (uc, w) (uc, snd (m w))) \<Longrightarrow> moves R (on_world m)"
  by (auto simp: moves_def on_world_def split: prod.split) (metis snd_conv)

lemma moves_wrap_err: "moves R m \<Longrightarrow> moves R (wrap_err p m)"
  unfolding moves_def wrap_err_def by (auto split: prod.split sum.split) (metis snd_conv)+

lemma moves_update: "(\<And>uc w. R (uc, w) (f uc, w)) \<Longrightarrow> moves R (\<lambda>(uc, w). (r, (f uc, w)))"
  by (simp add: moves_def)

lemma moves_cached:
  "reflp R \<Longrightarrow> moves R m \<Longrightarrow> moves R (\<lambda>(uc, w). case g uc of Some x \<Rightarrow> (h x, (uc, w)) | None \<Rightarrow> m (uc, w))"
  by (auto simp: moves_def reflpD split: option.split)

lemma Execute_moves:
  fixes lib :: "('w, 'c, 't) grpc_lib" and R :: "('c, 't) StreamTokensUseCase \<times> 'w \<Rightarrow> ('c, 't) StreamTokensUseCase \<times> 'w \<Rightarrow> bool"
  assumes R: "reflp R" "transp R"
    and "\<And>uc a s w. R (uc, w) (uc, snd (gl_NewClient lib a s w))" and "\<And>uc c w. R (uc, w) (uc, snd (gl_DeliverTokens lib c w))"
    and "\<And>uc t m w. R (uc, w) (uc, snd (gl_Send lib t m w))" and "\<And>uc t w. R (uc, w) (uc, snd (gl_CloseAndRecv lib t w))"
    and "\<And>uc q w. R (uc, w) (uc, snd (getcb q w))"
    and "\<And>uc w a. R (uc, w) (uc\<lparr>su_addrMap := (su_addrMap uc)(te_RequestID tok \<mapsto> a)\<rparr>, w)"
    and "\<And>uc w a c. R (uc, w) (uc\<lparr>su_connMap := (su_connMap uc)(a \<mapsto> c)\<rparr>, w)"
    and "\<And>uc w t. R (uc, w) (uc\<lparr>su_streams := (su_streams uc)(te_RequestID tok \<mapsto> t)\<rparr>, w)"
    and "\<And>uc w. R (uc, w) (evict (te_RequestID tok) uc, w)"
  shows "moves R (stream_Execute lib getcb tok)"
proof -
  note m = moves_bind [OF R(2)] moves_wrap_err moves_on_world moves_update
  have "moves R (resolveAddr getcb (te_RequestID tok))"
    unfolding resolveAddr_def by (intro moves_cached [OF R(1)] m assms)
  moreover have "moves R (getConn lib a)" for a
  proof -
    have "moves R (go_bind (on_world (gl_NewClient lib a secret)) (\<lambda>conn (uc, w).
        (Inr conn, (uc\<lparr>su_connMap := (su_connMap uc)(a \<mapsto> conn)\<rparr>, w))))" for secret
      by (intro m assms)
    then show ?thesis
      by (auto simp: moves_def getConn_def reflpD [OF R(1)] split: option.split)
  qed
  ultimately have "moves R (getOrOpenStream lib getcb (te_RequestID tok))"
    unfolding getOrOpenStream_def by (intro moves_cached [OF R(1)] m assms)
  moreover have "moves R (\<lambda>(uc, w). (case gl_Send lib stream (message_of tok) w of
          (Inl e, w') \<Rightarrow> (Inl (Wrap ''send failed'' e), (evict (te_RequestID tok) uc, w'))
        | (Inr _, w') \<Rightarrow>
            if te_Done tok then
              (case gl_CloseAndRecv lib stream w' of (_, w'') \<Rightarrow> (Inr (), (evict (te_RequestID tok) uc, w'')))
            else (Inr (), (uc, w'))))" for stream
  proof (unfold moves_def, intro allI)
    fix x :: "('c, 't) StreamTokensUseCase \<times> 'w"
    obtain uc w where x: "x = (uc, w)" by (cases x)
    obtain y w2 where snd: "gl_Send lib stream (message_of tok) w = (y, w2)" by fastforce
    obtain z w3 where cl: "gl_CloseAndRecv lib stream w2 = (z, w3)" by fastforce
    have "R (uc, w) (uc, w2)" and "R (uc, w2) (uc, w3)"
      using assms(5) [of uc w stream "message_of tok"] assms(6) [of uc w2 stream] snd cl by simp_all
    with assms(11) transpD [OF R(2)]
    have "R (uc, w) (uc, w2)" "R (uc, w) (evict (te_RequestID tok) uc, w2)" "R (uc, w) (evict (te_RequestID tok) uc, w3)"
      by blast+
    then show "R x (snd ((\<lambda>(uc, w). (case gl_Send lib stream (message_of tok) w of
          (Inl e, w') \<Rightarrow> (Inl (Wrap ''send failed'' e), (evict (te_RequestID tok) uc, w'))
        | (Inr _, w') \<Rightarrow>
            if te_Done tok then
              (case gl_CloseAndRecv lib stream w' of (_, w'') \<Rightarrow> (Inr (), (evict (te_RequestID tok) uc, w'')))
            else (Inr (), (uc, w')))) x))"
      by (cases y) (simp_all add: x snd cl)
  qed
  ultimately show ?thesis
    unfolding stream_Execute_def by (intro moves_bind [OF R(2)])
qed

text \<open>Here: the callback addresses in Redis get fewer at most.\<close>

definition fewer_callbacks :: "('d \<Rightarrow> redis_view) \<Rightarrow> 'u \<times> 'n \<times> 'd \<Rightarrow> 'u \<times> 'n \<times> 'd \<Rightarrow> bool" where
  "fewer_callbacks view x x' \<longleftrightarrow>
     (\<forall>r y. callback_entries (view (snd (snd x'))) r = Some y \<longrightarrow> callback_entries (view (snd (snd x))) r = Some y)"

lemma fewer_callbacks_order: "reflp (fewer_callbacks view)" "transp (fewer_callbacks view)"
  by (auto simp: reflp_def transp_def fewer_callbacks_def)

lemma Execute_callbacks:
  assumes "redis_documented run view"
    and "stream_Execute (shared_lib lib) (shared_getcb run) tok (uc, (n, d)) = (res, (uc', (n', d')))"
    and "callback_entries (view d') r = Some y"
  shows "callback_entries (view d) r = Some y"
proof -
  have "moves (fewer_callbacks view) (stream_Execute (shared_lib lib) (shared_getcb run) tok)"
    by (rule Execute_moves [OF fewer_callbacks_order])
      (auto simp: shared_lib_def shared_getcb_def on_net_def fewer_callbacks_def split: prod.splits
        dest: GetCallback_keeps [OF assms(1)])
  then have "fewer_callbacks view (uc, (n, d)) (uc', (n', d'))"
    using assms(2) unfolding moves_def by (metis snd_conv)
  with assms(3) show ?thesis unfolding fewer_callbacks_def snd_conv by blast
qed

section \<open>Routing, under every schedule\<close>

text \<open>The request id and the channel a handler holds from its registration to its end.\<close>

fun held :: "stream_pc \<Rightarrow> (string \<times> chan_ref) option" where
  "held (SSetCallback content r ch) = Some (r, ch)"
| "held (SSend content r ch) = Some (r, ch)"
| "held (SStreaming r ch) = Some (r, ch)"
| "held _ = None"

fun registration :: "('d, 'k, 't) fleet_event \<Rightarrow> (nat \<times> string) list" where
  "registration (Handler i (HRegister r)) = [(i, r)]"
| "registration _ = []"

definition registered :: "('d, 'k, 't) fleet_event list \<Rightarrow> (nat \<times> string) list" where
  "registered evs = concat (map registration evs)"

lemma registered_simps [simp]:
  "registered [] = []" "registered (ev # evs) = registration ev @ registered evs"
  "registered (evs @ evs') = registered evs @ registered evs'"
  by (simp_all add: registered_def)

lemma held_step:
  assumes "stream_step run publish addr sid uid ev (sh_pc h) h w = Some (h', w')" and "own ev"
    and "held (sh_pc h') = Some (r, ch)"
  shows "held (sh_pc h) = Some (r, ch) \<or> ev = HRegister r \<and> ch = hub_next (api_hub w)"
  using assms
  by (cases "sh_pc h"; cases ev)
    (auto simp: returned_def hub_Register_def Let_def split: prod.splits sum.splits option.splits if_splits)

lemma entries_step:
  assumes "redis_documented run view" and "stream_step run publish addr sid uid ev (sh_pc h) h w = Some (h', w')"
    and "own ev" and "callback_entries (view (api_redis w')) r = Some (a, dl)"
  shows "callback_entries (view (api_redis w)) r = Some (a, dl) \<or> (\<exists>ch. held (sh_pc h) = Some (r, ch)) \<and> a = addr"
  using assms(2-)
  by (cases "sh_pc h"; cases ev)
    (auto split: prod.splits sum.splits option.splits if_splits
      dest: ClaimOwner_keeps [OF assms(1)] SetCallback_sets [OF assms(1)])

definition well_routed ::
  "('d, 'k, 'n, 'c, 't) fleet_env \<Rightarrow> ('d \<Rightarrow> redis_view) \<Rightarrow> (string \<Rightarrow> string) \<Rightarrow> ('d, 'k, 'n, 'c, 't) fleet \<Rightarrow> bool" where
  "well_routed E view cb F \<longleftrightarrow> callbacks_ok cb (view (fl_redis F)) \<and> su_inv (fe_view E) cb (fl_streams F) (fl_net F) \<and>
     (\<forall>i r ch. held (sh_pc (fl_handlers F i)) = Some (r, ch) \<longrightarrow> cb r = advertised E (home E i))"

lemma execute_guarded:
  assumes "execute_step E tok F = (res, F')" and "well_routed E view cb F"
  obtains uc n d where "stream_Execute (shared_lib (fe_lib E))
      (guarded_by (\<lambda>(n, d). callbacks_ok cb (view d)) (shared_getcb (fe_redis E))) tok
      (fl_streams F, (fl_net F, fl_redis F)) = (res, (uc, (n, d)))"
    and "F' = F\<lparr>fl_streams := uc, fl_net := n, fl_redis := d\<rparr>"
    and "su_inv (shared_view (fe_view E)) cb (fl_streams F) (fl_net F, fl_redis F)"
  using assms by (elim execute_stepE) (simp add: Execute_guarded well_routed_def)

lemma execute_routed:
  assumes "redis_documented (fe_redis E) view" and "grpc_documented (fe_lib E) (fe_view E)"
    and "execute_step E tok F = (res, F')" and "well_routed E view cb F"
  shows "well_routed E view cb F'"
proof -
  obtain uc n d where x: "stream_Execute (shared_lib (fe_lib E)) (shared_getcb (fe_redis E)) tok
      (fl_streams F, (fl_net F, fl_redis F)) = (res, (uc, (n, d)))"
    and F': "F' = F\<lparr>fl_streams := uc, fl_net := n, fl_redis := d\<rparr>"
    using execute_stepE [OF assms(3)] .
  have "callbacks_ok cb (view (fl_redis F'))"
    using assms(4) Execute_callbacks [OF assms(1) x] unfolding well_routed_def callbacks_ok_def by (auto simp: F')
  moreover obtain uc' n' d' where y: "stream_Execute (shared_lib (fe_lib E))
      (guarded_by (\<lambda>(n, d). callbacks_ok cb (view d)) (shared_getcb (fe_redis E))) tok
      (fl_streams F, (fl_net F, fl_redis F)) = (res, (uc', (n', d')))"
    and F'': "F' = F\<lparr>fl_streams := uc', fl_net := n', fl_redis := d'\<rparr>"
    and inv: "su_inv (shared_view (fe_view E)) cb (fl_streams F) (fl_net F, fl_redis F)"
    using execute_guarded [OF assms(3,4)] .
  have "su_inv (fe_view E) cb (fl_streams F') (fl_net F')"
    using stream_Execute_inv [OF shared_documented [OF assms(2)] shared_lookup [OF assms(1)] inv y] by (simp add: F'')
  moreover have "fl_handlers F' = fl_handlers F" by (simp add: F')
  ultimately show ?thesis
    using assms(4) by (simp add: well_routed_def)
qed

lemma handler_routed:
  assumes "redis_documented (fe_redis E) view" and "handler_step E i ev F = Some F'" and "own ev"
    and "\<And>r. ev = HRegister r \<Longrightarrow> cb r = advertised E (home E i)" and "well_routed E view cb F"
  shows "well_routed E view cb F'"
proof -
  obtain h w where s: "stream_step (fe_redis E) (PublishRequest (fe_kafka E)) (advertised E (home E i))
      (po_session (fe_posts E i)) (po_user (fe_posts E i)) ev (sh_pc (fl_handlers F i)) (fl_handlers F i)
      (api_of E F (home E i)) = Some (h, w)"
    and F': "F' = F\<lparr>fl_redis := api_redis w, fl_kafka := api_kafka w, fl_hubs := (fl_hubs F)(home E i := api_hub w),
      fl_handlers := (fl_handlers F)(i := h)\<rparr>"
    using handler_stepE [OF assms(2)] .
  have held: "cb r = advertised E (home E j)" if "held (sh_pc (fl_handlers F j)) = Some (r, ch)" for j r ch
    using assms(5) that unfolding well_routed_def by blast
  have "cb r = advertised E (home E i)" if "held (sh_pc h) = Some (r, ch)" for r ch
    using held_step [OF s assms(3) that] held assms(4) by blast
  moreover have "callbacks_ok cb (view (api_redis w))"
    using entries_step [OF assms(1) s assms(3)] held assms(5)
    by (fastforce simp: callbacks_ok_def well_routed_def api_of_def)
  ultimately show ?thesis
    using assms(5) held by (auto simp: F' well_routed_def)
qed

lemma recv_frame:
  "recv_step E t F = Some F' \<Longrightarrow> fl_redis F' = fl_redis F \<and> fl_kafka F' = fl_kafka F \<and>
     fl_handlers F' = fl_handlers F \<and> fl_streams F' = fl_streams F \<and> fl_net F' = fl_net F"
  by (auto simp: recv_step_def split: option.splits if_splits prod.splits)

lemma fleet_step_routed:
  assumes "redis_documented (fe_redis E) view" and "grpc_documented (fe_lib E) (fe_view E)"
    and "fleet_step E ev F = Some F'" and "\<And>i r. (i, r) \<in> set (registration ev) \<Longrightarrow> cb r = advertised E (home E i)"
    and "well_routed E view cb F"
  shows "well_routed E view cb F'"
proof (cases ev)
  case (Handler i ev')
  with assms handler_routed [OF assms(1), of i ev' F F' cb] show ?thesis by (auto split: if_splits)
next
  case (ServerRecv t)
  with assms(3,5) recv_frame [of E t F F'] show ?thesis by (simp add: well_routed_def)
qed (use assms(3,5) execute_routed [OF assms(1,2)] in \<open>auto split: prod.splits sum.splits\<close>)

lemma fleet_run_routed:
  assumes "redis_documented (fe_redis E) view" and "grpc_documented (fe_lib E) (fe_view E)"
  shows "fleet_run E evs F = Some F' \<Longrightarrow> (\<And>i r. (i, r) \<in> set (registered evs) \<Longrightarrow> cb r = advertised E (home E i)) \<Longrightarrow>
    well_routed E view cb F \<Longrightarrow> well_routed E view cb F'"
proof (induction evs arbitrary: F)
  case (Cons ev evs)
  then obtain F1 where "fleet_step E ev F = Some F1" and r: "fleet_run E evs F1 = Some F'"
    by (auto split: option.splits)
  from fleet_step_routed [OF assms this(1)] Cons.prems have "well_routed E view cb F1" by simp
  with Cons.IH [OF r] Cons.prems(2) show ?case by simp
qed simp

text \<open>Where a run registers a request: the server that answers it.\<close>

definition callback_home ::
  "('d, 'k, 'n, 'c, 't) fleet_env \<Rightarrow> redis_view \<Rightarrow> (nat \<times> string) list \<Rightarrow> string \<Rightarrow> string" where
  "callback_home E v regs r =
     (case map_of (map prod.swap regs) r of
        Some i \<Rightarrow> advertised E (home E i)
      | None \<Rightarrow> (case callback_entries v r of Some (a, dl) \<Rightarrow> a | None \<Rightarrow> []))"

lemma callback_home_registered:
  assumes "distinct (map snd regs)" and "(i, r) \<in> set regs"
  shows "callback_home E v regs r = advertised E (home E i)"
proof -
  have "map_of (map prod.swap regs) r = Some i"
    using assms by (intro map_of_is_SomeI) (force simp: comp_def)+
  then show ?thesis by (simp add: callback_home_def)
qed

lemma held_start [simp]: "held (sh_pc (stream_start body)) = None"
  by (simp add: stream_start_def returned_def split: option.split)

lemma fleet_New_routed:
  assumes "\<And>i r. (i, r) \<in> set regs \<Longrightarrow> callback_entries (view d) r = None"
  shows "well_routed E view (callback_home E (view d) regs) (fleet_New E d k n)"
proof -
  have "a = callback_home E (view d) regs r" if "callback_entries (view d) r = Some (a, dl)" for r a dl
  proof -
    have "map_of (map prod.swap regs) r = None"
      using that assms by (fastforce simp: map_of_eq_None_iff)
    with that show ?thesis by (simp add: callback_home_def)
  qed
  then show ?thesis by (simp add: well_routed_def callbacks_ok_def fleet_New_def)
qed

section \<open>What is on the streams\<close>

definition about :: "string \<Rightarrow> TokenMessage list \<Rightarrow> TokenMessage list" where
  "about r ms = filter (\<lambda>m. tm_RequestId m = r) ms"

lemma about_simps [simp]:
  "about r [] = []" "about r (m # ms) = (if tm_RequestId m = r then m # about r ms else about r ms)"
  "about r (ms @ ms') = about r ms @ about r ms'"
  by (simp_all add: about_def)

lemma about_message [simp]: "tm_RequestId (message_of tok) = te_RequestID tok"
  by (simp add: message_of_def)

text \<open>At most one stream has messages of the request, and none before the first was sent.\<close>

definition sole :: "('n, 'c, 't) net_view \<Rightarrow> string \<Rightarrow> TokenMessage list \<Rightarrow> 'n \<Rightarrow> bool" where
  "sole nv r hist n \<longleftrightarrow>
     (\<forall>t. nv_addr nv n t \<noteq> None \<longrightarrow> about r (nv_log nv n t) \<noteq> [] \<longrightarrow> hist \<noteq> []) \<and>
     (\<forall>t t'. nv_addr nv n t \<noteq> None \<longrightarrow> nv_addr nv n t' \<noteq> None \<longrightarrow> about r (nv_log nv n t) \<noteq> [] \<longrightarrow>
        about r (nv_log nv n t') \<noteq> [] \<longrightarrow> t = t')"

lemma sole_step:
  assumes "grpc_documented lib nv" and "lookup_documented getcb nv cb" and "su_inv nv cb uc w"
    and "stream_Execute lib getcb tok (uc, w) = (Inr (), (uc', w'))"
    and "progress nv cb r hist over uc w" and "te_RequestID tok = r \<longrightarrow> \<not> over"
    and "about r hist = hist" and "sole nv r hist w"
  shows "sole nv r (hist @ (if te_RequestID tok = r then [message_of tok] else [])) w'"
proof -
  obtain t where st: "su_streams uc (te_RequestID tok) = Some t \<and>
        nv_log nv w' = (nv_log nv w)(t := nv_log nv w t @ [message_of tok]) \<or>
      su_streams uc (te_RequestID tok) = None \<and> nv_addr nv w t = None \<and>
        nv_log nv w' = (nv_log nv w)(t := [message_of tok])"
    and addr: "nv_addr nv w' = (nv_addr nv w)(t \<mapsto> cb (te_RequestID tok))"
    by (rule stream_Execute_Inr [OF assms(1-4)]) (rule that, auto)
  have known: "nv_addr nv w t \<noteq> None" if "su_streams uc (te_RequestID tok) = Some t"
    using that assms(3) by (auto simp: su_inv_def)
  show ?thesis
  proof (cases "te_RequestID tok = r")
    case True
    have others: "about r (nv_log nv w t') = []" if "t' \<noteq> t" "nv_addr nv w t' \<noteq> None" for t'
    proof (cases "su_streams uc r")
      case None
      with assms(5,6) True have "hist = []" by (auto simp: progress_def)
      with assms(8) that show ?thesis by (auto simp: sole_def)
    next
      case (Some u)
      with st True have u: "u = t" by auto
      with assms(5,6) True Some have "hist \<noteq> []" "nv_log nv w t = hist" by (auto simp: progress_def)
      with assms(7) have "about r (nv_log nv w t) \<noteq> []" by simp
      with that known Some u True assms(8) show ?thesis by (auto simp: sole_def)
    qed
    have "nv_log nv w' t' = nv_log nv w t'" and "nv_addr nv w' t' = nv_addr nv w t'" if "t' \<noteq> t" for t'
      using that st addr by auto
    with True others show ?thesis by (auto simp: sole_def) metis+
  next
    case False
    have "about r (nv_log nv w' t') \<noteq> [] \<Longrightarrow> nv_addr nv w' t' \<noteq> None \<Longrightarrow>
        about r (nv_log nv w t') \<noteq> [] \<and> nv_addr nv w t' \<noteq> None" for t'
      using st addr False known by (auto split: if_splits)
    with assms(8) False show ?thesis unfolding sole_def by (simp, metis)
  qed
qed

lemma shared_sole [simp]: "sole (shared_view nv) r hist (n, d) = sole nv r hist n"
  by (simp add: sole_def shared_view_def)

text \<open>The tokens executed without an error, and those of a request.\<close>

fun execution :: "('d, 'k, 't) fleet_event \<Rightarrow> TokenEvent list" where
  "execution (Executes tok) = [tok]"
| "execution _ = []"

definition executions :: "('d, 'k, 't) fleet_event list \<Rightarrow> TokenEvent list" where
  "executions evs = concat (map execution evs)"

definition executed :: "string \<Rightarrow> ('d, 'k, 't) fleet_event list \<Rightarrow> TokenEvent list" where
  "executed r evs = filter (\<lambda>k. te_RequestID k = r) (executions evs)"

lemma executed_simps [simp]:
  "executed r [] = []" "executed r (ev # evs) = filter (\<lambda>k. te_RequestID k = r) (execution ev) @ executed r evs"
  "executed r (evs @ evs') = executed r evs @ executed r evs'"
  by (simp_all add: executed_def executions_def)

text \<open>The state of a request's stream in the machine.\<close>

definition tracked ::
  "('d, 'k, 'n, 'c, 't) fleet_env \<Rightarrow> ('d \<Rightarrow> redis_view) \<Rightarrow> (string \<Rightarrow> string) \<Rightarrow> string \<Rightarrow> TokenMessage list \<Rightarrow> bool \<Rightarrow>
   ('d, 'k, 'n, 'c, 't) fleet \<Rightarrow> bool" where
  "tracked E view cb r hist over F \<longleftrightarrow> well_routed E view cb F \<and> about r hist = hist \<and>
     progress (fe_view E) cb r hist over (fl_streams F) (fl_net F) \<and> sole (fe_view E) r hist (fl_net F)"

lemma execute_tracked:
  assumes "redis_documented (fe_redis E) view" and "grpc_documented (fe_lib E) (fe_view E)"
    and "execute_step E tok F = (Inr (), F')" and "tracked E view cb r hist over F" and "te_RequestID tok = r \<longrightarrow> \<not> over"
  shows "tracked E view cb r (hist @ (if te_RequestID tok = r then [message_of tok] else []))
    (over \<or> te_RequestID tok = r \<and> te_Done tok) F'"
proof -
  have t: "well_routed E view cb F" "about r hist = hist" "progress (fe_view E) cb r hist over (fl_streams F) (fl_net F)"
    "sole (fe_view E) r hist (fl_net F)"
    using assms(4) by (simp_all add: tracked_def)
  obtain uc n d where F': "F' = F\<lparr>fl_streams := uc, fl_net := n, fl_redis := d\<rparr>"
    and "stream_Execute (shared_lib (fe_lib E)) (guarded_by (\<lambda>(n, d). callbacks_ok cb (view d)) (shared_getcb (fe_redis E))) tok
      (fl_streams F, (fl_net F, fl_redis F)) = (Inr (), (uc, (n, d)))"
    and "su_inv (shared_view (fe_view E)) cb (fl_streams F) (fl_net F, fl_redis F)"
    using execute_guarded [OF assms(3) t(1)] .
  note e = shared_documented [OF assms(2)] shared_lookup [OF assms(1)] this(3,2)
  show ?thesis
    using progress_step [OF e, of r hist over] sole_step [OF e, of r hist over] t assms(5)
      execute_routed [OF assms(1-3) t(1)] by (simp add: F' tracked_def)
qed

lemma tracked_cong:
  "tracked E view cb r hist over F \<Longrightarrow> well_routed E view cb F' \<Longrightarrow> fl_streams F' = fl_streams F \<Longrightarrow> fl_net F' = fl_net F \<Longrightarrow>
     tracked E view cb r hist over F'"
  by (simp add: tracked_def)

lemma handler_frame:
  "handler_step E i ev F = Some F' \<Longrightarrow> fl_streams F' = fl_streams F \<and> fl_net F' = fl_net F \<and> fl_read F' = fl_read F \<and>
     fl_over F' = fl_over F \<and> (\<forall>j. j \<noteq> i \<longrightarrow> fl_handlers F' j = fl_handlers F j) \<and>
     (\<forall>s. s \<noteq> home E i \<longrightarrow> fl_hubs F' s = fl_hubs F s)"
  by (auto elim!: handler_stepE)

lemma execute_frame:
  "execute_step E tok F = (r, F') \<Longrightarrow> fl_kafka F' = fl_kafka F \<and> fl_hubs F' = fl_hubs F \<and> fl_handlers F' = fl_handlers F \<and>
     fl_read F' = fl_read F \<and> fl_over F' = fl_over F"
  by (auto elim!: execute_stepE)

lemma fleet_step_tracked:
  assumes "redis_documented (fe_redis E) view" and "grpc_documented (fe_lib E) (fe_view E)"
    and "fleet_step E ev F = Some F'" and "\<And>i r. (i, r) \<in> set (registration ev) \<Longrightarrow> cb r = advertised E (home E i)"
    and "\<And>tok. ev \<noteq> ExecuteFails tok" and "tracked E view cb r hist over F" and "executed r [ev] \<noteq> [] \<longrightarrow> \<not> over"
  shows "tracked E view cb r (hist @ map message_of (executed r [ev]))
    (over \<or> (\<exists>k \<in> set (executed r [ev]). te_Done k)) F'"
proof -
  have "well_routed E view cb F'"
    using fleet_step_routed [OF assms(1-4)] assms(6) by (simp add: tracked_def)
  note keep = tracked_cong [OF assms(6) this]
  show ?thesis
  proof (cases ev)
    case (Handler i e)
    with assms(3) handler_frame [of E i e F F'] keep show ?thesis by (auto split: if_splits)
  next
    case (Executes tok)
    with assms(3) have "execute_step E tok F = (Inr (), F')"
      by (auto split: prod.splits sum.splits)
    from execute_tracked [OF assms(1,2) this assms(6)] assms(7) Executes show ?thesis by auto
  next
    case (ServerRecv t)
    with assms(3) recv_frame [of E t F F'] keep show ?thesis by simp
  qed (use assms(5) in simp)
qed

section \<open>Runs\<close>

text \<open>
  A run from the start of the servers and the streaming worker: request ids are never drawn twice and
  are new to Redis, the network has no streams yet, and no call of \<open>Execute\<close> fails.
\<close>

definition fleet_started ::
  "('d, 'k, 'n, 'c, 't) fleet_env \<Rightarrow> ('d \<Rightarrow> redis_view) \<Rightarrow> 'd \<Rightarrow> 'k \<Rightarrow> 'n \<Rightarrow> ('d, 'k, 't) fleet_event list \<Rightarrow>
   ('d, 'k, 'n, 'c, 't) fleet \<Rightarrow> bool" where
  "fleet_started E view d k n evs F \<longleftrightarrow> fleet_run E evs (fleet_New E d k n) = Some F \<and>
     distinct (map snd (registered evs)) \<and> (\<forall>(i, r) \<in> set (registered evs). callback_entries (view d) r = None) \<and>
     (\<forall>t. nv_addr (fe_view E) n t = None)"

definition fleet_ran ::
  "('d, 'k, 'n, 'c, 't) fleet_env \<Rightarrow> ('d \<Rightarrow> redis_view) \<Rightarrow> 'd \<Rightarrow> 'k \<Rightarrow> 'n \<Rightarrow> ('d, 'k, 't) fleet_event list \<Rightarrow>
   ('d, 'k, 'n, 'c, 't) fleet \<Rightarrow> bool" where
  "fleet_ran E view d k n evs F \<longleftrightarrow> fleet_started E view d k n evs F \<and> (\<forall>tok. ExecuteFails tok \<notin> set evs)"

lemma fleet_startedD:
  assumes "fleet_started E view d k n evs F"
  shows "fleet_run E evs (fleet_New E d k n) = Some F" and "distinct (map snd (registered evs))"
    and "\<And>i r. (i, r) \<in> set (registered evs) \<Longrightarrow> callback_entries (view d) r = None"
    and "\<And>t. nv_addr (fe_view E) n t = None"
    and "\<And>i r. (i, r) \<in> set (registered evs) \<Longrightarrow>
      callback_home E (view d) (registered evs) r = advertised E (home E i)"
  using assms callback_home_registered by (auto simp: fleet_started_def)

end
