(* ===== verification/FleetReply.thy ===== *)
theory FleetReply
  imports Fleet
begin

text \<open>
  The way of the tokens through the machine of \<open>Fleet\<close>: from the calls of \<open>Execute\<close> over the
  request's stream and the hub of its server to the response, under every schedule of handlers, calls
  and receives.  First what every step keeps, then a request from its registration until everything
  has come to rest, and what comes of it when the server's address leads somewhere else.
\<close>

section \<open>Before the registration\<close>

text \<open>As long as nobody has set a callback address for a request, no token of it can be executed.\<close>

definition unheard :: "('d \<Rightarrow> redis_view) \<Rightarrow> string \<Rightarrow> ('d, 'k, 'n, 'c, 't) fleet \<Rightarrow> bool" where
  "unheard view r F \<longleftrightarrow> callback_entries (view (fl_redis F)) r = None \<and> su_addrMap (fl_streams F) r = None \<and>
     su_streams (fl_streams F) r = None"

definition same_request :: "string \<Rightarrow> ('c, 't) StreamTokensUseCase \<times> 'w \<Rightarrow> ('c, 't) StreamTokensUseCase \<times> 'w \<Rightarrow> bool" where
  "same_request r x x' \<longleftrightarrow> su_streams (fst x') r = su_streams (fst x) r \<and> su_addrMap (fst x') r = su_addrMap (fst x) r"

lemma same_request_order: "reflp (same_request r)" "transp (same_request r)"
  by (auto simp: reflp_def transp_def same_request_def)

lemma Execute_other:
  assumes "stream_Execute lib getcb tok (uc, w) = (res, (uc', w'))" and "te_RequestID tok \<noteq> r"
  shows "su_streams uc' r = su_streams uc r" and "su_addrMap uc' r = su_addrMap uc r"
proof -
  have "moves (same_request r) (stream_Execute lib getcb tok)"
    by (rule Execute_moves [OF same_request_order]) (use assms(2) in \<open>auto simp: same_request_def evict_def\<close>)
  then have "same_request r (uc, w) (uc', w')"
    using assms(1) unfolding moves_def by (metis snd_conv)
  then show "su_streams uc' r = su_streams uc r" and "su_addrMap uc' r = su_addrMap uc r"
    by (simp_all add: same_request_def)
qed

lemma Execute_unheard:
  assumes "redis_documented run view" and "stream_Execute (shared_lib lib) (shared_getcb run) tok (uc, (n, d)) = (Inr (), x)"
    and "callback_entries (view d) r = None" and "su_addrMap uc r = None" and "su_streams uc r = None"
  shows "te_RequestID tok \<noteq> r"
proof
  assume r: "te_RequestID tok = r"
  obtain res d' where g: "GetCallback run r d = (res, d')" by fastforce
  with GetCallback_found [OF assms(1), of r d] assms(3) obtain e where "res = Inl e" by (cases res) auto
  with g r assms(2,4,5) show False
    by (simp add: stream_Execute_def getOrOpenStream_def resolveAddr_def go_bind_def wrap_err_def on_world_def
        shared_getcb_def)
qed

section \<open>The hubs\<close>

text \<open>The hub operations of a handler's step, which goes from one point of the handler to another.\<close>

fun own_ops :: "('d, 'k) stream_event \<Rightarrow> stream_pc \<Rightarrow> stream_pc \<Rightarrow> hub_op list" where
  "own_ops (HRegister r) pc pc' = [OpRegister r]"
| "own_ops HSend (SSend content r ch) pc' = (if pc' = SReturned then [OpCleanup r] else [])"
| "own_ops HReceive (SStreaming r ch) pc' = OpRecv ch # (if pc' = SReturned then [OpCleanup r] else [])"
| "own_ops HWriteFails (SStreaming r ch) pc' = [OpRecv ch, OpCleanup r]"
| "own_ops HClientGone (SStreaming r ch) pc' = [OpCleanup r]"
| "own_ops ev pc pc' = []"

definition hub_all :: "hub_op list \<Rightarrow> TokenHub \<Rightarrow> TokenHub" where
  "hub_all ops = fold (\<lambda>op. snd \<circ> hub_step op) ops"

lemma hub_all_simps [simp]: "hub_all [] h = h" "hub_all (op # ops) h = hub_all ops (snd (hub_step op h))"
  by (simp_all add: hub_all_def)

lemma own_step_hub:
  assumes "stream_step run publish addr sid uid ev (sh_pc h) h w = Some (h', w')" and "own ev"
  shows "api_hub w' = hub_all (own_ops ev (sh_pc h) (sh_pc h')) (api_hub w)"
  using assms
  by (cases "sh_pc h"; cases ev)
    (auto simp: returned_def split: prod.splits sum.splits option.splits if_splits)

lemma own_ops_held:
  assumes "op \<in> set (own_ops ev pc pc')"
  shows "op = OpRegister r \<Longrightarrow> ev = HRegister r" and "op = OpCleanup r \<Longrightarrow> \<exists>ch. held pc = Some (r, ch)"
    and "op = OpRecv ch \<Longrightarrow> \<exists>r. held pc = Some (r, ch)" and "op \<noteq> OpDeliver r tok"
  using assms by (cases ev; cases pc; auto split: if_splits)+

lemma hub_next_step: "hub_next h \<le> hub_next (snd (hub_step op h))"
  by (cases op) (auto simp: hub_op_defs Let_def split: option.split list.split)

lemma hub_all_inv: "hub_inv h \<Longrightarrow> hub_inv (hub_all ops h) \<and> hub_next h \<le> hub_next (hub_all ops h)"
proof (induction ops arbitrary: h)
  case (Cons op ops)
  with hub_inv_step [of h op] hub_next_step [of h op] show ?case
    by (metis hub_all_simps(2) order_trans)
qed simp

lemma following_others:
  "following ok r ch D h hub \<Longrightarrow> length D \<le> hub_capacity \<Longrightarrow>
     (\<And>op. op \<in> set ops \<Longrightarrow> quiet r ch (OtherHub op) \<and> delivered r [op] = []) \<Longrightarrow> following ok r ch D h (hub_all ops hub)"
proof (induction ops arbitrary: hub)
  case (Cons op ops)
  have "following ok r ch (D @ delivered r [op]) h (snd (hub_step op hub))"
    using Cons.prems by (intro following_other) auto
  with Cons.prems(2,3) show ?case
    by (auto intro!: Cons.IH)
qed simp

text \<open>What a server makes of a message: it delivers it, or ends the stream.\<close>

definition trusted :: "('d, 'k, 'n, 'c, 't) fleet_env \<Rightarrow> nat \<Rightarrow> bool" where
  "trusted E s \<longleftrightarrow> cfg_CallbackSecret (fe_cfg E s) \<noteq> [] \<and>
     cfg_CallbackSecret (fe_worker E) = cfg_CallbackSecret (fe_cfg E s)"

lemma recv_cases:
  assumes "recv_step E t F = Some F'"
  obtains a m where "nv_addr (fe_view E) (fl_net F) t = Some a" and "t \<notin> fl_over F"
    and "fl_read F t < length (nv_log (fe_view E) (fl_net F) t)" and "m = nv_log (fe_view E) (fl_net F) t ! fl_read F t"
    and "fl_read F' = (fl_read F)(t := Suc (fl_read F t))"
    and "if trusted E (fe_reach E a) \<and> tm_RequestId m \<noteq> []
      then fl_hubs F' = (fl_hubs F)(fe_reach E a := hub_Deliver (tm_RequestId m) (pubsub_of m) (fl_hubs F (fe_reach E a))) \<and>
        fl_over F' = fl_over F
      else fl_hubs F' = fl_hubs F \<and> fl_over F' = insert t (fl_over F)"
proof -
  obtain a where a: "nv_addr (fe_view E) (fl_net F) t = Some a" and t: "t \<notin> fl_over F"
    "fl_read F t < length (nv_log (fe_view E) (fl_net F) t)"
    using assms by (auto simp: recv_step_def split: option.splits if_splits)
  let ?m = "nv_log (fe_view E) (fl_net F) t ! fl_read F t" and ?s = "fe_reach E a"
  let ?h = "DeliverTokens hub_Deliver None [RecvMsg ?m]"
  obtain res hub where i: "StreamAuthInterceptor (cfg_CallbackSecret (fe_cfg E ?s))
      (Some (metadata_of (cfg_CallbackSecret (fe_worker E)))) ?h (fl_hubs F ?s) = (res, hub)"
    by fastforce
  have F': "F' = F\<lparr>fl_hubs := (fl_hubs F)(?s := hub), fl_read := (fl_read F)(t := Suc (fl_read F t)),
      fl_over := (if res = None then fl_over F else insert t (fl_over F))\<rparr>"
    using assms a t i by (simp add: recv_step_def)
  have "if trusted E ?s \<and> tm_RequestId ?m \<noteq> [] then res = None \<and> hub = hub_Deliver (tm_RequestId ?m) (pubsub_of ?m) (fl_hubs F ?s)
    else res \<noteq> None \<and> hub = fl_hubs F ?s"
    using client_authorized [of "cfg_CallbackSecret (fe_cfg E ?s)" "cfg_CallbackSecret (fe_worker E)" ?h "fl_hubs F ?s"] i
    unfolding metadata_of_def [abs_def] trusted_def by (auto split: if_splits)
  with a t show thesis
    by (intro that [of a ?m]) (auto simp: F' split: if_splits)
qed

text \<open>What an executed token adds to the streams.\<close>

lemma execute_net:
  assumes "redis_documented (fe_redis E) view" and "grpc_documented (fe_lib E) (fe_view E)"
    and "execute_step E tok F = (Inr (), F')" and "well_routed E view cb F"
  obtains t where "nv_addr (fe_view E) (fl_net F) t = Some (cb (te_RequestID tok)) \<and>
        nv_log (fe_view E) (fl_net F') = (nv_log (fe_view E) (fl_net F))(t := nv_log (fe_view E) (fl_net F) t @ [message_of tok]) \<or>
      nv_addr (fe_view E) (fl_net F) t = None \<and>
        nv_log (fe_view E) (fl_net F') = (nv_log (fe_view E) (fl_net F))(t := [message_of tok])"
    and "nv_addr (fe_view E) (fl_net F') = (nv_addr (fe_view E) (fl_net F))(t \<mapsto> cb (te_RequestID tok))"
proof -
  obtain uc n d where F': "F' = F\<lparr>fl_streams := uc, fl_net := n, fl_redis := d\<rparr>"
    and x: "stream_Execute (shared_lib (fe_lib E)) (guarded_by (\<lambda>(n, d). callbacks_ok cb (view d)) (shared_getcb (fe_redis E))) tok
      (fl_streams F, (fl_net F, fl_redis F)) = (Inr (), (uc, (n, d)))"
    and inv: "su_inv (shared_view (fe_view E)) cb (fl_streams F) (fl_net F, fl_redis F)"
    using execute_guarded [OF assms(3,4)] .
  from stream_Execute_Inr [OF shared_documented [OF assms(2)] shared_lookup [OF assms(1)] inv x]
  obtain t where st: "su_streams (fl_streams F) (te_RequestID tok) = Some t \<and>
        nv_log (fe_view E) n = (nv_log (fe_view E) (fl_net F))(t := nv_log (fe_view E) (fl_net F) t @ [message_of tok]) \<or>
      nv_addr (fe_view E) (fl_net F) t = None \<and>
        nv_log (fe_view E) n = (nv_log (fe_view E) (fl_net F))(t := [message_of tok])"
    and addr: "nv_addr (fe_view E) n = (nv_addr (fe_view E) (fl_net F))(t \<mapsto> cb (te_RequestID tok))"
    by (auto simp: shared_view_def)
  have "nv_addr (fe_view E) (fl_net F) t = Some (cb (te_RequestID tok))" if "su_streams (fl_streams F) (te_RequestID tok) = Some t"
    using that assms(4) by (auto simp: well_routed_def su_inv_def)
  with st addr show thesis by (intro that [of t]) (auto simp: F')
qed

section \<open>The machine's invariants\<close>

text \<open>Hubs, reading positions and ended streams; and who holds what, \<open>regs\<close> being the registrations so far.\<close>

definition tidy :: "('d, 'k, 'n, 'c, 't) fleet_env \<Rightarrow> ('d, 'k, 'n, 'c, 't) fleet \<Rightarrow> bool" where
  "tidy E F \<longleftrightarrow> (\<forall>s. hub_inv (fl_hubs F s)) \<and>
     (\<forall>t. nv_addr (fe_view E) (fl_net F) t = None \<longrightarrow> fl_read F t = 0 \<and> t \<notin> fl_over F) \<and>
     (\<forall>t a. nv_addr (fe_view E) (fl_net F) t = Some a \<longrightarrow>
        fl_read F t \<le> length (nv_log (fe_view E) (fl_net F) t) \<and>
        (t \<in> fl_over F \<longrightarrow> trusted E (fe_reach E a) \<longrightarrow>
          (\<exists>m \<in> set (nv_log (fe_view E) (fl_net F) t). tm_RequestId m = [])))"

definition booked ::
  "('d, 'k, 'n, 'c, 't) fleet_env \<Rightarrow> (nat \<times> string) list \<Rightarrow> ('d, 'k, 'n, 'c, 't) fleet \<Rightarrow> bool" where
  "booked E regs F \<longleftrightarrow> (\<forall>i r ch. held (sh_pc (fl_handlers F i)) = Some (r, ch) \<longrightarrow>
     (i, r) \<in> set regs \<and> ch < hub_next (fl_hubs F (home E i)))"

text \<open>The other handlers of the server neither have the request id nor the channel.\<close>

definition apart ::
  "('d, 'k, 'n, 'c, 't) fleet_env \<Rightarrow> nat \<Rightarrow> string \<Rightarrow> chan_ref \<Rightarrow> ('d, 'k, 'n, 'c, 't) fleet \<Rightarrow> bool" where
  "apart E i r ch F \<longleftrightarrow> ch < hub_next (fl_hubs F (home E i)) \<and>
     (\<forall>j r' ch'. j \<noteq> i \<longrightarrow> home E j = home E i \<longrightarrow> held (sh_pc (fl_handlers F j)) = Some (r', ch') \<longrightarrow>
        r' \<noteq> r \<and> ch' \<noteq> ch)"

text \<open>What was delivered to the request is what its server has received of its stream.\<close>

definition accounted ::
  "('n, 'c, 't) net_view \<Rightarrow> string \<Rightarrow> PubSubToken list \<Rightarrow> ('t \<Rightarrow> nat) \<Rightarrow> 'n \<Rightarrow> bool" where
  "accounted nv r D rd n \<longleftrightarrow>
     (\<forall>t. nv_addr nv n t \<noteq> None \<longrightarrow> about r (nv_log nv n t) \<noteq> [] \<longrightarrow>
        D = map pubsub_of (about r (take (rd t) (nv_log nv n t)))) \<and>
     ((\<forall>t. nv_addr nv n t \<noteq> None \<longrightarrow> about r (nv_log nv n t) = []) \<longrightarrow> D = [])"

lemma handler_hubs:
  assumes "handler_step E i ev F = Some F'" and "own ev"
  shows "fl_hubs F' = (fl_hubs F)(home E i := hub_all
    (own_ops ev (sh_pc (fl_handlers F i)) (sh_pc (fl_handlers F' i))) (fl_hubs F (home E i)))"
proof -
  obtain h w where s: "stream_step (fe_redis E) (PublishRequest (fe_kafka E)) (advertised E (home E i))
      (po_session (fe_posts E i)) (po_user (fe_posts E i)) ev (sh_pc (fl_handlers F i)) (fl_handlers F i)
      (api_of E F (home E i)) = Some (h, w)"
    and F': "F' = F\<lparr>fl_redis := api_redis w, fl_kafka := api_kafka w, fl_hubs := (fl_hubs F)(home E i := api_hub w),
      fl_handlers := (fl_handlers F)(i := h)\<rparr>"
    using handler_stepE [OF assms(1)] .
  from own_step_hub [OF s assms(2)] show ?thesis by (simp add: F' api_of_def)
qed

lemma hub_Deliver_inv: "hub_inv h \<Longrightarrow> hub_inv (hub_Deliver r t h) \<and> hub_next (hub_Deliver r t h) = hub_next h"
  using hub_inv_Deliver by (auto simp: hub_Deliver_def split: option.split)

text \<open>Hubs only grow, and keep their invariant.\<close>

lemma fleet_step_hubs:
  assumes "fleet_step E ev F = Some F'" and "\<forall>s. hub_inv (fl_hubs F s)"
  shows "hub_inv (fl_hubs F' s) \<and> hub_next (fl_hubs F s) \<le> hub_next (fl_hubs F' s)"
proof (cases ev)
  case (Handler i e)
  with assms(1) have "handler_step E i e F = Some F'" "own e" by (auto split: if_splits)
  from handler_hubs [OF this] assms(2) hub_all_inv show ?thesis by auto
next
  case (ServerRecv t)
  with assms(1) have "recv_step E t F = Some F'" by simp
  then show ?thesis
    by (cases rule: recv_cases) (use assms(2) hub_Deliver_inv in \<open>auto split: if_splits\<close>)
qed (use assms execute_frame in \<open>fastforce split: prod.splits sum.splits\<close>)+

lemma execute_tidy:
  assumes "redis_documented (fe_redis E) view" and "grpc_documented (fe_lib E) (fe_view E)"
    and "execute_step E tok F = (Inr (), F')" and "well_routed E view cb F" and "tidy E F"
  shows "tidy E F'"
proof -
  note frame = execute_frame [OF assms(3)]
  have hubs: "\<forall>s. hub_inv (fl_hubs F s)"
    and none: "\<And>t. nv_addr (fe_view E) (fl_net F) t = None \<Longrightarrow> fl_read F t = 0 \<and> t \<notin> fl_over F"
    and some: "\<And>t a. nv_addr (fe_view E) (fl_net F) t = Some a \<Longrightarrow>
        fl_read F t \<le> length (nv_log (fe_view E) (fl_net F) t) \<and>
        (t \<in> fl_over F \<longrightarrow> trusted E (fe_reach E a) \<longrightarrow>
          (\<exists>m \<in> set (nv_log (fe_view E) (fl_net F) t). tm_RequestId m = []))"
    using assms(5) by (simp_all add: tidy_def)
  show ?thesis
    by (rule execute_net [OF assms(1-4)])
      (use hubs frame in \<open>auto simp: tidy_def le_SucI dest!: none some split: if_splits\<close>)
qed

lemma recv_tidy:
  assumes "recv_step E t F = Some F'" and "tidy E F"
  shows "tidy E F'"
  using assms(1)
proof (cases rule: recv_cases)
  case (1 a m)
  have "m \<in> set (nv_log (fe_view E) (fl_net F) t)"
    using 1(3,4) by simp
  with 1 assms(2) recv_frame [OF assms(1)] hub_Deliver_inv show ?thesis
    by (auto simp: tidy_def split: if_splits)
qed

lemma fleet_step_tidy:
  assumes "redis_documented (fe_redis E) view" and "grpc_documented (fe_lib E) (fe_view E)"
    and "fleet_step E ev F = Some F'" and "\<And>tok. ev \<noteq> ExecuteFails tok" and "well_routed E view cb F" and "tidy E F"
  shows "tidy E F'"
proof (cases ev)
  case (Handler i e)
  have "\<forall>s. hub_inv (fl_hubs F' s)"
    using fleet_step_hubs [OF assms(3)] assms(6) by (simp add: tidy_def)
  with assms(3,6) Handler handler_frame [of E i e F F'] show ?thesis
    by (auto simp: tidy_def split: if_splits)
next
  case (Executes tok)
  with assms(3) have "execute_step E tok F = (Inr (), F')"
    by (auto split: prod.splits sum.splits)
  from execute_tidy [OF assms(1,2) this assms(5,6)] show ?thesis .
next
  case (ServerRecv t)
  with assms(3,6) recv_tidy show ?thesis by simp
qed (use assms(4) in simp)

lemma handler_held:
  assumes "handler_step E i ev F = Some F'" and "own ev" and "held (sh_pc (fl_handlers F' i)) = Some (r, ch)"
  shows "held (sh_pc (fl_handlers F i)) = Some (r, ch) \<or> ev = HRegister r \<and> ch = hub_next (fl_hubs F (home E i))"
proof -
  obtain h w where s: "stream_step (fe_redis E) (PublishRequest (fe_kafka E)) (advertised E (home E i))
      (po_session (fe_posts E i)) (po_user (fe_posts E i)) ev (sh_pc (fl_handlers F i)) (fl_handlers F i)
      (api_of E F (home E i)) = Some (h, w)"
    and F': "F' = F\<lparr>fl_redis := api_redis w, fl_kafka := api_kafka w, fl_hubs := (fl_hubs F)(home E i := api_hub w),
      fl_handlers := (fl_handlers F)(i := h)\<rparr>"
    using handler_stepE [OF assms(1)] .
  from held_step [OF s assms(2)] assms(3) show ?thesis by (simp add: F' api_of_def)
qed

lemma register_next:
  assumes "handler_step E i (HRegister r) F = Some F'"
  shows "hub_next (fl_hubs F' (home E i)) = Suc (hub_next (fl_hubs F (home E i)))"
  using handler_hubs [OF assms] by (simp add: hub_Register_def Let_def)

lemma fleet_step_booked:
  assumes "fleet_step E ev F = Some F'" and "tidy E F" and "booked E regs F"
  shows "booked E (regs @ registration ev) F'"
proof -
  have next_le: "hub_next (fl_hubs F s) \<le> hub_next (fl_hubs F' s)" for s
    using fleet_step_hubs [OF assms(1)] assms(2) by (simp add: tidy_def)
  have old: "(i, r) \<in> set regs \<and> ch < hub_next (fl_hubs F' (home E i))"
    if "held (sh_pc (fl_handlers F i)) = Some (r, ch)" for i r ch
    using assms(3) that next_le [of "home E i"] unfolding booked_def by (meson less_le_trans)
  show ?thesis
  proof (cases ev)
    case (Handler j e)
    with assms(1) have s: "handler_step E j e F = Some F'" "own e" by (auto split: if_splits)
    have "(i, r) \<in> set (regs @ registration ev) \<and> ch < hub_next (fl_hubs F' (home E i))"
      if "held (sh_pc (fl_handlers F' i)) = Some (r, ch)" for i r ch
    proof (cases "i = j")
      case True
      with handler_held [OF s, of r ch] that old register_next [of E j r F F'] s(1) Handler show ?thesis by auto
    next
      case False
      with handler_frame [OF s(1)] that old show ?thesis by auto
    qed
    then show ?thesis by (simp add: booked_def)
  next
    case (ServerRecv t)
    with assms(1) old recv_frame [of E t F F'] show ?thesis by (simp add: booked_def)
  qed (use assms(1) old execute_frame in \<open>fastforce simp: booked_def split: prod.splits sum.splits\<close>)+
qed

section \<open>From the streams to the channel\<close>

lemma accounted_none:
  "accounted nv r D rd n \<Longrightarrow> (\<And>t. nv_addr nv n t \<noteq> None \<Longrightarrow> about r (nv_log nv n t) = []) \<Longrightarrow> D = []"
  unfolding accounted_def by blast

lemma accounted_some:
  "accounted nv r D rd n \<Longrightarrow> nv_addr nv n t \<noteq> None \<Longrightarrow> about r (nv_log nv n t) \<noteq> [] \<Longrightarrow>
     D = map pubsub_of (about r (take (rd t) (nv_log nv n t)))"
  unfolding accounted_def by blast

lemma about_take_Nil: "about r ms = [] \<Longrightarrow> about r (take k ms) = []"
  by (auto simp: about_def filter_empty_conv dest: in_set_takeD)

lemma accounted_more:
  assumes "accounted nv r D rd n" and "sole nv r hist n'"
    and "nv_addr nv n' = (nv_addr nv n)(t \<mapsto> a)"
    and "nv_addr nv n t \<noteq> None \<and> nv_log nv n' = (nv_log nv n)(t := nv_log nv n t @ [m]) \<or>
      nv_addr nv n t = None \<and> nv_log nv n' = (nv_log nv n)(t := [m])"
    and "nv_addr nv n t = None \<Longrightarrow> rd t = 0" and "nv_addr nv n t \<noteq> None \<Longrightarrow> rd t \<le> length (nv_log nv n t)"
  shows "accounted nv r D rd n'"
proof -
  have old: "nv_addr nv n' t' \<noteq> None \<and> nv_log nv n' t' = nv_log nv n t'" if "t' \<noteq> t" "nv_addr nv n t' \<noteq> None" for t'
    using that assms(3,4) by auto
  have grows: "about r (nv_log nv n' t') \<noteq> []" if "nv_addr nv n t' \<noteq> None" "about r (nv_log nv n t') \<noteq> []" for t'
    using that assms(4) by (cases "t' = t") auto
  have "D = map pubsub_of (about r (take (rd t') (nv_log nv n' t')))"
    if t': "nv_addr nv n' t' \<noteq> None" "about r (nv_log nv n' t') \<noteq> []" for t'
  proof (cases "nv_addr nv n t' \<noteq> None \<and> about r (nv_log nv n t') \<noteq> []")
    case True
    then have "take (rd t') (nv_log nv n' t') = take (rd t') (nv_log nv n t')"
      using assms(4,6) by (cases "t' = t") auto
    with True accounted_some [OF assms(1)] show ?thesis by simp
  next
    case False
    then have t: "t' = t" using old [of t'] t' assms(3) by (metis fun_upd_other)
    have "about r (nv_log nv n u) = []" if "nv_addr nv n u \<noteq> None" for u
    proof (rule ccontr)
      assume u: "about r (nv_log nv n u) \<noteq> []"
      then have "nv_addr nv n' u \<noteq> None" and "about r (nv_log nv n' u) \<noteq> []"
        using that grows assms(3) by auto
      with t' assms(2) have "u = t'" by (simp add: sole_def)
      with False that u show False by simp
    qed
    with accounted_none [OF assms(1)] have "D = []" by simp
    moreover have "about r (take (rd t) (nv_log nv n' t)) = []"
      using False t assms(4-6) about_take_Nil [of r "nv_log nv n t" "rd t"] by auto
    ultimately show ?thesis by (simp add: t)
  qed
  moreover have "D = []" if "\<And>t'. nv_addr nv n' t' \<noteq> None \<Longrightarrow> about r (nv_log nv n' t') = []"
    using that grows assms(3) by (intro accounted_none [OF assms(1)]) (metis fun_upd_apply option.distinct(1))
  ultimately show ?thesis unfolding accounted_def by blast
qed

lemma accounted_recv:
  assumes "accounted nv r D rd n" and "sole nv r hist n" and "nv_addr nv n t = Some a" and "rd t < length (nv_log nv n t)"
    and "m = nv_log nv n t ! rd t"
  shows "accounted nv r (D @ (if tm_RequestId m = r then [pubsub_of m] else [])) (rd(t := Suc (rd t))) n"
proof -
  have m: "m \<in> set (nv_log nv n t)" and take: "take (Suc (rd t)) (nv_log nv n t) = take (rd t) (nv_log nv n t) @ [m]"
    using assms(4,5) by (simp_all add: take_Suc_conv_app_nth)
  have mine: "about r (nv_log nv n t) \<noteq> []" if "tm_RequestId m = r"
    using that m by (auto simp: about_def filter_empty_conv)
  have "u = t" if "tm_RequestId m = r" "nv_addr nv n u \<noteq> None" "about r (nv_log nv n u) \<noteq> []" for u
    using that mine assms(2,3) by (auto simp: sole_def)
  with accounted_some [OF assms(1)] take have
    "D @ (if tm_RequestId m = r then [pubsub_of m] else []) =
      map pubsub_of (about r (take ((rd(t := Suc (rd t))) u) (nv_log nv n u)))"
    if "nv_addr nv n u \<noteq> None" "about r (nv_log nv n u) \<noteq> []" for u
    using that by (cases "u = t") auto
  moreover have "D @ (if tm_RequestId m = r then [pubsub_of m] else []) = []"
    if "\<And>u. nv_addr nv n u \<noteq> None \<Longrightarrow> about r (nv_log nv n u) = []"
    using that mine assms(3) accounted_none [OF assms(1)] by auto
  ultimately show ?thesis unfolding accounted_def by blast
qed

lemma tracked_stream:
  assumes "tracked E view cb r hist over F" and "nv_addr (fe_view E) (fl_net F) t = Some a"
    and "about r (nv_log (fe_view E) (fl_net F) t) \<noteq> []"
  shows "a = cb r" and "nv_log (fe_view E) (fl_net F) t = hist"
proof -
  have "hist \<noteq> []" using assms by (auto simp: tracked_def sole_def)
  with assms(1) obtain u where u: "nv_addr (fe_view E) (fl_net F) u = Some (cb r)" "nv_log (fe_view E) (fl_net F) u = hist"
    by (auto simp: tracked_def progress_def)
  with \<open>hist \<noteq> []\<close> assms have "u = t" by (simp add: tracked_def sole_def)
  with u assms(2) show "a = cb r" and "nv_log (fe_view E) (fl_net F) t = hist" by simp_all
qed

text \<open>What was delivered is no longer than what was executed.\<close>

lemma accounted_length:
  assumes "accounted (fe_view E) r D (fl_read F) (fl_net F)" and "tracked E view cb r hist over F"
  shows "length D \<le> length hist"
proof (cases "\<exists>t. nv_addr (fe_view E) (fl_net F) t \<noteq> None \<and> about r (nv_log (fe_view E) (fl_net F) t) \<noteq> []")
  case True
  then obtain t where t: "nv_addr (fe_view E) (fl_net F) t \<noteq> None" "about r (nv_log (fe_view E) (fl_net F) t) \<noteq> []"
    by blast
  with tracked_stream(2) [OF assms(2)] have "nv_log (fe_view E) (fl_net F) t = hist" by blast
  with accounted_some [OF assms(1) t] show ?thesis
    using length_filter_le [of "\<lambda>m. tm_RequestId m = r" "take (fl_read F t) hist"]
    by (simp add: about_def)
next
  case False
  then have "D = []" by (intro accounted_none [OF assms(1)]) blast
  then show ?thesis by simp
qed

section \<open>A request that is being answered\<close>

text \<open>
  Handler \<open>i\<close> has registered \<open>r\<close> and got the channel \<open>ch\<close>; \<open>hist\<close> was sent on the request's
  stream so far, \<open>D\<close> delivered to it.
\<close>

definition serving_request ::
  "('d, 'k, 'n, 'c, 't) fleet_env \<Rightarrow> ('d \<Rightarrow> redis_view) \<Rightarrow> (string \<Rightarrow> string) \<Rightarrow> nat \<Rightarrow> string \<Rightarrow> chan_ref \<Rightarrow>
   bool \<Rightarrow> TokenMessage list \<Rightarrow> bool \<Rightarrow> PubSubToken list \<Rightarrow> ('d, 'k, 'n, 'c, 't) fleet \<Rightarrow> bool" where
  "serving_request E view cb i r ch ok hist over D F \<longleftrightarrow>
     tracked E view cb r hist over F \<and> tidy E F \<and> apart E i r ch F \<and>
     following ok r ch D (fl_handlers F i) (fl_hubs F (home E i))"

definition answering ::
  "('d, 'k, 'n, 'c, 't) fleet_env \<Rightarrow> ('d \<Rightarrow> redis_view) \<Rightarrow> (string \<Rightarrow> string) \<Rightarrow> nat \<Rightarrow> string \<Rightarrow> chan_ref \<Rightarrow>
   bool \<Rightarrow> TokenMessage list \<Rightarrow> bool \<Rightarrow> PubSubToken list \<Rightarrow> ('d, 'k, 'n, 'c, 't) fleet \<Rightarrow> bool" where
  "answering E view cb i r ch ok hist over D F \<longleftrightarrow> serving_request E view cb i r ch ok hist over D F \<and>
     accounted (fe_view E) r D (fl_read F) (fl_net F)"

lemmas answering_defs = answering_def serving_request_def

text \<open>The server can be reached at its address, and the streaming worker has its secret.\<close>

definition reachable :: "('d, 'k, 'n, 'c, 't) fleet_env \<Rightarrow> nat \<Rightarrow> bool" where
  "reachable E s \<longleftrightarrow> fe_reach E (advertised E s) = s \<and> trusted E s"

fun stays :: "nat \<Rightarrow> ('d, 'k, 't) fleet_event \<Rightarrow> bool" where
  "stays i (Handler j ev) = (j = i \<longrightarrow> keeps_ok ev)"
| "stays i ev = True"

lemma own_quiet: "own ev \<Longrightarrow> quiet r ch ev \<and> hub_ops_of ev = []"
  by (cases ev) (simp_all add: quiet_def)

lemma following_own:
  assumes "handler_step E i ev F = Some F'" and "own ev" and "following ok r ch D (fl_handlers F i) (fl_hubs F (home E i))"
    and "length D \<le> hub_capacity"
  shows "following (ok \<and> keeps_ok ev) r ch D (fl_handlers F' i) (fl_hubs F' (home E i))"
proof -
  obtain h w where s: "stream_step (fe_redis E) (PublishRequest (fe_kafka E)) (advertised E (home E i))
      (po_session (fe_posts E i)) (po_user (fe_posts E i)) ev (sh_pc (fl_handlers F i)) (fl_handlers F i)
      (api_of E F (home E i)) = Some (h, w)"
    and F': "F' = F\<lparr>fl_redis := api_redis w, fl_kafka := api_kafka w, fl_hubs := (fl_hubs F)(home E i := api_hub w),
      fl_handlers := (fl_handlers F)(i := h)\<rparr>"
    using handler_stepE [OF assms(1)] .
  have "following ok r ch D (fl_handlers F i) (api_hub (api_of E F (home E i)))"
    using assms(3) by (simp add: api_of_def)
  from following_step [OF this _ s] own_quiet [OF assms(2), of r ch] assms(4) show ?thesis
    by (simp add: F')
qed

lemma following_neighbour:
  assumes "handler_step E j ev F = Some F'" and "own ev" and "j \<noteq> i" and "ev \<noteq> HRegister r" and "apart E i r ch F"
    and "following ok r ch D (fl_handlers F i) (fl_hubs F (home E i))" and "length D \<le> hub_capacity"
  shows "following ok r ch D (fl_handlers F' i) (fl_hubs F' (home E i))"
proof (cases "home E j = home E i")
  case True
  have "quiet r ch (OtherHub op) \<and> delivered r [op] = []"
    if "op \<in> set (own_ops ev (sh_pc (fl_handlers F j)) (sh_pc (fl_handlers F' j)))" for op
    using own_ops_held [OF that] assms(3-5) True by (cases op) (fastforce simp: quiet_def apart_def)+
  from following_others [OF assms(6,7) this] handler_hubs [OF assms(1,2)] handler_frame [OF assms(1)] True assms(3)
  show ?thesis by simp
next
  case False
  with assms(3,6) handler_frame [OF assms(1)] show ?thesis by simp
qed

lemma handler_moved:
  assumes "fleet_step E ev F = Some F'" and "fl_handlers F' j \<noteq> fl_handlers F j"
  obtains e where "ev = Handler j e" and "handler_step E j e F = Some F'" and "own e"
proof (cases ev)
  case (Handler i e)
  with assms(1) have s: "handler_step E i e F = Some F'" "own e" by (auto split: if_splits)
  with handler_frame [OF s(1)] assms(2) have "i = j" by auto
  with s Handler that show thesis by blast
next
  case (Executes tok)
  with assms execute_frame [of E tok F _ F'] show thesis by (auto split: prod.splits sum.splits)
next
  case (ExecuteFails tok)
  with assms execute_frame [of E tok F _ F'] show thesis by (auto split: prod.splits sum.splits)
next
  case (ServerRecv t)
  with assms recv_frame [of E t F F'] show thesis by simp
qed

lemma apart_step:
  assumes "fleet_step E ev F = Some F'" and "tidy E F" and "apart E i r ch F" and "r \<notin> snd ` set (registration ev)"
  shows "apart E i r ch F'"
proof -
  have next_le: "hub_next (fl_hubs F s) \<le> hub_next (fl_hubs F' s)" for s
    using fleet_step_hubs [OF assms(1)] assms(2) by (simp add: tidy_def)
  have ch: "ch < hub_next (fl_hubs F (home E i))" "ch < hub_next (fl_hubs F' (home E i))"
    using assms(3) next_le [of "home E i"] by (simp_all add: apart_def)
  have old: "r' \<noteq> r \<and> ch' \<noteq> ch"
    if "j \<noteq> i" "home E j = home E i" "held (sh_pc (fl_handlers F j)) = Some (r', ch')" for j r' ch'
    using that assms(3) by (auto simp: apart_def)
  have "r' \<noteq> r \<and> ch' \<noteq> ch"
    if "j \<noteq> i" "home E j = home E i" "held (sh_pc (fl_handlers F' j)) = Some (r', ch')" for j r' ch'
  proof (cases "held (sh_pc (fl_handlers F j)) = Some (r', ch')")
    case True
    with old that show ?thesis by blast
  next
    case False
    then have "fl_handlers F' j \<noteq> fl_handlers F j" using that(3) by auto
    from handler_moved [OF assms(1) this] obtain e where
      e: "ev = Handler j e" "handler_step E j e F = Some F'" "own e" .
    with handler_held [OF e(2,3) that(3)] False assms(4) that(2) ch(1) show ?thesis by auto
  qed
  with ch(2) show ?thesis by (auto simp: apart_def)
qed

text \<open>A receive: it delivers a token of the request if the server is the request's, and nothing of it otherwise.\<close>

lemma recv_other:
  assumes "recv_step E t F = Some F'" and "serving_request E view cb i r ch ok hist over D F" and "length D \<le> hub_capacity"
    and "tm_RequestId (nv_log (fe_view E) (fl_net F) t ! fl_read F t) \<noteq> r \<or> fe_reach E (cb r) \<noteq> home E i"
  shows "following ok r ch D (fl_handlers F' i) (fl_hubs F' (home E i))"
  using assms(1)
proof (cases rule: recv_cases)
  case (1 a m)
  have inv: "tracked E view cb r hist over F" "following ok r ch D (fl_handlers F i) (fl_hubs F (home E i))"
    using assms(2) by (simp_all add: serving_request_def)
  have net: "fl_handlers F' = fl_handlers F" using recv_frame [OF assms(1)] by simp
  show ?thesis
  proof (cases "trusted E (fe_reach E a) \<and> tm_RequestId m \<noteq> [] \<and> fe_reach E a = home E i")
    case True
    have "tm_RequestId m \<noteq> r"
    proof
      assume r: "tm_RequestId m = r"
      have "m \<in> set (nv_log (fe_view E) (fl_net F) t)" using 1(3,4) by simp
      with r have "about r (nv_log (fe_view E) (fl_net F) t) \<noteq> []" by (auto simp: about_def filter_empty_conv)
      with tracked_stream(1) [OF inv(1) 1(1)] r 1(4) assms(4) True show False by auto
    qed
    then have "following ok r ch (D @ delivered r [OpDeliver (tm_RequestId m) (pubsub_of m)]) (fl_handlers F i)
        (snd (hub_step (OpDeliver (tm_RequestId m) (pubsub_of m)) (fl_hubs F (home E i))))"
      using assms(3) by (intro following_other inv(2)) (auto simp: quiet_def)
    with \<open>tm_RequestId m \<noteq> r\<close> True 1(6) show ?thesis by (auto simp: net)
  next
    case False
    with 1(6) inv(2) show ?thesis by (auto simp: net split: if_splits)
  qed
qed

lemma recv_mine:
  assumes "recv_step E t F = Some F'" and "serving_request E view cb i r ch ok hist over D F" and "length D < hub_capacity"
    and "m = nv_log (fe_view E) (fl_net F) t ! fl_read F t" and "tm_RequestId m = r"
    and "cb r = advertised E (home E i)" and "reachable E (home E i)" and "r \<noteq> []"
  shows "following ok r ch (D @ [pubsub_of m]) (fl_handlers F' i) (fl_hubs F' (home E i))"
  using assms(1)
proof (cases rule: recv_cases)
  case (1 a m')
  have inv: "tracked E view cb r hist over F" "following ok r ch D (fl_handlers F i) (fl_hubs F (home E i))"
    using assms(2) by (simp_all add: serving_request_def)
  have m: "m' = m" using 1(4) assms(4) by simp
  have "m \<in> set (nv_log (fe_view E) (fl_net F) t)" using 1(3) assms(4) by simp
  with assms(5) have "about r (nv_log (fe_view E) (fl_net F) t) \<noteq> []" by (auto simp: about_def filter_empty_conv)
  with tracked_stream(1) [OF inv(1) 1(1)] assms(6,7) have a: "trusted E (fe_reach E a)" "fe_reach E a = home E i"
    by (auto simp: reachable_def)
  have "following ok r ch (D @ delivered r [OpDeliver r (pubsub_of m)]) (fl_handlers F i)
      (snd (hub_step (OpDeliver r (pubsub_of m)) (fl_hubs F (home E i))))"
    using assms(3) by (intro following_other inv(2)) (auto simp: quiet_def)
  with a 1(6) assms(5,8) recv_frame [OF assms(1)] show ?thesis by (simp add: m)
qed

lemma serving_request_step:
  assumes "redis_documented (fe_redis E) view" and "grpc_documented (fe_lib E) (fe_view E)"
    and "fleet_step E ev F = Some F'" and "\<And>j q. (j, q) \<in> set (registration ev) \<Longrightarrow> cb q = advertised E (home E j)"
    and "\<And>tok. ev \<noteq> ExecuteFails tok" and "r \<notin> snd ` set (registration ev)" and "executed r [ev] \<noteq> [] \<longrightarrow> \<not> over"
    and "serving_request E view cb i r ch ok hist over D F" and "length D \<le> hub_capacity"
    and "\<And>t. ev = ServerRecv t \<Longrightarrow> following ok r ch D' (fl_handlers F' i) (fl_hubs F' (home E i))"
    and "(\<forall>t. ev \<noteq> ServerRecv t) \<Longrightarrow> D' = D"
  shows "serving_request E view cb i r ch (ok \<and> stays i ev) (hist @ map message_of (executed r [ev]))
    (over \<or> (\<exists>k \<in> set (executed r [ev]). te_Done k)) D' F'"
proof -
  have inv: "tracked E view cb r hist over F" "tidy E F" "apart E i r ch F" "well_routed E view cb F"
    "following ok r ch D (fl_handlers F i) (fl_hubs F (home E i))"
    using assms(8) by (simp_all add: serving_request_def tracked_def)
  have "tracked E view cb r (hist @ map message_of (executed r [ev])) (over \<or> (\<exists>k \<in> set (executed r [ev]). te_Done k)) F'"
    by (rule fleet_step_tracked [OF assms(1-5) inv(1) assms(7)])
  moreover have "tidy E F'" "apart E i r ch F'"
    using fleet_step_tidy [OF assms(1-3,5) inv(4,2)] apart_step [OF assms(3) inv(2,3) assms(6)] by simp_all
  moreover have "following (ok \<and> stays i ev) r ch D' (fl_handlers F' i) (fl_hubs F' (home E i))"
  proof (cases ev)
    case (Handler j e)
    with assms(3,11) have s: "handler_step E j e F = Some F'" "own e" and D: "D' = D" by (auto split: if_splits)
    show ?thesis
    proof (cases "j = i")
      case True
      with following_own [OF _ s(2) inv(5) assms(9)] s(1) Handler show ?thesis by (simp add: D)
    next
      case False
      with assms(6) Handler have "e \<noteq> HRegister r" by auto
      with following_neighbour [OF s False _ inv(3,5) assms(9)] False Handler show ?thesis by (simp add: D)
    qed
  next
    case (Executes tok)
    with assms(3) have "execute_step E tok F = (Inr (), F')" by (auto split: prod.splits sum.splits)
    with execute_frame [OF this] inv(5) assms(11) Executes show ?thesis by simp
  qed (use assms(5,10) in simp_all)
  ultimately show ?thesis by (simp add: serving_request_def)
qed

lemma execute_accounted:
  assumes "redis_documented (fe_redis E) view" and "grpc_documented (fe_lib E) (fe_view E)"
    and "execute_step E tok F = (Inr (), F')" and "answering E view cb i r ch ok hist over D F"
    and "tracked E view cb r hist' over' F'"
  shows "accounted (fe_view E) r D (fl_read F') (fl_net F')"
proof -
  have inv: "well_routed E view cb F" "accounted (fe_view E) r D (fl_read F) (fl_net F)" "tidy E F"
    using assms(4) by (simp_all add: answering_defs tracked_def)
  note frame = execute_frame [OF assms(3)]
  obtain t where t: "nv_addr (fe_view E) (fl_net F) t = Some (cb (te_RequestID tok)) \<and>
        nv_log (fe_view E) (fl_net F') = (nv_log (fe_view E) (fl_net F))(t := nv_log (fe_view E) (fl_net F) t @ [message_of tok]) \<or>
      nv_addr (fe_view E) (fl_net F) t = None \<and>
        nv_log (fe_view E) (fl_net F') = (nv_log (fe_view E) (fl_net F))(t := [message_of tok])"
    and addr: "nv_addr (fe_view E) (fl_net F') = (nv_addr (fe_view E) (fl_net F))(t \<mapsto> cb (te_RequestID tok))"
    using execute_net [OF assms(1-3) inv(1)] .
  have "sole (fe_view E) r hist' (fl_net F')"
    using assms(5) by (simp add: tracked_def)
  from accounted_more [OF inv(2) this addr, of "message_of tok"] t inv(3) show ?thesis
    by (auto simp: tidy_def frame)
qed

lemma recv_answering:
  assumes "recv_step E t F = Some F'" and "answering E view cb i r ch ok hist over D F"
    and "cb r = advertised E (home E i)" and "reachable E (home E i)" and "r \<noteq> []" and "length hist \<le> hub_capacity"
  obtains D' where "following ok r ch D' (fl_handlers F' i) (fl_hubs F' (home E i))"
    and "accounted (fe_view E) r D' (fl_read F') (fl_net F')"
  using assms(1)
proof (cases rule: recv_cases)
  case (1 a m)
  let ?new = "if tm_RequestId m = r then [pubsub_of m] else []"
  have inv: "tracked E view cb r hist over F" "accounted (fe_view E) r D (fl_read F) (fl_net F)"
    "sole (fe_view E) r hist (fl_net F)" and sv: "serving_request E view cb i r ch ok hist over D F"
    using assms(2) by (simp_all add: answering_defs tracked_def)
  have net: "fl_net F' = fl_net F" using recv_frame [OF assms(1)] by simp
  have acc: "accounted (fe_view E) r (D @ ?new) (fl_read F') (fl_net F)"
    using accounted_recv [OF inv(2,3) 1(1,3,4)] 1(5) by simp
  have "length (D @ ?new) \<le> length hist"
    using accounted_length [of E r "D @ ?new" "F\<lparr>fl_read := fl_read F'\<rparr>" view cb hist over] acc inv(1)
    by (simp add: tracked_def well_routed_def)
  with assms(6) have "following ok r ch (D @ ?new) (fl_handlers F' i) (fl_hubs F' (home E i))"
    using recv_other [OF assms(1) sv] recv_mine [OF assms(1) sv _ 1(4) _ assms(3-5)] 1(4) by auto
  with acc net show thesis using that by simp
qed

lemma answering_step:
  assumes "redis_documented (fe_redis E) view" and "grpc_documented (fe_lib E) (fe_view E)"
    and "fleet_step E ev F = Some F'" and "\<And>j q. (j, q) \<in> set (registration ev) \<Longrightarrow> cb q = advertised E (home E j)"
    and "\<And>tok. ev \<noteq> ExecuteFails tok" and "r \<notin> snd ` set (registration ev)"
    and "executed r [ev] \<noteq> [] \<longrightarrow> \<not> over" and "length hist + length (executed r [ev]) \<le> hub_capacity"
    and "cb r = advertised E (home E i)" and "reachable E (home E i)" and "r \<noteq> []"
    and "answering E view cb i r ch ok hist over D F"
  shows "\<exists>D'. answering E view cb i r ch (ok \<and> stays i ev) (hist @ map message_of (executed r [ev]))
    (over \<or> (\<exists>k \<in> set (executed r [ev]). te_Done k)) D' F'"
proof -
  have sv: "serving_request E view cb i r ch ok hist over D F" and acc: "accounted (fe_view E) r D (fl_read F) (fl_net F)"
    using assms(12) by (simp_all add: answering_def)
  have len: "length D \<le> hub_capacity"
    using accounted_length [OF acc] sv assms(8) by (fastforce simp: serving_request_def)
  note step = serving_request_step [OF assms(1-7) sv len]
  show ?thesis
  proof (cases ev)
    case (ServerRecv t)
    with assms(3) have "recv_step E t F = Some F'" by simp
    from recv_answering [OF this assms(12,9-11)] assms(8) obtain D' where
      "following ok r ch D' (fl_handlers F' i) (fl_hubs F' (home E i))" "accounted (fe_view E) r D' (fl_read F') (fl_net F')"
      by auto
    with step [of D'] ServerRecv show ?thesis by (auto simp: answering_def)
  next
    case (Handler j e)
    with assms(3) handler_frame [of E j e F F'] acc step [of D] show ?thesis
      by (auto simp: answering_def split: if_splits)
  next
    case (Executes tok)
    with assms(3) have "execute_step E tok F = (Inr (), F')" by (auto split: prod.splits sum.splits)
    with execute_accounted [OF assms(1,2) this assms(12)] step [of D] Executes show ?thesis
      by (auto simp: answering_defs)
  qed (use assms(5) in simp)
qed

text \<open>What such steps keep, a run keeps, for a request whose done token is the last that is executed.\<close>

lemma request_run:
  assumes step: "\<And>ev F F' ok hist over. fleet_step E ev F = Some F' \<Longrightarrow>
      (\<And>j q. (j, q) \<in> set (registration ev) \<Longrightarrow> cb q = advertised E (home E j)) \<Longrightarrow> (\<And>tok. ev \<noteq> ExecuteFails tok) \<Longrightarrow>
      r \<notin> snd ` set (registration ev) \<Longrightarrow> executed r [ev] \<noteq> [] \<longrightarrow> \<not> over \<Longrightarrow>
      length hist + length (executed r [ev]) \<le> c \<Longrightarrow> P ok hist over F \<Longrightarrow>
      P (ok \<and> stays i ev) (hist @ map message_of (executed r [ev])) (over \<or> (\<exists>k \<in> set (executed r [ev]). te_Done k)) F'"
  shows "fleet_run E evs F = Some F' \<Longrightarrow> (\<And>j q. (j, q) \<in> set (registered evs) \<Longrightarrow> cb q = advertised E (home E j)) \<Longrightarrow>
    (\<And>tok. ExecuteFails tok \<notin> set evs) \<Longrightarrow> r \<notin> snd ` set (registered evs) \<Longrightarrow> (over \<longrightarrow> executed r evs = []) \<Longrightarrow>
    \<forall>k \<in> set (butlast (executed r evs)). \<not> te_Done k \<Longrightarrow> length hist + length (executed r evs) \<le> c \<Longrightarrow>
    P ok hist over F \<Longrightarrow>
    \<exists>over'. P (ok \<and> (\<forall>ev \<in> set evs. stays i ev)) (hist @ map message_of (executed r evs)) over' F'"
proof (induction evs arbitrary: F ok hist over)
  case (Cons ev evs)
  obtain F1 where s: "fleet_step E ev F = Some F1" and run: "fleet_run E evs F1 = Some F'"
    using Cons.prems(1) by (auto split: option.splits)
  have x: "executed r (ev # evs) = executed r [ev] @ executed r evs" by simp
  have a: "P (ok \<and> stays i ev) (hist @ map message_of (executed r [ev])) (over \<or> (\<exists>k \<in> set (executed r [ev]). te_Done k)) F1"
    by (rule step [OF s _ _ _ _ _ Cons.prems(8)]) (use Cons.prems(2-7) x in \<open>auto simp: image_iff\<close>)
  have last: "executed r evs = []" if "k \<in> set (executed r [ev])" "te_Done k" for k
    using Cons.prems(6) that by (cases ev) (auto simp: butlast_append split: if_splits)
  have "\<forall>k \<in> set (butlast (executed r evs)). \<not> te_Done k"
    using Cons.prems(6) unfolding x by (auto simp: butlast_append split: if_splits)
  from Cons.IH [OF run _ _ _ _ this _ a] Cons.prems(2-5,7) last show ?case
    by (auto simp: conj_assoc image_iff)
qed auto

lemma answering_run:
  assumes docs: "redis_documented (fe_redis E) view" "grpc_documented (fe_lib E) (fe_view E)"
    and cb: "cb r = advertised E (home E i)" and reach: "reachable E (home E i)" and r: "r \<noteq> []"
    and run: "fleet_run E evs F = Some F'" and regs: "\<And>j q. (j, q) \<in> set (registered evs) \<Longrightarrow> cb q = advertised E (home E j)"
    and calm: "\<And>tok. ExecuteFails tok \<notin> set evs" and once: "r \<notin> snd ` set (registered evs)"
    and tokens: "\<forall>k \<in> set (butlast (executed r evs)). \<not> te_Done k" "length (executed r evs) \<le> hub_capacity"
    and ans: "answering E view cb i r ch True [] False D F"
  shows "\<exists>over D'. answering E view cb i r ch (\<forall>ev \<in> set evs. stays i ev) (map message_of (executed r evs)) over D' F'"
proof -
  let ?P = "\<lambda>ok hist over F. \<exists>D. answering E view cb i r ch ok hist over D F"
  have "\<exists>over. ?P (True \<and> (\<forall>ev \<in> set evs. stays i ev)) ([] @ map message_of (executed r evs)) over F'"
  proof (rule request_run [where P = ?P and c = hub_capacity and over = False, OF _ run regs calm once _ tokens(1)])
    fix ev F1 F2 ok hist over
    assume s: "fleet_step E ev F1 = Some F2" and P: "?P ok hist over F1"
      and a: "\<And>j q. (j, q) \<in> set (registration ev) \<Longrightarrow> cb q = advertised E (home E j)" "\<And>tok. ev \<noteq> ExecuteFails tok"
        "r \<notin> snd ` set (registration ev)" "executed r [ev] \<noteq> [] \<longrightarrow> \<not> over"
        "length hist + length (executed r [ev]) \<le> hub_capacity"
    from P obtain D where "answering E view cb i r ch ok hist over D F1" ..
    from answering_step [OF docs s a cb reach r this]
    show "?P (ok \<and> stays i ev) (hist @ map message_of (executed r [ev])) (over \<or> (\<exists>k \<in> set (executed r [ev]). te_Done k)) F2" .
  qed (use ans tokens(2) in auto)
  then show ?thesis by simp
qed

text \<open>The address of the server leads to another: the request gets nothing.\<close>

lemma starving_run:
  assumes docs: "redis_documented (fe_redis E) view" "grpc_documented (fe_lib E) (fe_view E)"
    and lost: "fe_reach E (cb r) \<noteq> home E i"
    and run: "fleet_run E evs F = Some F'" and regs: "\<And>j q. (j, q) \<in> set (registered evs) \<Longrightarrow> cb q = advertised E (home E j)"
    and calm: "\<And>tok. ExecuteFails tok \<notin> set evs" and once: "r \<notin> snd ` set (registered evs)"
    and tokens: "\<forall>k \<in> set (butlast (executed r evs)). \<not> te_Done k"
    and sv: "serving_request E view cb i r ch True [] False [] F"
  shows "\<exists>over. serving_request E view cb i r ch (\<forall>ev \<in> set evs. stays i ev) (map message_of (executed r evs)) over [] F'"
proof -
  let ?P = "\<lambda>ok hist over F. serving_request E view cb i r ch ok hist over [] F"
  have "\<exists>over. ?P (True \<and> (\<forall>ev \<in> set evs. stays i ev)) ([] @ map message_of (executed r evs)) over F'"
  proof (rule request_run [where P = ?P and over = False, OF _ run regs calm once _ tokens])
    fix ev F1 F2 ok hist over
    assume s: "fleet_step E ev F1 = Some F2" and P: "?P ok hist over F1"
      and a: "\<And>j q. (j, q) \<in> set (registration ev) \<Longrightarrow> cb q = advertised E (home E j)" "\<And>tok. ev \<noteq> ExecuteFails tok"
        "r \<notin> snd ` set (registration ev)" "executed r [ev] \<noteq> [] \<longrightarrow> \<not> over"
    show "?P (ok \<and> stays i ev) (hist @ map message_of (executed r [ev])) (over \<or> (\<exists>k \<in> set (executed r [ev]). te_Done k)) F2"
      by (rule serving_request_step [OF docs s a P]) (use s recv_other [OF _ P] lost in auto)
  qed (use sv in auto)
  then show ?thesis by simp
qed

text \<open>Until the registration nothing of the request is anywhere.\<close>

lemma unheard_step:
  assumes "redis_documented (fe_redis E) view" and "fleet_step E ev F = Some F'" and "\<And>tok. ev \<noteq> ExecuteFails tok"
    and "unheard view r F" and "\<And>i ch. held (sh_pc (fl_handlers F i)) \<noteq> Some (r, ch)"
  shows "unheard view r F' \<and> executed r [ev] = []"
proof (cases ev)
  case (Handler i e)
  with assms(2) have "handler_step E i e F = Some F'" and own: "own e" by (auto split: if_splits)
  then obtain h w where s: "stream_step (fe_redis E) (PublishRequest (fe_kafka E)) (advertised E (home E i))
      (po_session (fe_posts E i)) (po_user (fe_posts E i)) e (sh_pc (fl_handlers F i)) (fl_handlers F i)
      (api_of E F (home E i)) = Some (h, w)"
    and F': "F' = F\<lparr>fl_redis := api_redis w, fl_kafka := api_kafka w, fl_hubs := (fl_hubs F)(home E i := api_hub w),
      fl_handlers := (fl_handlers F)(i := h)\<rparr>"
    by (rule_tac handler_stepE)
  have "callback_entries (view (api_redis w)) r = None"
    using entries_step [OF assms(1) s own, of r] assms(4,5)
    by (cases "callback_entries (view (api_redis w)) r") (auto simp: unheard_def api_of_def)
  with assms(4) Handler show ?thesis by (simp add: F' unheard_def)
next
  case (Executes tok)
  with assms(2) have "execute_step E tok F = (Inr (), F')" by (auto split: prod.splits sum.splits)
  then obtain uc n d where x: "stream_Execute (shared_lib (fe_lib E)) (shared_getcb (fe_redis E)) tok
      (fl_streams F, (fl_net F, fl_redis F)) = (Inr (), (uc, (n, d)))"
    and F': "F' = F\<lparr>fl_streams := uc, fl_net := n, fl_redis := d\<rparr>"
    by (rule execute_stepE)
  have ne: "te_RequestID tok \<noteq> r"
    using Execute_unheard [OF assms(1) x] assms(4) by (simp add: unheard_def)
  have "callback_entries (view d) r = None"
    using Execute_callbacks [OF assms(1) x] assms(4) by (cases "callback_entries (view d) r") (auto simp: unheard_def)
  with Execute_other [OF x ne] assms(4) ne Executes show ?thesis by (simp add: F' unheard_def)
next
  case (ServerRecv t)
  with assms(2,4) recv_frame [of E t F F'] show ?thesis by (simp add: unheard_def)
qed (use assms(3) in simp)

lemma before_run:
  assumes "redis_documented (fe_redis E) view" and "grpc_documented (fe_lib E) (fe_view E)"
  shows "fleet_run E evs F = Some F' \<Longrightarrow> (\<And>j q. (j, q) \<in> set (registered evs) \<Longrightarrow> cb q = advertised E (home E j)) \<Longrightarrow>
    (\<And>tok. ExecuteFails tok \<notin> set evs) \<Longrightarrow> r \<notin> snd ` set (regs @ registered evs) \<Longrightarrow>
    tracked E view cb r [] False F \<Longrightarrow> tidy E F \<Longrightarrow> booked E regs F \<Longrightarrow> unheard view r F \<Longrightarrow>
    tracked E view cb r [] False F' \<and> tidy E F' \<and> booked E (regs @ registered evs) F' \<and> unheard view r F' \<and> executed r evs = []"
proof (induction evs arbitrary: F regs)
  case (Cons ev evs)
  obtain F1 where s: "fleet_step E ev F = Some F1" and run: "fleet_run E evs F1 = Some F'"
    using Cons.prems(1) by (auto split: option.splits)
  have cb: "\<And>j q. (j, q) \<in> set (registration ev) \<Longrightarrow> cb q = advertised E (home E j)" and nf: "\<And>tok. ev \<noteq> ExecuteFails tok"
    using Cons.prems(2,3) by auto
  have "held (sh_pc (fl_handlers F i)) \<noteq> Some (r, ch)" for i ch
    using Cons.prems(4,7) by (force simp: booked_def)
  from unheard_step [OF assms(1) s nf Cons.prems(8) this] have u: "unheard view r F1" "executed r [ev] = []" by simp_all
  have "tracked E view cb r [] False F1"
    using fleet_step_tracked [OF assms s cb nf Cons.prems(5)] unfolding u(2) by simp
  moreover have "well_routed E view cb F"
    using Cons.prems(5) by (simp add: tracked_def)
  from fleet_step_tidy [OF assms s nf this Cons.prems(6)] have "tidy E F1" .
  moreover have "booked E (regs @ registration ev) F1"
    by (rule fleet_step_booked [OF s Cons.prems(6,7)])
  ultimately show ?case
    using Cons.IH [OF run, of "regs @ registration ev"] Cons.prems(2-4) u by auto
qed simp

lemma fleet_New_tidy:
  assumes "\<And>t. nv_addr (fe_view E) n t = None"
  shows "tidy E (fleet_New E d k n)" and "booked E [] (fleet_New E d k n)"
  using assms by (simp_all add: tidy_def booked_def fleet_New_def)

lemma fleet_New_tracked:
  assumes "\<And>i q. (i, q) \<in> set regs \<Longrightarrow> callback_entries (view d) q = None" and "\<And>t. nv_addr (fe_view E) n t = None"
  shows "tracked E view (callback_home E (view d) regs) r [] False (fleet_New E d k n)"
  using fleet_New_routed [of regs view d E k n] assms
  by (simp add: tracked_def progress_def sole_def fleet_New_def NewStreamTokens_def)

text \<open>The registration itself.\<close>

lemma registration_answering:
  assumes "fleet_step E (Handler i (HRegister r)) F = Some F'" and "tracked E view cb r [] False F" and "well_routed E view cb F'"
    and "tidy E F" and "tidy E F'" and "booked E regs F" and "r \<notin> snd ` set regs"
  obtains content where "sh_pc (fl_handlers F i) = SRegister content" and "unsent r content (fl_handlers F' i)"
    and "answering E view cb i r (hub_next (fl_hubs F (home E i))) True [] False [] F'"
proof -
  let ?ch = "hub_next (fl_hubs F (home E i))"
  have s: "handler_step E i (HRegister r) F = Some F'" using assms(1) by simp
  obtain h w where st: "stream_step (fe_redis E) (PublishRequest (fe_kafka E)) (advertised E (home E i))
      (po_session (fe_posts E i)) (po_user (fe_posts E i)) (HRegister r) (sh_pc (fl_handlers F i)) (fl_handlers F i)
      (api_of E F (home E i)) = Some (h, w)"
    and F': "F' = F\<lparr>fl_redis := api_redis w, fl_kafka := api_kafka w, fl_hubs := (fl_hubs F)(home E i := api_hub w),
      fl_handlers := (fl_handlers F)(i := h)\<rparr>"
    using handler_stepE [OF s] .
  then obtain content where pc: "sh_pc (fl_handlers F i) = SRegister content" by (cases "sh_pc (fl_handlers F i)") auto
  have "hub_inv (api_hub (api_of E F (home E i)))" using assms(4) by (simp add: tidy_def api_of_def)
  from registered_following [OF this st [unfolded pc], of True]
  have "following True r ?ch [] (fl_handlers F' i) (fl_hubs F' (home E i))" by (simp add: F' api_of_def)
  moreover have "tracked E view cb r [] False F'"
    using tracked_cong [OF assms(2,3)] handler_frame [OF s] by simp
  moreover have "accounted (fe_view E) r [] (fl_read F') (fl_net F')"
    using \<open>tracked E view cb r [] False F'\<close> by (auto simp: accounted_def tracked_def sole_def)
  moreover have "apart E i r ?ch F'"
  proof -
    have "r' \<noteq> r \<and> ch' < ?ch" if "j \<noteq> i" "home E j = home E i" "held (sh_pc (fl_handlers F j)) = Some (r', ch')" for j r' ch'
      using that assms(6,7) by (force simp: booked_def)
    with register_next [OF s] handler_frame [OF s] show ?thesis by (force simp: apart_def)
  qed
  ultimately have "answering E view cb i r ?ch True [] False [] F'"
    using assms(5) by (simp add: answering_defs)
  moreover have "unsent r content (fl_handlers F' i)"
    using st by (auto simp: F' pc unsent_def split: prod.splits)
  ultimately show thesis using pc that by blast
qed

section \<open>The topic of chat requests\<close>

lemma publish_grows:
  assumes "kafka_documented kw queue" and "PublishRequest kw req k = (res, k')"
  shows "set (queue k topic) \<subseteq> set (queue k' topic)"
  using assms(2) kafka_documentedD [OF assms(1)]
  by (cases res) (fastforce simp: PublishRequest_def publisher_write_def)+

text \<open>What a handler publishes stays in the topic, and its response of 200 means that it published.\<close>

definition posted :: "('k \<Rightarrow> string \<Rightarrow> kafka_message list) \<Rightarrow> string \<Rightarrow> string \<Rightarrow> string \<Rightarrow> 'k \<Rightarrow> bool" where
  "posted queue sid r content k \<longleftrightarrow>
     (\<exists>m \<in> set (queue k topicRequests). unmarshal_ChatRequest (km_Value m) =
        Some \<lparr>cr_RequestID = to_valid_utf8 r, cr_SessionID = to_valid_utf8 sid, cr_Content = to_valid_utf8 content,
              cr_Timestamp = ''0''\<rparr>)"

definition sending ::
  "('d, 'k, 'n, 'c, 't) fleet_env \<Rightarrow> ('k \<Rightarrow> string \<Rightarrow> kafka_message list) \<Rightarrow> nat \<Rightarrow> string \<Rightarrow> string \<Rightarrow>
   ('d, 'k, 'n, 'c, 't) fleet \<Rightarrow> bool" where
  "sending E queue i r content F \<longleftrightarrow> unsent r content (fl_handlers F i) \<or>
     sh_pc (fl_handlers F i) = SReturned \<and> (\<exists>rsp. sh_rsp (fl_handlers F i) = Some rsp \<and> rsp_Status rsp = 500) \<or>
     posted queue (po_session (fe_posts E i)) r content (fl_kafka F)"

lemma step_grows:
  assumes "kafka_documented kw queue" and "stream_step run (PublishRequest kw) addr sid uid ev (sh_pc h) h w = Some (h', w')"
    and "own ev"
  shows "set (queue (api_kafka w) topic) \<subseteq> set (queue (api_kafka w') topic)"
  using assms(2,3)
  by (cases "sh_pc h"; cases ev)
    (auto simp: send_Execute_def Let_def dest: subsetD [OF publish_grows [OF assms(1)]]
      split: prod.splits sum.splits option.splits if_splits)

lemma fleet_step_grows:
  assumes "kafka_documented (fe_kafka E) queue" and "fleet_step E ev F = Some F'"
  shows "set (queue (fl_kafka F) topic) \<subseteq> set (queue (fl_kafka F') topic)"
proof (cases ev)
  case (Handler i e)
  with assms(2) have own: "own e" and "handler_step E i e F = Some F'" by (auto split: if_splits)
  from this(2) show ?thesis
    by (rule handler_stepE) (use step_grows [OF assms(1) _ own] in \<open>fastforce simp: api_of_def\<close>)
next
  case (ServerRecv t)
  with assms(2) recv_frame [of E t F F'] show ?thesis by simp
qed (use assms(2) execute_frame in \<open>fastforce split: prod.splits sum.splits\<close>)+

lemma sending_step:
  assumes "kafka_documented (fe_kafka E) queue" and "fleet_step E ev F = Some F'" and "sending E queue i r content F"
  shows "sending E queue i r content F'"
proof (cases "posted queue (po_session (fe_posts E i)) r content (fl_kafka F)")
  case True
  with fleet_step_grows [OF assms(1,2), of topicRequests] show ?thesis by (auto simp: sending_def posted_def)
next
  case False
  show ?thesis
  proof (cases "fl_handlers F' i = fl_handlers F i")
    case True
    with assms(3) False show ?thesis by (auto simp: sending_def)
  next
    case changed: False
    obtain e where s: "handler_step E i e F = Some F'" and own: "own e"
      using handler_moved [OF assms(2) changed] .
    obtain h w where st: "stream_step (fe_redis E) (PublishRequest (fe_kafka E)) (advertised E (home E i))
      (po_session (fe_posts E i)) (po_user (fe_posts E i)) e (sh_pc (fl_handlers F i)) (fl_handlers F i)
      (api_of E F (home E i)) = Some (h, w)"
      and F': "F' = F\<lparr>fl_redis := api_redis w, fl_kafka := api_kafka w, fl_hubs := (fl_hubs F)(home E i := api_hub w),
      fl_handlers := (fl_handlers F)(i := h)\<rparr>"
      using handler_stepE [OF s] .
    have "sh_pc (fl_handlers F i) \<noteq> SReturned"
      using st own by (cases e) auto
    with assms(3) False have "unsent r content (fl_handlers F i)" by (simp add: sending_def)
    from unsent_step [OF st this] show ?thesis
    proof (elim disjE conjE exE)
      fix out
      assume "send_Execute (PublishRequest (fe_kafka E)) (po_session (fe_posts E i)) content r new_streamOutputPort
          (api_kafka (api_of E F (home E i))) = (out, api_kafka w)" and "so_err out = None"
      moreover have "so_err new_streamOutputPort = None" by (simp add: new_streamOutputPort_def)
      ultimately have "posted queue (po_session (fe_posts E i)) r content (api_kafka w)"
        by (elim request_sent [OF assms(1)]) (auto simp: posted_def)
      then show ?thesis by (simp add: sending_def F')
    qed (auto simp: sending_def F')
  qed
qed

lemma sending_run:
  assumes "kafka_documented (fe_kafka E) queue"
  shows "fleet_run E evs F = Some F' \<Longrightarrow> sending E queue i r content F \<Longrightarrow> sending E queue i r content F'"
  by (induction evs arbitrary: F) (auto split: option.splits dest: sending_step [OF assms])

text \<open>The content is the one of the posted body.\<close>

lemma carries_fleet:
  "fleet_run E evs F = Some F' \<Longrightarrow> carries (po_body (fe_posts E i)) (fl_handlers F i) \<Longrightarrow>
     carries (po_body (fe_posts E i)) (fl_handlers F' i)"
proof (induction evs arbitrary: F)
  case (Cons ev evs)
  obtain F1 where s: "fleet_step E ev F = Some F1" and run: "fleet_run E evs F1 = Some F'"
    using Cons.prems(1) by (auto split: option.splits)
  have "carries (po_body (fe_posts E i)) (fl_handlers F1 i)"
  proof (cases "fl_handlers F1 i = fl_handlers F i")
    case False
    obtain e where "handler_step E i e F = Some F1"
      using handler_moved [OF s False] .
    then show ?thesis
      by (rule handler_stepE) (use carries_step Cons.prems(2) in fastforce)
  qed (use Cons.prems(2) in simp)
  with Cons.IH [OF run] show ?case .
qed simp

section \<open>At rest\<close>

text \<open>
  Nothing is left to do for the request: its handler waits for a token that is not there or has
  returned, and no server has a message to receive.
\<close>

definition fleet_rest :: "('d, 'k, 'n, 'c, 't) fleet_env \<Rightarrow> nat \<Rightarrow> ('d, 'k, 'n, 'c, 't) fleet \<Rightarrow> bool" where
  "fleet_rest E i F \<longleftrightarrow> handler_step E i HSetCallback F = None \<and> handler_step E i HSend F = None \<and>
     handler_step E i HReceive F = None \<and> (\<forall>t. recv_step E t F = None)"

lemma rest_sent: "fleet_rest E i F \<Longrightarrow> \<not> unsent r content (fl_handlers F i)"
  by (auto simp: unsent_def fleet_rest_def handler_step_def split: prod.splits option.splits)

lemma recv_step_None:
  "recv_step E t F = None \<Longrightarrow> nv_addr (fe_view E) (fl_net F) t = Some a \<Longrightarrow>
     t \<in> fl_over F \<or> length (nv_log (fe_view E) (fl_net F) t) \<le> fl_read F t"
  by (auto simp: recv_step_def split: if_splits prod.splits)

lemma rest_delivered:
  assumes "answering E view cb i r ch ok hist over D F" and "\<And>t. recv_step E t F = None"
    and "cb r = advertised E (home E i)" and "reachable E (home E i)" and "r \<noteq> []"
  shows "D = map pubsub_of hist"
proof (cases "hist = []")
  case True
  have "length D \<le> length hist"
    using assms(1) by (intro accounted_length) (auto simp: answering_defs)
  with True show ?thesis by simp
next
  case False
  have inv: "tracked E view cb r hist over F" "tidy E F" "accounted (fe_view E) r D (fl_read F) (fl_net F)"
    and mine: "about r hist = hist"
    using assms(1) by (simp_all add: answering_defs tracked_def)
  obtain t where t: "nv_addr (fe_view E) (fl_net F) t = Some (cb r)" "nv_log (fe_view E) (fl_net F) t = hist"
    using inv(1) False by (auto simp: tracked_def progress_def)
  have "tm_RequestId m = r" if "m \<in> set hist" for m
    using that mine by (metis (mono_tags, lifting) about_def filter_id_conv)
  then have "t \<notin> fl_over F"
    using inv(2) t assms(3-5) by (fastforce simp: tidy_def reachable_def)
  with recv_step_None [OF assms(2) t(1)] have "take (fl_read F t) hist = hist" by (simp add: t(2))
  with accounted_some [OF inv(3), of t] t False mine show ?thesis by simp
qed

lemma ended_lines:
  assumes "ended True D rsp" and "rsp_Status rsp \<noteq> 500"
  shows "rsp_Body rsp = chunk_lines (upto_done D)"
proof -
  obtain xs ys where x: "xs @ ys = D" "no_done (butlast xs)" "rsp = streamed_body xs" "xs \<noteq> []" "pt_Done (last xs)"
    using assms by (auto simp: ended_def)
  with upto_done_split [OF x(4,2,5), of ys] show ?thesis by auto
qed

lemma rest_returned:
  assumes "following True r ch D (fl_handlers F i) (fl_hubs F (home E i))" and "fleet_rest E i F"
    and "t \<in> set D" and "pt_Done t"
  shows "\<exists>rsp. sh_pc (fl_handlers F i) = SReturned \<and> sh_rsp (fl_handlers F i) = Some rsp \<and>
    (rsp_Status rsp = 500 \<or> rsp_Body rsp = chunk_lines (upto_done D))"
proof (cases "sh_pc (fl_handlers F i)")
  case (SSetCallback content r' ch')
  with assms(2) show ?thesis by (auto simp: fleet_rest_def handler_step_def split: prod.splits)
next
  case (SSend content r' ch')
  with assms(2) show ?thesis by (auto simp: fleet_rest_def handler_step_def split: prod.splits option.splits)
next
  case (SStreaming r' ch')
  with assms(1) obtain xs ys where x: "ch' = ch" "xs @ ys = D" "no_done xs" "waiting r ch ys (fl_hubs F (home E i))"
    by (auto simp: following_def)
  with assms(3,4) obtain y ys' where "ys = y # ys'" by (cases ys) auto
  with x have "hub_recv ch (fl_hubs F (home E i)) \<noteq> None" by (simp add: waiting_def hub_recv_def)
  with SStreaming x(1) assms(2) show ?thesis
    by (auto simp: fleet_rest_def handler_step_def api_of_def split: option.splits if_splits)
next
  case SReturned
  with assms(1) ended_lines show ?thesis by (fastforce simp: following_def)
qed (use assms(1) in \<open>simp_all add: following_def\<close>)

text \<open>A registered request: its run before and after the registration.\<close>

lemma request_registered:
  assumes docs: "redis_documented (fe_redis E) view" "grpc_documented (fe_lib E) (fe_view E)"
    and ran: "fleet_ran E view d k n evs F" and req: "(i, r) \<in> set (registered evs)"
  defines "cb \<equiv> callback_home E (view d) (registered evs)"
  obtains pre post Fb content ch where "evs = pre @ Handler i (HRegister r) # post" and "fleet_run E post Fb = Some F"
    and "executed r pre = []" and "r \<notin> snd ` set (registered post)" and "unsent r content (fl_handlers Fb i)"
    and "ShouldBindJSON content_fields [] (po_body (fe_posts E i)) = Some content"
    and "answering E view cb i r ch True [] False [] Fb"
proof -
  let ?F0 = "fleet_New E d k n"
  note run = fleet_startedD [of E view d k n evs F]
  have started: "fleet_started E view d k n evs F" and calm: "\<And>tok. ExecuteFails tok \<notin> set evs"
    using ran by (simp_all add: fleet_ran_def)
  note run = fleet_startedD [OF started]
  obtain pre post where evs: "evs = pre @ Handler i (HRegister r) # post"
  proof -
    obtain ev where "ev \<in> set evs" "(i, r) \<in> set (registration ev)"
      using req by (auto simp: registered_def)
    moreover from this(2) have "ev = Handler i (HRegister r)"
      by (cases ev rule: registration.cases) auto
    ultimately show thesis using that by (metis in_set_conv_decomp)
  qed
  have once: "r \<notin> snd ` set (registered pre)" "r \<notin> snd ` set (registered post)"
    using run(2) by (auto simp: evs)
  obtain Fa Fb where a: "fleet_run E pre ?F0 = Some Fa" and b: "fleet_step E (Handler i (HRegister r)) Fa = Some Fb"
    and c: "fleet_run E post Fb = Some F"
    using run(1) by (auto simp: evs fleet_run_append split: option.splits)
  have "unheard view r ?F0"
    using run(3) [OF req] by (simp add: unheard_def fleet_New_def NewStreamTokens_def)
  then have pre: "tracked E view cb r [] False Fa" "tidy E Fa" "booked E (registered pre) Fa" "executed r pre = []"
    using before_run [OF docs a, of cb r "[]"] run(5) calm once(1) fleet_New_tidy [OF run(4)]
      fleet_New_tracked [where view = view and regs = "registered evs" and d = d, OF run(3,4)]
    by (auto simp: evs cb_def)
  have "well_routed E view cb Fa" using pre(1) by (simp add: tracked_def)
  then have "well_routed E view cb Fb" "tidy E Fb"
    using fleet_step_routed [OF docs b, of cb] fleet_step_tidy [OF docs b, of cb] run(5) pre(2) by (auto simp: evs cb_def)
  from registration_answering [OF b pre(1) this(1) pre(2) this(2) pre(3) once(1)] obtain content where
    content: "sh_pc (fl_handlers Fa i) = SRegister content" "unsent r content (fl_handlers Fb i)"
    and ans: "answering E view cb i r (hub_next (fl_hubs Fa (home E i))) True [] False [] Fb" .
  have "ShouldBindJSON content_fields [] (po_body (fe_posts E i)) = Some content"
    using carries_fleet [OF a, of i] carries_start content(1) by (simp add: fleet_New_def carries_def)
  with that evs c pre(4) once(2) content(2) ans show thesis by blast
qed

text \<open>A registered request, when all has come to rest: published, and answered if its reply was executed.\<close>

lemma fleet_reply:
  assumes docs: "redis_documented (fe_redis E) view" "grpc_documented (fe_lib E) (fe_view E)" "kafka_documented (fe_kafka E) queue"
    and ran: "fleet_ran E view d k n evs F"
    and req: "(i, r) \<in> set (registered evs)" "r \<noteq> []" "reachable E (home E i)"
    and calm: "\<forall>ev \<in> set evs. stays i ev" and rest: "fleet_rest E i F"
  obtains content where "ShouldBindJSON content_fields [] (po_body (fe_posts E i)) = Some content"
    and "sending E queue i r content F" and "\<not> unsent r content (fl_handlers F i)"
    and "\<And>us u. executed r evs = us @ [u] \<Longrightarrow> te_Done u \<Longrightarrow> \<forall>k \<in> set us. \<not> te_Done k \<Longrightarrow> length us < 1000 \<Longrightarrow>
      \<exists>rsp. sh_pc (fl_handlers F i) = SReturned \<and> sh_rsp (fl_handlers F i) = Some rsp \<and>
        (rsp_Status rsp = 500 \<or> rsp_Body rsp = chunk_lines (map (pubsub_of \<circ> message_of) (executed r evs)))"
proof -
  let ?cb = "callback_home E (view d) (registered evs)"
  have "fleet_started E view d k n evs F" and nf: "\<And>tok. ExecuteFails tok \<notin> set evs"
    using ran by (simp_all add: fleet_ran_def)
  note cb = fleet_startedD(5) [OF this(1)]
  obtain pre post Fb content ch where evs: "evs = pre @ Handler i (HRegister r) # post"
    and c: "fleet_run E post Fb = Some F" and once: "executed r pre = []" "r \<notin> snd ` set (registered post)"
    and content: "unsent r content (fl_handlers Fb i)" "ShouldBindJSON content_fields [] (po_body (fe_posts E i)) = Some content"
    and ans: "answering E view ?cb i r ch True [] False [] Fb"
    using request_registered [OF docs(1,2) ran req(1)] .
  have "sending E queue i r content F"
    using sending_run [OF docs(3) c, of i r content] content(1) by (simp add: sending_def)
  moreover have "\<not> unsent r content (fl_handlers F i)"
    by (rule rest_sent [OF rest])
  moreover have "\<exists>rsp. sh_pc (fl_handlers F i) = SReturned \<and> sh_rsp (fl_handlers F i) = Some rsp \<and>
        (rsp_Status rsp = 500 \<or> rsp_Body rsp = chunk_lines (map (pubsub_of \<circ> message_of) (executed r evs)))"
    if "executed r evs = us @ [u]" "te_Done u" "\<forall>k \<in> set us. \<not> te_Done k" "length us < 1000" for us u
  proof -
    note tokens = that
    have x: "executed r post = us @ [u]" using tokens(1) once(1) by (simp add: evs)
    obtain over D where "answering E view ?cb i r ch (\<forall>ev \<in> set post. stays i ev)
        (map message_of (executed r post)) over D F"
      using answering_run [OF docs(1,2) cb [OF req(1)] req(3,2) c _ _ once(2) _ _ ans] cb nf tokens(3,4) x
      by (auto simp: evs hub_capacity_def)
    with calm have fin: "answering E view ?cb i r ch True (map message_of (us @ [u])) over D F"
      by (simp add: evs x)
    have D: "D = map pubsub_of (map message_of (us @ [u]))"
      by (rule rest_delivered [OF fin _ cb [OF req(1)] req(3,2)]) (use rest in \<open>simp add: fleet_rest_def\<close>)
    have "upto_done (map pubsub_of (map message_of (us @ [u]))) = map pubsub_of (map message_of (us @ [u]))"
      using tokens(2,3) by (induction us) (simp_all add: pubsub_of_def message_of_def)
    with rest_returned [of r ch D F i E "pubsub_of (message_of u)"] fin rest D tokens(1,2) show ?thesis
      by (simp add: answering_defs pubsub_of_def message_of_def comp_def)
  qed
  ultimately show thesis using content(2) that by blast
qed

end
