(* ===== verification/FleetService.thy ===== *)
theory FleetService
  imports FleetReply
begin

text \<open>
  What the servers and the workers of \<open>Fleet\<close> do for a client together: every request is answered by
  the server that took it, with its own reply; and what happens when that server's address is not its
  own.  First two runs of one request, for the examples: two servers, each behind its own address or
  both behind one.
\<close>

section \<open>Example runs\<close>

definition demo_server_config :: "string \<Rightarrow> Config" where
  "demo_server_config addr = config_Load (\<lambda>v. if v = ''GRPC_ADVERTISED_ADDR'' then addr
     else if v = ''CALLBACK_SECRET'' then ''key'' else [])"

definition demo_fleet ::
  "(nat \<Rightarrow> string) \<Rightarrow> (string \<Rightarrow> nat) \<Rightarrow> (redis_view, string \<Rightarrow> kafka_message list, toy_net, nat, nat) fleet_env" where
  "demo_fleet addr reach =
     \<lparr>fe_redis = ref_redis, fe_kafka = ref_kafka None, fe_lib = toy_lib, fe_view = toy_view, fe_reach = reach,
      fe_cfg = (\<lambda>s. demo_server_config (addr s)), fe_worker = demo_server_config [],
      fe_posts = (\<lambda>i. \<lparr>po_server = 1, po_session = ''s1'', po_user = ''ann'', po_body = demo_post\<rparr>)\<rparr>"

lemma demo_server_config_simps [simp]:
  "cfg_CallbackSecret (demo_server_config addr) = ''key''"
  "addr \<noteq> [] \<Longrightarrow> cfg_GRPCAdvertisedAddr (demo_server_config addr) = addr"
  by (simp_all add: demo_server_config_def config_Load_def Let_def)

lemma demo_trusted [simp]: "trusted (demo_fleet addr reach) s"
  by (simp add: trusted_def demo_fleet_def)

lemma demo_advertised [simp]: "addr s \<noteq> [] \<Longrightarrow> advertised (demo_fleet addr reach) s = addr s"
  by (simp add: advertised_def NewChatStreamHandler_def demo_fleet_def)

definition demo_events :: "bool \<Rightarrow> (redis_view, string \<Rightarrow> kafka_message list, nat) fleet_event list" where
  "demo_events reads =
     [Handler 0 HClaim, Handler 0 (HRegister ''r1''), Handler 0 HSetCallback, Handler 0 HSend] @
     concat (map (\<lambda>k. [Executes k, ServerRecv 1] @ (if reads then [Handler 0 HReceive] else []))
       [demo_te ''r1'' ''a'' False, demo_te ''r1'' '' b'' False, demo_te ''r1'' [] True])"

lemma demo_tokens:
  "map (event_of \<circ> stream_token_of) demo_reply =
     [demo_te ''r1'' ''a'' False, demo_te ''r1'' '' b'' False, demo_te ''r1'' [] True]"
  by (simp add: demo_reply_def reply_events_def delta_event_def done_event_def demo_request_def event_of_def
      stream_token_of_def demo_te_def to_valid_utf8_ascii ascii_def byte_def)

definition demo_fleet_start where
  "demo_fleet_start addr reach = fleet_New (demo_fleet addr reach) empty_redis no_messages toy_start"

lemma demo_recv:
  "recv_step (demo_fleet addr reach) t F =
     (case nv_addr toy_view (fl_net F) t of None \<Rightarrow> None
      | Some a \<Rightarrow> if t \<in> fl_over F \<or> length (tn_log (fl_net F) t) \<le> fl_read F t then None
        else let m = tn_log (fl_net F) t ! fl_read F t; s = reach a
          in if tm_RequestId m \<noteq> [] then
               Some (F\<lparr>fl_hubs := (fl_hubs F)(s := hub_Deliver (tm_RequestId m) (pubsub_of m) (fl_hubs F s)),
                 fl_read := (fl_read F)(t := Suc (fl_read F t))\<rparr>)
             else Some (F\<lparr>fl_read := (fl_read F)(t := Suc (fl_read F t)), fl_over := insert t (fl_over F)\<rparr>))"
proof -
  have "StreamAuthInterceptor ''key'' (Some (metadata_of ''key'')) (DeliverTokens hub_Deliver None [RecvMsg m]) h =
    (if tm_RequestId m \<noteq> [] then (None, hub_Deliver (tm_RequestId m) (pubsub_of m) h)
     else (Some (Some (Status InvalidArgument ''request_id required'')), h))" for m h
    using client_authorized [of "''key''" "''key''" "DeliverTokens hub_Deliver None [RecvMsg m]" h]
    by (simp add: metadata_of_def [abs_def])
  then show ?thesis
    by (simp add: recv_step_def demo_fleet_def toy_view_def Let_def split: option.split)
qed


lemma demo_handlers [simp]:
  "home (demo_fleet addr reach) i = 1" "po_session (fe_posts (demo_fleet addr reach) i) = ''s1''"
  "po_user (fe_posts (demo_fleet addr reach) i) = ''ann''" "po_body (fe_posts (demo_fleet addr reach) i) = demo_post"
  "fe_redis (demo_fleet addr reach) = ref_redis" "fe_kafka (demo_fleet addr reach) = ref_kafka None"
  "fe_lib (demo_fleet addr reach) = toy_lib" "fe_view (demo_fleet addr reach) = toy_view"
  "fe_reach (demo_fleet addr reach) = reach" "fe_worker (demo_fleet addr reach) = demo_server_config []"
  by (simp_all add: demo_fleet_def)

lemmas demo_steps = handler_step_def api_of_def execute_step_def demo_recv hub_op_defs Let_def SetCallback_def go_bind_def
  go_return_def ref_redis_def send_Execute_def PublishRequest_def publisher_write_def ref_kafka_def new_streamOutputPort_def
  chan_offer_def hub_capacity_def write_chunk_def ndjson_start_def

lemmas demo_streams = stream_Execute_def getOrOpenStream_def resolveAddr_def getConn_def wrap_err_def on_world_def
  toy_lib_def toy_view_def toy_start_def NewStreamTokens_def evict_def demo_te_def message_of_def pubsub_of_def

lemmas demo_calls = demo_streams demo_steps shared_lib_def shared_getcb_def on_net_def GetCallback_def lookup_set_key callbackTTL_def alive_def

lemmas demo_start_defs = demo_events_def demo_fleet_start_def fleet_New_def stream_start_def demo_post_content hub_New_def

lemma demo_fleet_run:
  assumes "addr 1 \<noteq> []" and "reach (addr 1) = 1"
  shows "\<exists>F rsp m. fleet_run (demo_fleet addr reach) (demo_events True) (demo_fleet_start addr reach) = Some F \<and>
    sh_pc (fl_handlers F 0) = SReturned \<and> sh_rsp (fl_handlers F 0) = Some rsp \<and> rsp_Status rsp = 200 \<and>
    (\<forall>t. recv_step (demo_fleet addr reach) t F = None) \<and>
    fl_kafka F topicRequests = [m] \<and> km_Value m = marshal_ChatRequest demo_request"
  using assms
  by (simp add: demo_start_defs ClaimOwner_ref demo_steps, simp add: demo_calls demo_request_def no_messages_def)

lemma demo_fleet_lost:
  assumes "addr 1 \<noteq> []" and "reach (addr 1) = 0"
  shows "\<exists>F. fleet_run (demo_fleet addr reach) (demo_events False) (demo_fleet_start addr reach) = Some F \<and>
    fleet_rest (demo_fleet addr reach) 0 F"
  using assms
  by (simp add: demo_start_defs ClaimOwner_ref demo_steps, simp add: demo_calls fleet_rest_def)

lemma demo_fleet_open:
  assumes "addr 1 \<noteq> []" and "reach (addr 1) = 1"
  shows "\<exists>F. fleet_run (demo_fleet addr reach) (take 6 (demo_events True)) (demo_fleet_start addr reach) = Some F \<and>
    su_streams (fl_streams F) ''r1'' = Some 1"
  using assms
  by (simp add: demo_start_defs ClaimOwner_ref demo_steps, simp add: demo_calls)

lemma demo_registered:
  "registered (demo_events reads) = [(0, ''r1'')]" "registered (take 6 (demo_events True)) = [(0, ''r1'')]"
  "executions (demo_events reads) = map (event_of \<circ> stream_token_of) demo_reply"
  "executed ''r1'' (demo_events reads) = map (event_of \<circ> stream_token_of) demo_reply"
  "ExecuteFails tok \<notin> set (demo_events reads)"
  by (simp_all add: demo_events_def demo_tokens executions_def demo_te_def)

lemma demo_started:
  assumes "fleet_run (demo_fleet addr reach) evs (demo_fleet_start addr reach) = Some F" and "registered evs = [(0, ''r1'')]"
  shows "fleet_started (demo_fleet addr reach) (\<lambda>v. v) empty_redis no_messages toy_start evs F"
  using assms by (simp add: fleet_started_def demo_fleet_start_def callback_entries_def toy_view_def toy_start_def)

lemma demo_ran:
  "fleet_run (demo_fleet addr reach) (demo_events reads) (demo_fleet_start addr reach) = Some F \<Longrightarrow>
     fleet_ran (demo_fleet addr reach) (\<lambda>v. v) empty_redis no_messages toy_start (demo_events reads) F"
  by (simp add: fleet_ran_def demo_started demo_registered)

section \<open>Every request is answered\<close>

text \<open>
  (C1) With any number of API servers, LLM worker and streaming worker in between, every posted request is
  answered.  The servers share Redis, each with its own hub; their handlers, the calls of
  \<open>Execute\<close> and the receives of the gRPC servers interleave in any way, and no call of \<open>Execute\<close>
  fails.  The worker has read the topic of chat requests and is idle again, the streaming worker
  made the calls for what the worker published, no client and no connection of the request breaks, and all has come to rest.  Then
  the request's handler, on whatever server, has returned, and unless the publication failed (500), the body it was posted
  was a valid request, and the response is exactly one line per token the generator produced for its
  content, in order, and one done line.
\<close>

theorem fleet_answers:
  assumes "redis_documented (fe_redis E) view" and "grpc_documented (fe_lib E) (fe_view E)"
    and "kafka_documented (fe_kafka E) queue" and "fleet_ran E view d k n evs F"
    and "(i, r) \<in> set (registered evs)" and "r \<noteq> []" and "valid_utf8 r" and "reachable E (home E i)"
    and "\<forall>ev \<in> set evs. stays i ev" and "fleet_rest E i F"
    and "worker_ran (fe_kafka E) queue gen c wevs k' s" and "worker_idle s"
    and "\<And>content res. gen content res \<Longrightarrow> \<exists>tokens. res = Inr tokens"
    and "\<And>m. m \<in> set (queue (fl_kafka F) topicRequests) \<Longrightarrow> ReqFetched (km_Value m) \<in> set wevs"
    and "partitioned ms (queue (wk_kafka s) topicStreamFE)" and "sw_payloads sevs = map km_Value ms"
    and "sw_steps exec sevs (sw_New x) ss" and "CtxCancelled \<notin> set sevs" and "\<And>ch. TimedOut ch \<notin> set sevs"
    and "drained ss r" and "executions evs = map event_of (sw_calls ss)" and "length (executed r evs) \<le> 1000"
  shows "\<exists>rsp. sh_pc (fl_handlers F i) = SReturned \<and> sh_rsp (fl_handlers F i) = Some rsp \<and>
    (rsp_Status rsp = 500 \<or>
     (\<exists>content tokens. ShouldBindJSON content_fields [] (po_body (fe_posts E i)) = Some content \<and>
        gen content (Inr tokens) \<and> rsp_Body rsp = chunk_lines (reply_tokens r tokens)))"
proof -
  obtain content where body: "ShouldBindJSON content_fields [] (po_body (fe_posts E i)) = Some content"
    and sent: "sending E queue i r content F" "\<not> unsent r content (fl_handlers F i)"
    and reply: "\<And>us u. executed r evs = us @ [u] \<Longrightarrow> te_Done u \<Longrightarrow> \<forall>k \<in> set us. \<not> te_Done k \<Longrightarrow> length us < 1000 \<Longrightarrow>
      \<exists>rsp. sh_pc (fl_handlers F i) = SReturned \<and> sh_rsp (fl_handlers F i) = Some rsp \<and>
        (rsp_Status rsp = 500 \<or> rsp_Body rsp = chunk_lines (map (pubsub_of \<circ> message_of) (executed r evs)))"
    by (rule fleet_reply [OF assms(1-6,8-10)]) (rule that)
  show ?thesis
  proof (cases "posted queue (po_session (fe_posts E i)) r content (fl_kafka F)")
    case False
    with sent show ?thesis by (auto simp: sending_def)
  next
    case True
    let ?req = "\<lparr>cr_RequestID = r, cr_SessionID = to_valid_utf8 (po_session (fe_posts E i)), cr_Content = content,
        cr_Timestamp = ''0''\<rparr>"
    from True obtain m where m: "m \<in> set (queue (fl_kafka F) topicRequests)" "unmarshal_ChatRequest (km_Value m) = Some ?req"
      by (auto simp: posted_def to_valid_utf8_id assms(7) content_utf8 [OF body])
    from request_done [OF assms(11-13) assms(14) [OF m(1)] m(2)] obtain p where
      p: "p \<in> set (wk_procs s)" "wp_Req p = ?req" "done_event ?req \<in> set (wk_calls s)" .
    have rid: "proc_id p = r" by (simp add: proc_id_def p(2))
    obtain tokens where t: "gen content (Inr tokens)" "utf8_events (reply_events ?req tokens True)"
      "for_req r (sw_calls ss) = map stream_token_of (reply_events ?req tokens True)"
      using reply_calls [OF assms(3,11) p(1) rid _ assms(15-20)] p(2,3) by auto
    have x: "executed r evs = map (event_of \<circ> stream_token_of) (reply_events ?req tokens True)"
      using arg_cong [OF t(3), of "map event_of"]
      by (simp add: executed_def assms(21) filter_map comp_def event_of_def)
    have "map (pubsub_of \<circ> message_of) (executed r evs) = map pubsub_of (map token_sent (reply_events ?req tokens True))"
      using t(2) by (simp add: x message_of_stream_token)
    also have "\<dots> = reply_tokens r tokens"
      by (simp add: reply_events_def reply_tokens_def token_sent_def pubsub_of_def delta_event_def done_event_def comp_def)
    finally have lines: "map (pubsub_of \<circ> message_of) (executed r evs) = reply_tokens r tokens" .
    have "\<exists>us u. executed r evs = us @ [u] \<and> te_Done u \<and> (\<forall>k \<in> set us. \<not> te_Done k)"
      by (auto simp: x reply_events_def event_of_def stream_token_of_def delta_event_def done_event_def)
    with reply assms(22) obtain rsp where "sh_pc (fl_handlers F i) = SReturned" "sh_rsp (fl_handlers F i) = Some rsp"
      "rsp_Status rsp = 500 \<or> rsp_Body rsp = chunk_lines (reply_tokens r tokens)"
      unfolding lines [symmetric] by fastforce
    with body t(1) show ?thesis by blast
  qed
qed

theorem fleet_answers_witness:
  "\<exists>F rsp. fleet_run (demo_fleet (\<lambda>s. if s = 1 then ''api-2:50051'' else ''api-1:50051'')
       (\<lambda>a. if a = ''api-2:50051'' then 1 else 0)) (demo_events True) (demo_fleet_start
       (\<lambda>s. if s = 1 then ''api-2:50051'' else ''api-1:50051'') (\<lambda>a. if a = ''api-2:50051'' then 1 else 0)) = Some F \<and>
     sh_rsp (fl_handlers F 0) = Some rsp \<and> rsp_Body rsp = chunk_lines (reply_tokens ''r1'' [''a'', '' b''])"
proof -
  let ?addr = "\<lambda>s. if s = (1::nat) then ''api-2:50051'' else ''api-1:50051''"
    and ?reach = "\<lambda>a. if a = ''api-2:50051'' then 1 else (0::nat)"
  obtain F rsp m where run: "fleet_run (demo_fleet ?addr ?reach) (demo_events True) (demo_fleet_start ?addr ?reach) = Some F"
    and h: "sh_pc (fl_handlers F 0) = SReturned" "sh_rsp (fl_handlers F 0) = Some rsp" "rsp_Status rsp = 200"
    and rest: "\<And>t. recv_step (demo_fleet ?addr ?reach) t F = None"
    and m: "fl_kafka F topicRequests = [m]" "km_Value m = marshal_ChatRequest demo_request"
    using demo_fleet_run [of ?addr ?reach] by auto
  obtain wevs s p where w: "worker_ran (ref_kafka None) (\<lambda>q. q) demo_gen 1 wevs no_messages s"
    "wk_calls s = demo_reply" "ReqFetched (marshal_ChatRequest demo_request) \<in> set wevs" "wk_procs s = [p]"
    "wp_PC p = Releasing" "wk_loop s = WFetching"
    using demo_worker_ran by blast
  have idle: "worker_idle s" by (simp add: worker_idle_def w(4-6))
  have gen: "\<exists>tokens. r = Inr tokens" if "demo_gen content r" for content r
    using that by (simp add: demo_gen_def)
  have pl: "sw_payloads (serve demo_reply) = map km_Value (wk_kafka s topicStreamFE)"
    using keyed_values [OF worker_topics(1) [OF ref_kafka_documented w(1)]] w(2) by (simp add: sw_payloads_serve)
  obtain ss where ss: "sw_steps (\<lambda>x t. x) (serve demo_reply) (sw_New ()) ss" "drained ss ''r1''"
    "sw_calls ss = map stream_token_of demo_reply"
    using serve_all [of demo_reply "''r1''" "\<lambda>x t. x" "()"] drained_serving
    by (auto simp: demo_reply_def reply_events_def stream_token_of_def delta_event_def done_event_def
        demo_request_def to_valid_utf8_ascii ascii_def byte_def)
  have r1: "valid_utf8 ''r1''" by (simp add: valid_utf8_ascii ascii_def byte_def)
  let ?E = "demo_fleet ?addr ?reach"
  have reach: "reachable ?E (home ?E 0)"
    by (simp add: reachable_def)
  have calm: "\<forall>ev \<in> set (demo_events True). stays 0 ev"
    by (simp add: demo_events_def keeps_ok_def)
  have at_rest: "fleet_rest ?E 0 F"
    using rest h(1) by (simp add: fleet_rest_def handler_step_def)
  have docs: "redis_documented (fe_redis ?E) (\<lambda>v. v)" "grpc_documented (fe_lib ?E) (fe_view ?E)"
    "kafka_documented (fe_kafka ?E) (\<lambda>q. q)" "worker_ran (fe_kafka ?E) (\<lambda>q. q) demo_gen 1 wevs no_messages s"
    using w(1) by (simp_all add: ref_redis_documented toy_documented ref_kafka_documented)
  have req: "(0, ''r1'') \<in> set (registered (demo_events True))" "''r1'' \<noteq> []"
    by (simp_all add: demo_registered)
  have sent: "ReqFetched (km_Value x) \<in> set wevs" if "x \<in> set (fl_kafka F topicRequests)" for x
    using that m w(3) by simp
  have calls: "executions (demo_events True) = map event_of (sw_calls ss)"
    by (simp add: demo_registered ss(3))
  have len: "length (executed ''r1'' (demo_events True)) \<le> 1000"
    by (simp add: demo_registered demo_tokens)
  from fleet_answers [where queue = "\<lambda>q. q", OF docs(1-3) demo_ran [OF run] req r1 reach calm at_rest docs(4) idle gen sent
      partitioned_refl pl ss(1) serve_calm ss(2) calls len] h
  have "rsp_Body rsp = chunk_lines (reply_tokens ''r1'' [''a'', '' b''])"
    by (simp add: demo_gen_def)
  with run h show ?thesis by blast
qed


section \<open>Routing\<close>

text \<open>
  (C4) The streaming worker looks for a request where it was registered, under every schedule and whatever
  calls fail: with any number of API servers that share Redis, every callback address in
  Redis, every address the streaming worker remembers and every stream it has open for a request is
  that of the server whose handler registered the request.
\<close>

theorem fleet_routes_home:
  assumes "redis_documented (fe_redis E) view" and "grpc_documented (fe_lib E) (fe_view E)"
    and "fleet_started E view d k n evs F" and "(i, r) \<in> set (registered evs)"
  shows "(\<forall>a dl. callback_entries (view (fl_redis F)) r = Some (a, dl) \<longrightarrow> a = advertised E (home E i)) \<and>
    (\<forall>a. su_addrMap (fl_streams F) r = Some a \<longrightarrow> a = advertised E (home E i)) \<and>
    (\<forall>t. su_streams (fl_streams F) r = Some t \<longrightarrow>
      nv_addr (fe_view E) (fl_net F) t = Some (advertised E (home E i)))"
proof -
  note run = fleet_startedD [OF assms(3)]
  have "well_routed E view (callback_home E (view d) (registered evs)) F"
    using fleet_run_routed [OF assms(1,2) run(1,5) fleet_New_routed] run(3) by metis
  with run(5) [OF assms(4)] show ?thesis
    by (auto simp: well_routed_def callbacks_ok_def su_inv_def)
qed

theorem fleet_routes_home_witness:
  "\<exists>F. fleet_run (demo_fleet (\<lambda>_. ''api:1'') (\<lambda>_. 1)) (take 6 (demo_events True))
      (demo_fleet_start (\<lambda>_. ''api:1'') (\<lambda>_. 1)) = Some F \<and> nv_addr toy_view (fl_net F) 1 = Some ''api:1''"
proof -
  let ?E = "demo_fleet (\<lambda>_. ''api:1'') (\<lambda>_. 1)"
  obtain F where run: "fleet_run ?E (take 6 (demo_events True)) (demo_fleet_start (\<lambda>_. ''api:1'') (\<lambda>_. 1)) = Some F"
    and st: "su_streams (fl_streams F) ''r1'' = Some 1"
    using demo_fleet_open [of "\<lambda>_. ''api:1''" "\<lambda>_. 1"] by auto
  have "redis_documented (fe_redis ?E) (\<lambda>v. v)" "grpc_documented (fe_lib ?E) (fe_view ?E)"
    by (simp_all add: ref_redis_documented toy_documented)
  from fleet_routes_home [OF this demo_started [OF run demo_registered(2)], of 0 "''r1''"] st run show ?thesis
    by (simp add: demo_registered)
qed

section \<open>An address that leads elsewhere\<close>

text \<open>
  (C33) Replicas that advertise one address lose replies: a request whose server cannot be reached
  at the address it advertises, as when two servers advertise the same one, is published and its tokens
  are executed without any error, but never a token comes back: its response stays empty, and it
  ends only when the client leaves.
\<close>

theorem misrouted_reply_lost:
  assumes "redis_documented (fe_redis E) view" and "grpc_documented (fe_lib E) (fe_view E)"
    and "fleet_ran E view d k n evs F" and "(i, r) \<in> set (registered evs)"
    and "fe_reach E (advertised E (home E i)) \<noteq> home E i"
    and "\<forall>tok \<in> set (butlast (executed r evs)). \<not> te_Done tok"
    and "fleet_rest E i F"
  shows "\<exists>rsp. sh_rsp (fl_handlers F i) = Some rsp \<and> (rsp_Status rsp = 500 \<or>
    rsp_Body rsp = [] \<and> (sh_pc (fl_handlers F i) \<noteq> SReturned \<or> (\<exists>ev \<in> set evs. \<not> stays i ev)))"
proof -
  let ?cb = "callback_home E (view d) (registered evs)"
  have "fleet_started E view d k n evs F" and nf: "\<And>tok. ExecuteFails tok \<notin> set evs"
    using assms(3) by (simp_all add: fleet_ran_def)
  note cb = fleet_startedD(5) [OF this(1)]
  obtain pre post Fb content ch where evs: "evs = pre @ Handler i (HRegister r) # post"
    and c: "fleet_run E post Fb = Some F" and once: "executed r pre = []" "r \<notin> snd ` set (registered post)"
    and u: "unsent r content (fl_handlers Fb i)" and ans: "answering E view ?cb i r ch True [] False [] Fb"
    using request_registered [OF assms(1-4)] .
  have "fe_reach E (?cb r) \<noteq> home E i"
    using cb [OF assms(4)] assms(5) by simp
  from starving_run [where cb = ?cb and r = r and E = E, OF assms(1,2) this c _ _ once(2)]
  have "\<exists>over. serving_request E view ?cb i r ch (\<forall>ev \<in> set post. stays i ev) (map message_of (executed r post)) over [] F"
    using cb nf assms(6) once(1) ans by (auto simp: evs answering_def)
  then have "following (\<forall>ev \<in> set post. stays i ev) r ch [] (fl_handlers F i) (fl_hubs F (home E i))"
    by (auto simp: serving_request_def)
  moreover have "\<not> unsent r content (fl_handlers F i)" for content
    by (rule rest_sent [OF assms(7)])
  ultimately show ?thesis
    by (cases "sh_pc (fl_handlers F i)")
      (auto simp: following_def ended_def evs chunk_lines_def unsent_def ndjson_start_def)
qed

theorem misrouted_reply_lost_witness:
  "\<exists>F rsp. fleet_run (demo_fleet (\<lambda>_. ''api:50051'') (\<lambda>_. 0)) (demo_events False)
      (demo_fleet_start (\<lambda>_. ''api:50051'') (\<lambda>_. 0)) = Some F \<and> sh_rsp (fl_handlers F 0) = Some rsp \<and>
    (rsp_Status rsp = 500 \<or> rsp_Body rsp = [] \<and> sh_pc (fl_handlers F 0) \<noteq> SReturned)"
proof -
  let ?E = "demo_fleet (\<lambda>_. ''api:50051'') (\<lambda>_. 0)"
  obtain F where run: "fleet_run ?E (demo_events False) (demo_fleet_start (\<lambda>_. ''api:50051'') (\<lambda>_. 0)) = Some F"
    and rest: "fleet_rest ?E 0 F"
    using demo_fleet_lost [of "\<lambda>_. ''api:50051''" "\<lambda>_. 0"] by auto
  have docs: "redis_documented (fe_redis ?E) (\<lambda>v. v)" "grpc_documented (fe_lib ?E) (fe_view ?E)"
    by (simp_all add: ref_redis_documented toy_documented)
  have "(0, ''r1'') \<in> set (registered (demo_events False))" by (simp add: demo_registered)
  moreover have "fe_reach ?E (advertised ?E (home ?E 0)) \<noteq> home ?E 0" by simp
  moreover have "\<forall>tok \<in> set (butlast (executed ''r1'' (demo_events False))). \<not> te_Done tok"
    by (simp add: demo_registered(4) demo_tokens demo_te_def)
  ultimately obtain rsp where rsp: "sh_rsp (fl_handlers F 0) = Some rsp"
    "rsp_Status rsp = 500 \<or> rsp_Body rsp = [] \<and>
      (sh_pc (fl_handlers F 0) \<noteq> SReturned \<or> (\<exists>ev \<in> set (demo_events False). \<not> stays 0 ev))"
    using misrouted_reply_lost [OF docs demo_ran [OF run] _ _ _ rest] by blast
  have "\<forall>ev \<in> set (demo_events False). stays 0 ev"
    by (simp add: demo_events_def keeps_ok_def)
  with rsp run show ?thesis by blast
qed

end
