(* ===== verification/Wiring.thy ===== *)
theory Wiring
  imports "HOL-Library.Multiset"
begin

text \<open>
  The \<open>main\<close> functions of the four long-running programs under \<open>cmd/\<close>: which constructors they
  hand to \<open>fx.Provide\<close>, with the types those take and return, and the function they invoke.  The Go
  compiler does not check that these fit together; \<open>fx\<close> finds out when the program starts.  \<open>fx\<close>
  is not code of the repository: which constructors it calls is an input, and \<open>fx_constructs\<close> states
  the documented conditions on it.
\<close>

section \<open>Constructors\<close>

text \<open>
  The types that constructors take and return, by their Go names without the package; the function that
  is invoked returns none.  \<open>ct_error\<close>: the constructor returns an error as well.
\<close>

datatype go_type =
    T_Lifecycle | T_Config | T_Logger | T_Client | T_DB | T_EventPublisherImpl | T_ConversationCacheImpl
  | T_SessionOwnerStoreImpl | T_CallbackStoreImpl | T_MessageStoreImpl | T_TokenHub | T_IConversationCache
  | T_GetHistoryUseCase | T_IMessageStore | T_ISessionOwnerStore | T_ChatHandler | T_SendMessageUseCase
  | T_ITokenHub | T_ICallbackStore | T_ChatStreamHandler | T_TokenServer | T_ITokenGenerator
  | T_IEventPublisher | T_ProcessChatRequestUseCase | T_Worker | T_StreamTokensUseCase | T_StreamingWorker
  | T_PersistSessionUseCase | T_PersistenceWorker | T_none

record ctor =
  ct_func :: string
  ct_params :: "go_type list"
  ct_result :: go_type
  ct_error :: bool

abbreviation provides :: "string \<Rightarrow> go_type list \<Rightarrow> go_type \<Rightarrow> ctor" where
  "provides f ps t \<equiv> \<lparr>ct_func = f, ct_params = ps, ct_result = t, ct_error = False\<rparr>"

abbreviation may_fail :: "string \<Rightarrow> go_type list \<Rightarrow> go_type \<Rightarrow> ctor" where
  "may_fail f ps t \<equiv> \<lparr>ct_func = f, ct_params = ps, ct_result = t, ct_error = True\<rparr>"

definition ct_Load :: ctor where
  "ct_Load = provides ''config.Load'' [] T_Config"

definition ct_logger :: ctor where
  "ct_logger = may_fail ''logger.New'' [] T_Logger"

definition ct_NewClient :: ctor where
  "ct_NewClient = provides ''frameworkredis.NewClient'' [T_Config] T_Client"

definition ct_NewDB :: ctor where
  "ct_NewDB = may_fail ''frameworkpostgres.NewDB'' [T_Lifecycle, T_Config] T_DB"

definition ct_NewEventPublisher :: ctor where
  "ct_NewEventPublisher = provides ''broker.NewEventPublisher'' [T_Config] T_EventPublisherImpl"

definition ct_NewConversationCache :: ctor where
  "ct_NewConversationCache =
     provides ''cache.NewConversationCache'' [T_Client, T_Config] T_ConversationCacheImpl"

definition ct_NewSessionOwnerStore :: ctor where
  "ct_NewSessionOwnerStore = provides ''cache.NewSessionOwnerStore'' [T_Client] T_SessionOwnerStoreImpl"

definition ct_NewCallbackStore :: ctor where
  "ct_NewCallbackStore = provides ''cache.NewCallbackStore'' [T_Client] T_CallbackStoreImpl"

definition ct_NewMessageStore :: ctor where
  "ct_NewMessageStore = provides ''store.NewMessageStore'' [T_DB] T_MessageStoreImpl"

definition ct_hub :: ctor where
  "ct_hub = provides ''hub.New'' [] T_TokenHub"

definition ct_NewGetHistory :: ctor where
  "ct_NewGetHistory = provides ''usecase.NewGetHistory'' [T_IConversationCache] T_GetHistoryUseCase"

definition ct_NewChatHandler :: ctor where
  "ct_NewChatHandler = provides ''handler.NewChatHandler''
     [T_GetHistoryUseCase, T_IMessageStore, T_ISessionOwnerStore, T_Logger]
     T_ChatHandler"

definition ct_NewChatStreamHandler :: ctor where
  "ct_NewChatStreamHandler = provides ''handler.NewChatStreamHandler''
     [T_SendMessageUseCase, T_ISessionOwnerStore, T_ITokenHub, T_ICallbackStore,
      T_Config, T_Logger]
     T_ChatStreamHandler"

definition ct_NewTokenServer :: ctor where
  "ct_NewTokenServer = provides ''controllergrpc.NewTokenServer'' [T_ITokenHub] T_TokenServer"

definition ct_NewProcessChatRequest :: ctor where
  "ct_NewProcessChatRequest = provides ''usecase.NewProcessChatRequest''
     [T_ITokenGenerator, T_IEventPublisher] T_ProcessChatRequestUseCase"

definition ct_NewWorker :: ctor where
  "ct_NewWorker =
     provides ''consumer.NewWorker'' [T_Config, T_ProcessChatRequestUseCase] T_Worker"

definition ct_NewStreamingWorker :: ctor where
  "ct_NewStreamingWorker = provides ''consumer.NewStreamingWorker''
     [T_Config, T_StreamTokensUseCase] T_StreamingWorker"

definition ct_NewPersistSession :: ctor where
  "ct_NewPersistSession =
     provides ''usecase.NewPersistSession'' [T_IMessageStore] T_PersistSessionUseCase"

definition ct_NewPersistenceWorker :: ctor where
  "ct_NewPersistenceWorker = provides ''consumer.NewPersistenceWorker''
     [T_Config, T_PersistSessionUseCase] T_PersistenceWorker"

section \<open>Programs\<close>

record program =
  pg_provides :: "ctor list"
  pg_invokes :: ctor

text \<open>The API server, with its functions that give an implementation the type of its interface.\<close>

definition api_adapters :: "ctor list" where
  "api_adapters =
     [provides ''asConversationCache'' [T_ConversationCacheImpl] T_IConversationCache,
      provides ''asSessionOwnerStore'' [T_SessionOwnerStoreImpl] T_ISessionOwnerStore,
      provides ''asCallbackStore'' [T_CallbackStoreImpl] T_ICallbackStore,
      provides ''asMessageStore'' [T_MessageStoreImpl] T_IMessageStore,
      provides ''asEventPublisher'' [T_EventPublisherImpl] T_IEventPublisher,
      provides ''asTokenHub'' [T_TokenHub] T_ITokenHub]"

definition ct_newSendMessage :: ctor where
  "ct_newSendMessage =
     provides ''newSendMessage'' [T_IEventPublisher, T_Config] T_SendMessageUseCase"

definition ct_startServer :: ctor where
  "ct_startServer = provides ''startServer''
     [T_Lifecycle, T_ChatHandler, T_ChatStreamHandler, T_TokenServer,
      T_Config, T_Logger] T_none"

definition api_program :: program where
  "api_program =
     \<lparr>pg_provides =
        [ct_Load, ct_logger, ct_NewClient, ct_NewDB, ct_NewEventPublisher, ct_NewConversationCache,
         ct_NewSessionOwnerStore, ct_NewCallbackStore, ct_NewMessageStore] @
        take 5 api_adapters @ [ct_hub, api_adapters ! 5] @
        [ct_newSendMessage, ct_NewGetHistory, ct_NewChatHandler, ct_NewChatStreamHandler, ct_NewTokenServer],
      pg_invokes = ct_startServer\<rparr>"

text \<open>The other programs give the interface in a function literal.\<close>

definition ct_newTokenGenerator :: ctor where
  "ct_newTokenGenerator = may_fail ''newTokenGenerator'' [T_Config] T_ITokenGenerator"

definition ct_runWorker :: ctor where
  "ct_runWorker = provides ''runWorker'' [T_Lifecycle, T_Worker, T_Logger] T_none"

definition worker_program :: program where
  "worker_program =
     \<lparr>pg_provides =
        [ct_Load, ct_logger, ct_newTokenGenerator, ct_NewEventPublisher,
         provides ''func1'' [T_EventPublisherImpl] T_IEventPublisher,
         ct_NewProcessChatRequest, ct_NewWorker],
      pg_invokes = ct_runWorker\<rparr>"

definition ct_newStreamTokens :: ctor where
  "ct_newStreamTokens =
     provides ''newStreamTokens'' [T_ICallbackStore, T_Config] T_StreamTokensUseCase"

definition ct_runStreamingWorker :: ctor where
  "ct_runStreamingWorker =
     provides ''runStreamingWorker'' [T_Lifecycle, T_StreamingWorker, T_Logger] T_none"

definition streaming_program :: program where
  "streaming_program =
     \<lparr>pg_provides =
        [ct_Load, ct_logger, ct_NewClient, ct_NewCallbackStore,
         provides ''func1'' [T_CallbackStoreImpl] T_ICallbackStore,
         ct_newStreamTokens, ct_NewStreamingWorker],
      pg_invokes = ct_runStreamingWorker\<rparr>"

definition ct_runPersistence :: ctor where
  "ct_runPersistence =
     provides ''runPersistence'' [T_Lifecycle, T_PersistenceWorker, T_Logger] T_none"

definition persistence_program :: program where
  "persistence_program =
     \<lparr>pg_provides =
        [ct_Load, ct_logger, ct_NewDB, ct_NewMessageStore,
         provides ''func1'' [T_MessageStoreImpl] T_IMessageStore,
         ct_NewPersistSession, ct_NewPersistenceWorker],
      pg_invokes = ct_runPersistence\<rparr>"

definition programs :: "program list" where
  "programs = [api_program, worker_program, streaming_program, persistence_program]"

section \<open>What fx documents\<close>

text \<open>
  A type can be made when it has a provider whose parameters can be made; \<open>n\<close> bounds how deep the
  constructors nest, which for a set without a cycle is their number.
\<close>

fun makeable :: "nat \<Rightarrow> ctor list \<Rightarrow> go_type \<Rightarrow> bool" where
  "makeable 0 cs t \<longleftrightarrow> t = T_Lifecycle"
| "makeable (Suc n) cs t \<longleftrightarrow> t = T_Lifecycle \<or>
     (\<exists>c \<in> set cs. ct_result c = t \<and> (\<forall>t' \<in> set (ct_params c). makeable n cs t'))"

definition wired :: "program \<Rightarrow> bool" where
  "wired p \<longleftrightarrow> distinct (T_Lifecycle # map ct_result (pg_provides p @ [pg_invokes p])) \<and>
     (\<forall>t \<in> set (ct_params (pg_invokes p)). makeable (length (pg_provides p)) (pg_provides p) t)"

text \<open>A constructor is called when what it takes has been made.\<close>

fun in_order :: "go_type list \<Rightarrow> ctor list \<Rightarrow> bool" where
  "in_order made [] = True"
| "in_order made (c # cs) \<longleftrightarrow> set (ct_params c) \<subseteq> set made \<and> in_order (ct_result c # made) cs"

text \<open>
  Every constructor is called at most once and what it made is shared by all that take it; the first
  error ends the start; the invoked function comes last, and it is not called when types do
  not fit together.  \<open>fails\<close> are the constructors that return an error.
\<close>

definition fx_constructs :: "program \<Rightarrow> (ctor \<Rightarrow> bool) \<Rightarrow> ctor list \<Rightarrow> bool" where
  "fx_constructs p fails calls \<longleftrightarrow>
     distinct calls \<and> set calls \<subseteq> insert (pg_invokes p) (set (pg_provides p)) \<and> in_order [T_Lifecycle] calls \<and>
     (\<forall>c \<in> set (butlast calls). \<not> fails c \<and> c \<noteq> pg_invokes p) \<and>
     (if wired p then calls \<noteq> [] \<and> (last calls = pg_invokes p \<or> fails (last calls)) else pg_invokes p \<notin> set calls)"

lemma provided_order:
  assumes "wired p" and "in_order [T_Lifecycle] (pg_provides p @ [pg_invokes p])"
  shows "fx_constructs p (\<lambda>_. False) (pg_provides p @ [pg_invokes p])"
proof -
  have "distinct (pg_provides p @ [pg_invokes p])"
    using assms(1) by (auto simp: wired_def distinct_map)
  with assms show ?thesis by (auto simp: fx_constructs_def)
qed

section \<open>What a program needs\<close>

fun needed :: "nat \<Rightarrow> program \<Rightarrow> ctor list" where
  "needed 0 p = [pg_invokes p]"
| "needed (Suc n) p =
     (let cs = needed n p
      in cs @ filter (\<lambda>c. ct_result c \<notin> ct_result ` set cs \<and> (\<exists>d \<in> set cs. ct_result c \<in> set (ct_params d)))
        (pg_provides p))"

lemma in_order_made:
  "in_order made calls \<Longrightarrow> c \<in> set calls \<Longrightarrow> t \<in> set (ct_params c) \<Longrightarrow>
     t \<in> set made \<or> (\<exists>d \<in> set calls. ct_result d = t)"
  by (induction calls arbitrary: made) fastforce+

lemma needed_called:
  assumes "wired p" and "set calls \<subseteq> insert (pg_invokes p) (set (pg_provides p))" and "in_order [T_Lifecycle] calls"
    and "pg_invokes p \<in> set calls"
  shows "set (needed n p) \<subseteq> set calls"
proof (induction n)
  case (Suc n)
  have "c \<in> set calls" if c: "c \<in> set (pg_provides p)" and d: "d \<in> set (needed n p)" "ct_result c \<in> set (ct_params d)" for c d
  proof -
    have one: "inj_on ct_result (insert (pg_invokes p) (set (pg_provides p)))" "ct_result c \<noteq> T_Lifecycle"
      using assms(1) c by (auto simp: wired_def distinct_map image_iff)
    with in_order_made [OF assms(3) _ d(2)] Suc d(1) obtain c' where "c' \<in> set calls" "ct_result c' = ct_result c"
      by auto
    with one(1) assms(2) c have "c' = c" by (auto dest: inj_onD)
    with \<open>c' \<in> set calls\<close> show ?thesis by simp
  qed
  with Suc show ?case by (auto simp: Let_def)
qed (use assms(4) in simp)

text \<open>The four programs fit together, and use every constructor they provide.\<close>

lemma program_cases:
  assumes "p \<in> set programs"
  obtains "p = api_program" | "p = worker_program" | "p = streaming_program" | "p = persistence_program"
  using assms by (auto simp: programs_def)

lemma programs_wired: "\<forall>p \<in> set programs. wired p"
  by code_simp

lemma programs_need: "\<forall>p \<in> set programs. ct_result ` set (pg_provides p) \<subseteq> ct_result ` set (needed 7 p)"
  by (simp add: programs_def) (intro conjI; code_simp)

text \<open>The constructors that append hooks to the life cycle, in the order in which they do.\<close>

definition appending :: "ctor list \<Rightarrow> ctor list" where
  "appending calls = filter (\<lambda>c. T_Lifecycle \<in> set (ct_params c)) calls"

lemma same_single:
  assumes "distinct xs" and "distinct ys" and "set xs = set ys" and "length (filter P ys) \<le> 1"
  shows "filter P xs = filter P ys"
proof -
  have "mset (filter P xs) = mset (filter P ys)"
    using assms(1-3) by (simp add: set_eq_iff_mset_eq_distinct)
  with assms(4) show ?thesis
    by (cases "filter P ys" rule: remdups_adj.cases) (auto simp flip: mset_filter)
qed

lemma programs_append: "\<forall>p \<in> set programs. length (appending (pg_provides p)) \<le> 1"
  by (simp add: programs_def) (intro conjI; code_simp)

lemmas ct_defs =
  ct_Load_def ct_logger_def ct_NewClient_def ct_NewDB_def ct_NewEventPublisher_def
  ct_NewConversationCache_def ct_NewSessionOwnerStore_def ct_NewCallbackStore_def ct_NewMessageStore_def
  ct_hub_def ct_NewGetHistory_def ct_NewChatHandler_def ct_NewChatStreamHandler_def
  ct_NewTokenServer_def ct_NewProcessChatRequest_def ct_NewWorker_def ct_NewStreamingWorker_def
  ct_NewPersistSession_def ct_NewPersistenceWorker_def ct_newSendMessage_def ct_startServer_def
  ct_newTokenGenerator_def ct_runWorker_def ct_newStreamTokens_def ct_runStreamingWorker_def
  ct_runPersistence_def

lemma programs_fallible:
  "\<forall>p \<in> set programs. \<forall>c \<in> set (pg_invokes p # pg_provides p). ct_error c \<longrightarrow> c \<in> {ct_logger, ct_NewDB, ct_newTokenGenerator}"
  by (simp add: programs_def api_program_def worker_program_def streaming_program_def persistence_program_def
      api_adapters_def ct_defs)

lemma started_calls:
  assumes "wired p" and "fx_constructs p fails calls" and "ct_result ` set (pg_provides p) \<subseteq> ct_result ` set (needed n p)"
    and "last calls = pg_invokes p"
  obtains cs where "calls = cs @ [pg_invokes p]" and "set cs = set (pg_provides p)" and "distinct cs"
proof -
  obtain cs where calls: "calls = cs @ [pg_invokes p]"
    using assms(1,2,4) by (cases calls rule: rev_cases) (auto simp: fx_constructs_def)
  have c: "distinct calls" "set calls \<subseteq> insert (pg_invokes p) (set (pg_provides p))" "in_order [T_Lifecycle] calls"
    using assms(2) by (simp_all add: fx_constructs_def)
  have one: "inj_on ct_result (insert (pg_invokes p) (set (pg_provides p)))" "pg_invokes p \<notin> set (pg_provides p)"
    using assms(1) by (auto simp: wired_def distinct_map)
  have "ct_result ` set (pg_provides p) \<subseteq> ct_result ` set calls"
    using needed_called [OF assms(1) c(2,3), of n] assms(3) by (auto simp: calls)
  then have "\<exists>d \<in> set calls. ct_result x = ct_result d" if "x \<in> set (pg_provides p)" for x
    using that by blast
  with one(1) c(2) have "set (pg_provides p) \<subseteq> set calls"
    unfolding inj_on_def by blast
  with c one(2) have "set cs = set (pg_provides p)" "distinct cs"
    by (auto simp: calls)
  with calls that show thesis by blast
qed

text \<open>
  (C26) Every program can be put together: whatever constructors fail, \<open>fx\<close> either calls every
  constructor that the program provides exactly once and then the invoked function, with the hooks
  appended in the order of the list; or it is stopped by the error of the logger, the database or the token
  generator.  In particular the handlers and the gRPC server of the API get the same hub.
\<close>

theorem programs_start:
  assumes "p \<in> set programs" and "fx_constructs p fails calls" and "\<And>c. fails c \<Longrightarrow> ct_error c"
  shows "calls \<noteq> [] \<and>
    (if last calls = pg_invokes p
     then distinct calls \<and> set calls = insert (pg_invokes p) (set (pg_provides p)) \<and>
       appending calls = appending (pg_provides p @ [pg_invokes p])
     else fails (last calls) \<and> last calls \<in> {ct_logger, ct_NewDB, ct_newTokenGenerator})"
proof -
  have w: "wired p" "ct_result ` set (pg_provides p) \<subseteq> ct_result ` set (needed 7 p)" "length (appending (pg_provides p)) \<le> 1"
    using assms(1) programs_wired programs_need programs_append by blast+
  have d: "distinct (pg_provides p)" using w(1) by (auto simp: wired_def distinct_map)
  show ?thesis
  proof (cases "last calls = pg_invokes p")
    case True
    from started_calls [OF w(1) assms(2) w(2) True] obtain cs where
      cs: "calls = cs @ [pg_invokes p]" "set cs = set (pg_provides p)" "distinct cs" .
    have "appending cs = appending (pg_provides p)"
      using same_single [OF cs(3) d cs(2)] w(3) unfolding appending_def by blast
    then have "appending calls = appending (pg_provides p @ [pg_invokes p])"
      by (simp add: cs(1) appending_def)
    moreover have "distinct calls" using assms(2) by (simp add: fx_constructs_def)
    ultimately show ?thesis using True cs by simp
  next
    case False
    then have f: "calls \<noteq> []" "fails (last calls)" and "last calls \<in> insert (pg_invokes p) (set (pg_provides p))"
      using assms(2) w(1) last_in_set [of calls] unfolding fx_constructs_def by (simp_all, blast)
    with programs_fallible assms(1,3) False show ?thesis by simp
  qed
qed

theorem programs_start_witness:
  "let calls = pg_provides api_program @ [pg_invokes api_program]
   in last calls = ct_startServer \<and> appending calls = [ct_NewDB, ct_startServer] \<and> distinct calls"
proof -
  let ?calls = "pg_provides api_program @ [pg_invokes api_program]"
  have "api_program \<in> set programs" by (simp add: programs_def)
  moreover have "in_order [T_Lifecycle] ?calls" by code_simp
  then have "fx_constructs api_program (\<lambda>_. False) ?calls"
    using provided_order programs_wired \<open>api_program \<in> set programs\<close> by blast
  moreover have "appending ?calls = [ct_NewDB, ct_startServer]"
    by (simp add: appending_def api_program_def api_adapters_def ct_defs)
  ultimately show ?thesis
    using programs_start [of api_program "\<lambda>_. False" ?calls] by (simp add: api_program_def)
qed

end
