(* ===== verification/Spec2Isabelle.thy ===== *)
theory Spec2Isabelle
  imports ApiMain PubSubStream PersistenceMain AsyncWriter StoredChat HubSpec Migrate FleetService Wiring
begin

text \<open>
  A verification development of the chat streaming backend \<open>golang-learning\<close> (Go).

  \<^bold>\<open>The program.\<close>  Five processes exchange a chat request over Kafka, Redis, PostgreSQL and gRPC.
  The API server (\<open>cmd/api\<close>) authenticates a request, claims its session in Redis, registers a
  channel in its token hub, publishes the request to Kafka and streams the reply to the client as NDJSON.
  The LLM worker (\<open>cmd/worker\<close>) generates the reply's tokens and publishes each to two topics.  The
  streaming worker (\<open>cmd/streaming-worker\<close>) reads the first and sends the tokens over gRPC to the API
  server that waits for them.  The persistence worker (\<open>cmd/persistence\<close>) reads the second, buffers
  the tokens and merges them into PostgreSQL.  \<open>cmd/migrate\<close> creates the tables and
  \<open>cmd/gentoken\<close> issues user tokens.

  \<^bold>\<open>Theories and sources.\<close>
  \<^item> \<open>GoPrelude\<close>: errors, calls of fallible services as state functions, Go maps in an arbitrary
    iteration order, bounded channels, string functions.
  \<^item> \<open>Entities\<close>: the structs of \<open>entity\<close>, \<open>shared\<close> and \<open>store\<close>, and the history presenter.
  \<^item> \<open>Json\<close>, \<open>JsonRoundtrip\<close>, \<open>Wire\<close>, \<open>Decoded\<close>: \<open>encoding/json\<close> on bytes (printer,
    scanner, struct decoding), every struct on the wire, what is read back, and what decoding
    arbitrary bytes guarantees.
  \<^item> \<open>TokenHub\<close>: \<open>gateway/hub\<close>, and \<open>HubSpec\<close>: bounded queues by request id, which it
    implements; \<open>MessageStore\<close>: \<open>gateway/store\<close>, and \<open>Migrate\<close>: its tables and the command
    that creates them;
    \<open>RedisStores\<close>: session owner, callback address and conversation cache of \<open>gateway/cache\<close>;
    \<open>PubSubStream\<close>: \<open>gateway/cache/pubsub_stream.go\<close>.
  \<^item> \<open>PersistSession\<close>, \<open>PersistenceWorker\<close>: \<open>usecase/persist_session.go\<close> and
    \<open>consumer/persistence.go\<close>.
  \<^item> \<open>TokenGenerator\<close>, \<open>Publisher\<close>, \<open>ChatWorker\<close>: \<open>framework/llm\<close>,
    \<open>gateway/broker\<close> with the use cases that publish, \<open>consumer/worker.go\<close>.
  \<^item> \<open>StreamTokens\<close>, \<open>StreamingWorker\<close>: \<open>usecase/stream_tokens.go\<close>,
    \<open>consumer/streaming_worker.go\<close>.
  \<^item> \<open>Middleware\<close>, \<open>TokenServer\<close>, \<open>ChatHistory\<close>, \<open>ChatStream\<close>, \<open>Config\<close>,
    \<open>ApiServer\<close>: the JWT and logging middleware, the gRPC service and the HTTP callback, the two
    history endpoints, the streaming handler, the configuration, and the server that routes to them.
  \<^item> \<open>Lifecycle\<close>, \<open>PersistenceMain\<close>, \<open>WorkerMain\<close>, \<open>ApiMain\<close>: the life cycle hooks of
    \<open>fx\<close> and the processes of \<open>cmd/\<close>: what each starts, and what a stop does to the work in hand.
    \<open>Wiring\<close>: the constructors each program gives to \<open>fx\<close>, and that they fit together.
  \<^item> \<open>Pipeline\<close>, \<open>RequestPath\<close>: what a consumer of a topic reads, how a request passes from the
    posted body to the worker, and how its events pass from program to program; this theory joins it all.
    \<open>AsyncWriter\<close>: the asynchronous Kafka writers, between what is handed to them and the topics;
    \<open>StoredChat\<close>: the rows of a request under every schedule of the persistence worker, and reading them.
  \<^item> \<open>Fleet\<close>, \<open>FleetReply\<close>, \<open>FleetService\<close>: any number of API servers that share Redis, with
    the streaming worker between them, as one machine; where it looks for a request; and the way of its
    tokens back to the server that holds it, or not.

  \<^bold>\<open>How the code is modelled.\<close>  A struct is a record of the same fields, a method a function on it;
  errors are the left of a sum, an effect is a state passed through.  A concurrent component is a machine
  whose steps are its critical sections, channel operations and calls: a function on events
  (\<open>pw_step\<close>, \<open>stream_step\<close>, \<open>pb_step\<close>, \<open>hub_step\<close>, \<open>api_step\<close>, \<open>fleet_step\<close>) or an inductive
  relation (\<open>wk_step\<close>, \<open>sw_step\<close>, \<open>process_step\<close>), and a theorem about it holds for every list of events, that is
  for every schedule.  Go's map iteration order, timeouts, tickers, cancellation and the answers of
  services are inputs.  Services that are not code of the repository are parameters (PostgreSQL through
  GORM, Redis, the Kafka client, gRPC, the JWT library, gin's router), and what the code relies on
  is a named predicate (\<open>pg_documented\<close>, \<open>redis_documented\<close>, \<open>kafka_documented\<close>,
  \<open>grpc_documented\<close>, \<open>jwt_documented\<close>, \<open>gin_documented\<close>, \<open>fx_documented\<close>, \<open>fx_constructs\<close>,
  \<open>async_documented\<close>, \<open>migrate_documented\<close>); each is satisfied by a reference
  instance that the witnesses run on.  The interfaces between components are the
  locales \<open>message_store\<close>, \<open>token_hub\<close> (with the smaller \<open>token_sink\<close>), \<open>token_publisher\<close>,
  \<open>session_owner_store\<close>, \<open>callback_store\<close> and, between \<open>fx\<close> and a worker, \<open>background_worker\<close>; each is interpreted on the
  model of the component that provides it.  A text that PostgreSQL refuses, one with a NUL or invalid
  UTF-8, is refused by \<open>pg_documented\<close> too.  The \<open>queue\<close> of \<open>kafka_documented\<close> is what was handed to
  the writers; that a consumer gets it, which the theorems below suppose, is \<open>close_delivers\<close> of
  \<open>AsyncWriter\<close> under its conditions.

  \<^bold>\<open>What is shown.\<close>  \<open>fleet_answers\<close> follows a request from the body its client posts, on whichever
  of the API servers, through all programs to the body of the response, under every interleaving of what
  the servers' handlers, the streaming worker and the gRPC servers do; \<open>posted_request_answered\<close> and
  \<open>reply_reaches_client\<close>, below, state the same of one handler in any environment, \<open>reply_stored\<close>
  follows the reply to the database and \<open>stored_chat_readable\<close> the way back to the
  history that the API server serves: exactly the generated tokens, in order.  They
  rest on a conservation lemma per component (the hub's channels, the worker's published events, the
  streaming worker's routing, the stream per request, the handler's body, the buffers and flushes of
  the persistence worker).  Safety: a handler runs for the user of a valid token, acts on sessions that
  user owns, and takes tokens only from clients with the shared secret.  Bounds: channel capacities,
  the worker's semaphore, the access log.  Termination: the worker comes to rest.  Refinement: the
  steps of a flush compose to \<open>Flush\<close>, the hub implements queues.  Equivalence: the two ways into the
  hub, HTTP and gRPC.  The error theorems state what the code does lose or leave
  behind: on failed flushes, on a text the database refuses, at shutdown, when a batch of the
  Kafka client fails, when a channel is full, when two servers advertise one address.

  \<^bold>\<open>Bounds and fuel.\<close>  No definition of the program uses fuel (\<open>makeable\<close> and \<open>needed\<close> of \<open>Wiring\<close>
  go as deep as there are constructors); recursions that are not structural have termination
  proofs (\<open>fields_from\<close>, the JSON scanner, UTF-8 decoding).  A hub channel holds 1000 tokens, a
  streaming channel 32, a pub/sub channel 100, the access log 8192 entries, and JSON nests 10000 deep;
  statements about complete delivery carry the capacity as a hypothesis where tokens are dropped beyond it.

  \<^bold>\<open>Not modelled.\<close>  The values that \<open>fx\<close> hands from constructor to constructor: what a function
  uses of them are its parameters; the interfaces of \<open>usecase/boundary.go\<close>, which are these parameters, and the
  locales; the logger, \<open>entity/session.go\<close> and \<open>presenter/http/send_message.go\<close>, which nothing
  uses; code generated from \<open>token.proto\<close>; panics and \<open>gin.Recovery\<close>; time, except the expiry of Redis
  keys and of tokens; the random choice of the mock reply, which is an argument; Kafka rebalances
  that deliver messages twice, except in \<open>replay_doubles_reply\<close>.  In the machine of \<open>Fleet\<close> the server that
  a dialled address reaches does not change during a run, and the history endpoints, which set no callback
  address, take no part.
\<close>

section \<open>Properties of the whole pipeline\<close>

text \<open>
  (C2) Every reply ends up complete in the database: for every chat request whose done event a worker
  published, when a persistence worker has read the persistence topic (Kafka keeps the order within a
  key only) under any schedule of its threads without a failed flush, and is then stopped between
  flushes, the assistant message of the request in PostgreSQL is what it was followed by exactly the
  tokens the generator produced for the request, in order, whatever other requests the workers, the
  topic and the database handled in between.  No text on the topic may have a NUL, which the database
  refuses (\<open>nul_message_loses_batch\<close>).
\<close>

theorem reply_stored:
  assumes "kafka_documented kw queue" and "worker_ran kw queue gen c wevs k s"
    and "p \<in> set (wk_procs s)" and "done_event (wp_Req p) \<in> set (wk_calls s)"
    and "partitioned ms (queue (wk_kafka s) topicPersistLLM)" and "pw_payloads evs = map km_Value ms"
    and "pg_documented db view" and "pg_available db view" and "orders_ok fin"
    and "\<forall>ev \<in> set evs. ev_orders_ok ev" and "Cancel \<notin> set evs"
    and "pg_worker db evs (pw_New d) = Some ps" and "pw_clean ps"
    and "pw_consumer ps = Fetching" and "pw_spawned ps = []" and "pw_flusher ps = Waiting"
    and "\<forall>t \<in> set (fetched_tokens evs). event_texts t"
  shows "\<exists>tokens n ps'. gen (cr_Content (wp_Req p)) (Inr tokens) \<and>
    pg_worker db (evs @ [Cancel, FetchFails CtxErr, DoneSeen] @ replicate n (FlusherStep fin)) (pw_New d) = Some ps' \<and>
    stored_reply (pv_messages (view (pw_db ps'))) (cr_RequestID (wp_Req p)) =
      stored_reply (pv_messages (view d)) (cr_RequestID (wp_Req p)) @ concat tokens"
proof -
  obtain tokens where "gen (cr_Content (wp_Req p)) (Inr tokens)"
    and "deltas (proc_id p) (fetched_tokens evs) = concat tokens"
    using reply_persisted [OF assms(1-6)] .
  with clean_shutdown [OF assms(7-)] show ?thesis
    unfolding proc_id_def by metis
qed

theorem reply_stored_witness:
  "\<exists>n ps'. pg_worker ref_db (concat (map feed demo_reply) @ [Cancel, FetchFails CtxErr, DoneSeen] @
        replicate n (FlusherStep demo_orders)) (pw_New empty_pg) = Some ps' \<and>
     stored_reply (pv_messages (ref_view (pw_db ps'))) ''r1'' = ''a b''"
proof -
  obtain evs s p where w: "worker_ran (ref_kafka None) (\<lambda>q. q) demo_gen 1 evs no_messages s"
    "p \<in> set (wk_procs s)" "wp_Req p = demo_request" "wk_calls s = demo_reply" "done_event demo_request \<in> set (wk_calls s)"
    using demo_worker_ran by blast
  let ?evs = "concat (map feed demo_reply)"
  have q: "pw_payloads ?evs = map km_Value (wk_kafka s topicPersistLLM)"
    using keyed_values [OF worker_topics(2) [OF ref_kafka_documented w(1)]] w(4) by simp
  obtain ps where ps: "\<forall>ev \<in> set ?evs. ev_orders_ok ev" "Cancel \<notin> set ?evs"
    "pg_worker ref_db ?evs (pw_New empty_pg) = Some ps" "pw_clean ps" "pw_consumer ps = Fetching" "pw_spawned ps = []"
    "pw_flusher ps = Waiting" "\<forall>t \<in> set (fetched_tokens ?evs). event_texts t"
    by (rule demo_persisted, rule that)
  have "stored_reply (pv_messages (ref_view empty_pg)) ''r1'' = []"
    by (simp add: ref_view_def empty_pg_def stored_reply_def contents_def)
  moreover have "demo_gen content (Inr tokens) \<longleftrightarrow> tokens = [''a'', '' b'']" for content tokens
    by (simp add: demo_gen_def)
  moreover have "cr_RequestID demo_request = ''r1''" by (simp add: demo_request_def)
  ultimately show ?thesis
    using reply_stored [where queue = "\<lambda>q. q", OF ref_kafka_documented w(1,2) _ partitioned_refl q ref_db_documented ref_db_available
        demo_orders_ok ps] w(3,5) by auto
qed

text \<open>
  (C3) What was posted can be read: with the worker, the topic and the database as in \<open>reply_stored\<close>, and a
  request that had no rows, the database history of its session, whenever the API server answers it with
  200 from that state of the database, has exactly two messages of the request: what the user posted, and
  after it everything the generator produced (unless that is nothing at all).
\<close>

theorem stored_chat_readable:
  assumes "kafka_documented kw queue" and "worker_ran kw queue gen c wevs k s"
    and "p \<in> set (wk_procs s)" and "done_event (wp_Req p) \<in> set (wk_calls s)"
    and "partitioned ms (queue (wk_kafka s) topicPersistLLM)" and "pw_payloads evs = map km_Value ms"
    and "pg_documented db view" and "pg_available db view" and "orders_ok fin"
    and "\<forall>ev \<in> set evs. ev_orders_ok ev" and "Cancel \<notin> set evs"
    and "pg_worker db evs (pw_New d) = Some ps" and "pw_clean ps"
    and "pw_consumer ps = Fetching" and "pw_spawned ps = []" and "pw_flusher ps = Waiting"
    and "\<forall>t \<in> set (fetched_tokens evs). event_texts t"
    and "filter (\<lambda>m. msg_RequestID m = cr_RequestID (wp_Req p)) (pv_messages (view d)) = []"
    and "redis_documented run rview"
    and "pick api_routes (rq_Method rq) (rq_Path rq) = Some (RouteGetHistoryDB, full, cr_SessionID (wp_Req p))"
  shows "\<exists>tokens n ps'. gen (cr_Content (wp_Req p)) (Inr tokens) \<and>
    pg_worker db (evs @ [Cancel, FetchFails CtxErr, DoneSeen] @ replicate n (FlusherStep fin)) (pw_New d) = Some ps' \<and>
    (concat tokens \<noteq> [] \<longrightarrow>
      (\<forall>a rsp a'. view (as_db a) = view (pw_db ps') \<longrightarrow>
         api_serve run db jwt_Parse cfg pick latency rq a = (Answered rsp, a') \<longrightarrow> rsp_Status rsp = 200 \<longrightarrow>
         (\<exists>messages. rsp = c_JSON 200 (dtos_json (map message_dto messages)) \<and>
            filter (\<lambda>m. msg_RequestID m = cr_RequestID (wp_Req p)) messages =
              [\<lparr>msg_SessionID = cr_SessionID (wp_Req p), msg_RequestID = cr_RequestID (wp_Req p), msg_Role = RoleUser,
                msg_Content = cr_Content (wp_Req p)\<rparr>,
               \<lparr>msg_SessionID = cr_SessionID (wp_Req p), msg_RequestID = cr_RequestID (wp_Req p), msg_Role = RoleAssistant,
                msg_Content = concat tokens\<rparr>])))"
proof -
  let ?r = "cr_RequestID (wp_Req p)" and ?sid = "cr_SessionID (wp_Req p)" and ?um = "cr_Content (wp_Req p)"
  obtain tokens ts where t: "gen ?um (Inr tokens)" "map km_Value ms = map marshal_TokenEvent ts" "utf8_events ts"
    "events_for ?r ts = reply_events (wp_Req p) tokens True"
    using topic_reply [OF assms(2-5) worker_topics(2) [OF assms(1,2)]] unfolding proc_id_def .
  have f: "fetched_tokens evs = ts"
    using fetched_tokens_marshal assms(6) t(2,3) by simp
  from clean_shutdown [OF assms(7-17)] obtain n ps' where
    run: "pg_worker db (evs @ [Cancel, FetchFails CtxErr, DoneSeen] @ replicate n (FlusherStep fin)) (pw_New d) = Some ps'"
    and st: "stored_reply (pv_messages (view (pw_db ps'))) ?r = stored_reply (pv_messages (view d)) ?r @ concat tokens"
    by (auto simp: f deltas_events_for t(4) deltas_reply)
  have "one_chat ?sid ?r ?um (pv_messages (view (pw_db ps')))"
    by (rule worker_one_chat [OF assms(7) run])
      (use assms(9,10,18) reply_token_of [OF t(4)] in \<open>auto simp: f\<close>)
  moreover have "stored_reply (pv_messages (view d)) ?r = []"
    using contents_of_request [of "pv_messages (view d)" ?r RoleAssistant] assms(18)
    by (simp add: stored_reply_def str_at_def)
  ultimately have chat: "concat tokens \<noteq> [] \<Longrightarrow>
      of_request ?r (pv_messages (view (pw_db ps'))) = chat_rows ?sid ?r ?um (concat tokens)"
    using one_chat_reply st by simp
  have "\<exists>messages. rsp = c_JSON 200 (dtos_json (map message_dto messages)) \<and>
      of_request ?r messages = chat_rows ?sid ?r ?um (concat tokens)"
    if "concat tokens \<noteq> []" and "view (as_db a) = view (pw_db ps')"
      and "api_serve run db jwt_Parse cfg pick latency rq a = (Answered rsp, a')" and "rsp_Status rsp = 200" for a rsp a'
    using served_history [where pick = pick and rq = rq, OF assms(19,7,20) that(3,4)] of_request_session [OF chat [OF that(1)]]
      that(2) by metis
  note read = this [unfolded chat_rows_def]
  show ?thesis
    by (intro exI [of _ tokens] exI [of _ n] exI [of _ ps'] conjI t(1) run impI allI) (rule read)
qed

theorem stored_chat_readable_witness:
  "\<exists>n ps' rsp a' messages. pg_worker ref_db (concat (map feed demo_reply) @ [Cancel, FetchFails CtxErr, DoneSeen] @
        replicate n (FlusherStep demo_orders)) (pw_New empty_pg) = Some ps' \<and>
     api_serve ref_redis ref_db toy_Parse demo_cfg demo_pick 1 (demo_http ''GET'' ''/history/s1/db'')
       (demo_as\<lparr>as_db := pw_db ps'\<rparr>) = (Answered rsp, a') \<and>
     rsp = c_JSON 200 (dtos_json (map message_dto messages)) \<and>
     filter (\<lambda>m. msg_RequestID m = ''r1'') messages =
       [\<lparr>msg_SessionID = ''s1'', msg_RequestID = ''r1'', msg_Role = RoleUser, msg_Content = ''hi''\<rparr>,
        \<lparr>msg_SessionID = ''s1'', msg_RequestID = ''r1'', msg_Role = RoleAssistant, msg_Content = ''a b''\<rparr>]"
proof -
  obtain evs s p where w: "worker_ran (ref_kafka None) (\<lambda>q. q) demo_gen 1 evs no_messages s"
    "p \<in> set (wk_procs s)" "wp_Req p = demo_request" "wk_calls s = demo_reply" "done_event demo_request \<in> set (wk_calls s)"
    using demo_worker_ran by blast
  let ?evs = "concat (map feed demo_reply)" and ?rq = "demo_http ''GET'' ''/history/s1/db''"
  have q: "pw_payloads ?evs = map km_Value (wk_kafka s topicPersistLLM)"
    using keyed_values [OF worker_topics(2) [OF ref_kafka_documented w(1)]] w(4) by simp
  obtain ps where ps: "\<forall>ev \<in> set ?evs. ev_orders_ok ev" "Cancel \<notin> set ?evs"
    "pg_worker ref_db ?evs (pw_New empty_pg) = Some ps" "pw_clean ps" "pw_consumer ps = Fetching" "pw_spawned ps = []"
    "pw_flusher ps = Waiting" "\<forall>t \<in> set (fetched_tokens ?evs). event_texts t"
    by (rule demo_persisted, rule that)
  have dn: "done_event (wp_Req p) \<in> set (wk_calls s)" using w(3,5) by simp
  have none: "filter (\<lambda>m. msg_RequestID m = cr_RequestID (wp_Req p)) (pv_messages (ref_view empty_pg)) = []"
    by (simp add: ref_view_def empty_pg_def)
  have route: "demo_pick api_routes (rq_Method ?rq) (rq_Path ?rq) =
      Some (RouteGetHistoryDB, ''/history/:session_id/db'', cr_SessionID (wp_Req p))"
    by (simp add: w(3) demo_http_def demo_picks demo_request_def)
  from stored_chat_readable [where queue = "\<lambda>q. q" and pick = demo_pick and rq = ?rq and jwt_Parse = toy_Parse and cfg = demo_cfg
      and latency = 1, OF ref_kafka_documented w(1,2) dn partitioned_refl q ref_db_documented ref_db_available demo_orders_ok ps none
      ref_redis_documented route]
  obtain tokens n ps' where t: "demo_gen (cr_Content (wp_Req p)) (Inr tokens)"
    and run: "pg_worker ref_db (?evs @ [Cancel, FetchFails CtxErr, DoneSeen] @ replicate n (FlusherStep demo_orders))
      (pw_New empty_pg) = Some ps'"
    and read: "concat tokens \<noteq> [] \<longrightarrow> (\<forall>a rsp a'. ref_view (as_db a) = ref_view (pw_db ps') \<longrightarrow>
      api_serve ref_redis ref_db toy_Parse demo_cfg demo_pick 1 ?rq a = (Answered rsp, a') \<longrightarrow> rsp_Status rsp = 200 \<longrightarrow>
      (\<exists>messages. rsp = c_JSON 200 (dtos_json (map message_dto messages)) \<and>
        filter (\<lambda>m. msg_RequestID m = cr_RequestID (wp_Req p)) messages =
          [\<lparr>msg_SessionID = cr_SessionID (wp_Req p), msg_RequestID = cr_RequestID (wp_Req p), msg_Role = RoleUser,
            msg_Content = cr_Content (wp_Req p)\<rparr>,
           \<lparr>msg_SessionID = cr_SessionID (wp_Req p), msg_RequestID = cr_RequestID (wp_Req p), msg_Role = RoleAssistant,
            msg_Content = concat tokens\<rparr>]))"
    by (elim exE conjE) (rule that)
  have tokens: "concat tokens = ''a b''" using t by (simp add: demo_gen_def)
  obtain rsp a' where served: "api_serve ref_redis ref_db toy_Parse demo_cfg demo_pick 1 ?rq (demo_as\<lparr>as_db := pw_db ps'\<rparr>) =
      (Answered rsp, a')" "rsp_Status rsp = 200"
    using demo_served_history [of "pw_db ps'"] by blast
  have "\<exists>messages. rsp = c_JSON 200 (dtos_json (map message_dto messages)) \<and> filter (\<lambda>m. msg_RequestID m = ''r1'') messages =
       [\<lparr>msg_SessionID = ''s1'', msg_RequestID = ''r1'', msg_Role = RoleUser, msg_Content = ''hi''\<rparr>,
        \<lparr>msg_SessionID = ''s1'', msg_RequestID = ''r1'', msg_Role = RoleAssistant, msg_Content = ''a b''\<rparr>]"
    using read [rule_format, OF _ _ served] unfolding tokens w(3) by (simp add: demo_request_def)
  with run served(1) show ?thesis by blast
qed

text \<open>
  Every reply reaches its client completely: take a chat request, with any number of others in
  progress, that a worker finished, whose tokens the streaming worker read from the streaming topic
  and sent without timeouts and errors, and whose messages the API server's hub got from the gRPC
  stream to its address.  When the handler that registered the request has answered 200 and returned
  without the client leaving, the body it wrote is exactly one line per token the generator produced
  for the request's content, in order, and one done line.
\<close>

theorem reply_reaches_client:
  assumes "kafka_documented kw queue" and "worker_ran kw queue gen c wevs k s"
    and "p \<in> set (wk_procs s)" and "wp_Req p = \<lparr>cr_RequestID = rid, cr_SessionID = sid, cr_Content = content, cr_Timestamp = ''0''\<rparr>"
    and "done_event (wp_Req p) \<in> set (wk_calls s)"
    and "partitioned ms (queue (wk_kafka s) topicStreamFE)" and "sw_payloads sevs = map km_Value ms"
    and "grpc_documented lib nv" and "lookup_documented getcb nv cb"
    and "sw_steps (\<lambda>x t. snd (stream_Execute lib getcb t x)) sevs (sw_New (NewStreamTokens secret, w)) ss"
    and "CtxCancelled \<notin> set sevs" and "\<And>ch. TimedOut ch \<notin> set sevs" and "drained ss rid"
    and "fst (stream_run lib getcb (map event_of (sw_calls ss)) (NewStreamTokens secret, w)) = Inr ()"
    and "\<And>t. nv_addr nv (snd (sw_useCase ss)) t = Some (cb rid) \<Longrightarrow>
        delivered rid (deliver_ops (nv_log nv (snd (sw_useCase ss)) t)) \<noteq> [] \<Longrightarrow>
        delivered rid (hub_ops evs) = delivered rid (deliver_ops (nv_log nv (snd (sw_useCase ss)) t))"
    and "hub_inv (api_hub w0)"
    and "stream_step run publish addr sid uid (HRegister rid) (SRegister content) h0 w0 = Some (h1, w1)"
    and "handler_run run publish addr sid uid evs h1 w1 = Some (h2, w2)"
    and "\<And>ev. ev \<in> set evs \<Longrightarrow> quiet rid (hub_next (api_hub w0)) ev"
    and "length (delivered rid (hub_ops evs)) \<le> 1000"
    and "\<And>ev. ev \<in> set evs \<Longrightarrow> ev \<noteq> HClientGone \<and> ev \<noteq> HWriteFails"
    and "sh_pc h2 = SReturned" and "sh_rsp h2 = Some rsp" and "rsp_Status rsp = 200"
  shows "\<exists>tokens. gen content (Inr tokens) \<and> rsp_Body rsp = chunk_lines (reply_tokens rid tokens)"
proof -
  have rid: "proc_id p = rid" by (simp add: proc_id_def assms(4))
  obtain tokens where "gen content (Inr tokens)" and "delivered rid (hub_ops evs) = reply_tokens rid tokens"
    using reply_streamed [OF assms(1-3) rid assms(5-15)] by (auto simp: assms(4))
  with reply_complete [OF assms(16-)] show ?thesis by auto
qed

theorem reply_reaches_client_witness:
  "\<exists>h1 w1 h2 w2 rsp.
    handler_run ref_redis demo_publish ''api:1'' ''s1'' ''ann'' demo_streamed h1 w1 = Some (h2, w2) \<and>
    sh_rsp h2 = Some rsp \<and> rsp_Body rsp = chunk_lines (reply_tokens ''r1'' [''a'', '' b''])"
proof -
  obtain evs s p where w: "worker_ran (ref_kafka None) (\<lambda>q. q) demo_gen 1 evs no_messages s"
    "p \<in> set (wk_procs s)" "wp_Req p = demo_request" "wk_calls s = demo_reply" "done_event demo_request \<in> set (wk_calls s)"
    using demo_worker_ran by blast
  have pl: "sw_payloads (serve demo_reply) = map km_Value (wk_kafka s topicStreamFE)"
    using keyed_values [OF worker_topics(1) [OF ref_kafka_documented w(1)]] w(4) by (simp add: sw_payloads_serve)
  obtain ss where ss: "sw_steps (\<lambda>x t. snd (stream_Execute toy_lib toy_getcb t x)) (serve demo_reply)
      (sw_New (NewStreamTokens ''key'', toy_start)) ss" "drained ss ''r1''"
    and ok: "fst (stream_run toy_lib toy_getcb (map event_of (sw_calls ss)) (NewStreamTokens ''key'', toy_start)) = Inr ()"
    and hub: "\<And>t. nv_addr toy_view (snd (sw_useCase ss)) t = Some (''api:'' @ ''r1'') \<Longrightarrow>
      delivered ''r1'' (hub_ops demo_streamed) = delivered ''r1'' (deliver_ops (nv_log toy_view (snd (sw_useCase ss)) t))"
    by (rule demo_served, rule that)
  obtain h1 w1 h2 w2 rsp where h: "stream_step ref_redis demo_publish ''api:1'' ''s1'' ''ann'' (HRegister ''r1'') (SRegister ''hi'')
      demo_handler demo_api = Some (h1, w1)"
    "handler_run ref_redis demo_publish ''api:1'' ''s1'' ''ann'' demo_streamed h1 w1 = Some (h2, w2)"
    "sh_pc h2 = SReturned" "sh_rsp h2 = Some rsp" "rsp_Status rsp = 200"
    using demo_streamed_run by (elim exE conjE) (rule that)
  have inv: "hub_inv (api_hub demo_api)" by (simp add: demo_api_def)
  have len: "length (delivered ''r1'' (hub_ops demo_streamed)) \<le> 1000"
    by (simp add: demo_streamed_calm reply_tokens_def)
  have req: "wp_Req p = \<lparr>cr_RequestID = ''r1'', cr_SessionID = ''s1'', cr_Content = ''hi'', cr_Timestamp = ''0''\<rparr>"
    by (simp add: w(3) demo_request_def)
  have "done_event (wp_Req p) \<in> set (wk_calls s)" using w(3,5) by simp
  from reply_reaches_client [where queue = "\<lambda>q. q", OF ref_kafka_documented w(1,2) req this partitioned_refl pl
      toy_documented toy_lookup ss(1) serve_calm ss(2) ok hub inv h(1,2)
      demo_streamed_calm(1) len demo_streamed_calm(2) h(3-5)]
  have "rsp_Body rsp = chunk_lines (reply_tokens ''r1'' [''a'', '' b''])"
    by (auto simp: demo_gen_def)
  with h show ?thesis by blast
qed

text \<open>
  A posted request is answered.  A client posts a body; the handler's run up to the registration and from it to
  the end is any schedule in which the client stays, and it answers 200.  A worker has read the topic of
  chat requests as the handler's publication left it, its generator has no errors, no publication fails,
  and it is idle again; the streaming worker, gRPC and the hub do as in \<open>reply_reaches_client\<close>.  Then the
  body was a valid request with content, and the response is exactly one line per token the generator
  produced for that content, in order, and one done line.
\<close>

theorem posted_request_answered:
  assumes "kafka_documented kw queue" and "worker_ran kw queue gen c wevs k s" and "worker_idle s"
    and "\<And>content r. gen content r \<Longrightarrow> \<exists>tokens. r = Inr tokens"
    and "hub_inv (api_hub w1)" and "valid_utf8 rid"
    and "handler_run run (PublishRequest kw) addr sid uid pre (stream_start body) w0 = Some (h1, w1)"
    and "handler_run run (PublishRequest kw) addr sid uid (HRegister rid # evs) h1 w1 = Some (h2, w2)"
    and "\<And>e1 e2 h w m. evs = e1 @ HSend # e2 \<Longrightarrow>
        handler_run run (PublishRequest kw) addr sid uid (HRegister rid # e1 @ [HSend]) h1 w1 = Some (h, w) \<Longrightarrow>
        m \<in> set (queue (api_kafka w) topicRequests) \<Longrightarrow> ReqFetched (km_Value m) \<in> set wevs"
    and "partitioned ms (queue (wk_kafka s) topicStreamFE)" and "sw_payloads sevs = map km_Value ms"
    and "grpc_documented lib nv" and "lookup_documented getcb nv cb"
    and "sw_steps (\<lambda>x t. snd (stream_Execute lib getcb t x)) sevs (sw_New (NewStreamTokens secret, w)) ss"
    and "CtxCancelled \<notin> set sevs" and "\<And>ch. TimedOut ch \<notin> set sevs" and "drained ss rid"
    and "fst (stream_run lib getcb (map event_of (sw_calls ss)) (NewStreamTokens secret, w)) = Inr ()"
    and "\<And>t. nv_addr nv (snd (sw_useCase ss)) t = Some (cb rid) \<Longrightarrow>
        delivered rid (deliver_ops (nv_log nv (snd (sw_useCase ss)) t)) \<noteq> [] \<Longrightarrow>
        delivered rid (hub_ops evs) = delivered rid (deliver_ops (nv_log nv (snd (sw_useCase ss)) t))"
    and "\<And>ev. ev \<in> set evs \<Longrightarrow> quiet rid (hub_next (api_hub w1)) ev"
    and "length (delivered rid (hub_ops evs)) \<le> 1000"
    and "\<And>ev. ev \<in> set evs \<Longrightarrow> ev \<noteq> HClientGone \<and> ev \<noteq> HWriteFails"
    and "sh_pc h2 = SReturned" and "sh_rsp h2 = Some rsp" and "rsp_Status rsp = 200"
  shows "\<exists>content tokens. ShouldBindJSON content_fields [] body = Some content \<and> gen content (Inr tokens) \<and>
    rsp_Body rsp = chunk_lines (reply_tokens rid tokens)"
proof -
  obtain content hr wr where pc: "sh_pc h1 = SRegister content"
    and reg: "stream_step run (PublishRequest kw) addr sid uid (HRegister rid) (SRegister content) h1 w1 = Some (hr, wr)"
    and rest: "handler_run run (PublishRequest kw) addr sid uid evs hr wr = Some (h2, w2)"
    using assms(8) by (cases "sh_pc h1") (auto split: option.splits)
  have body: "ShouldBindJSON content_fields [] body = Some content"
    using carries_run [OF assms(7) carries_start] pc by (simp add: carries_def)
  have "unsent rid content hr"
    using reg by (auto simp: unsent_def split: prod.splits)
  from published_before_200 [OF rest this assms(23-25)] obtain e1 e2 k' hs ws out where
    sent: "evs = e1 @ HSend # e2" "handler_run run (PublishRequest kw) addr sid uid (e1 @ [HSend]) hr wr = Some (hs, ws)"
      "send_Execute (PublishRequest kw) sid content rid new_streamOutputPort k' = (out, api_kafka ws)" "so_err out = None" .
  have "so_err new_streamOutputPort = None" by (simp add: new_streamOutputPort_def)
  from request_sent [OF assms(1) sent(3,4) this] obtain m where m: "m \<in> set (queue (api_kafka ws) topicRequests)"
    and req: "unmarshal_ChatRequest (km_Value m) = Some \<lparr>cr_RequestID = to_valid_utf8 rid,
      cr_SessionID = to_valid_utf8 sid, cr_Content = to_valid_utf8 content, cr_Timestamp = ''0''\<rparr>"
    by (metis append.assoc in_set_conv_decomp)
  have "handler_run run (PublishRequest kw) addr sid uid (HRegister rid # e1 @ [HSend]) h1 w1 = Some (hs, ws)"
    using pc reg sent(2) by simp
  let ?req = "\<lparr>cr_RequestID = rid, cr_SessionID = to_valid_utf8 sid, cr_Content = content, cr_Timestamp = ''0''\<rparr>"
  have "unmarshal_ChatRequest (km_Value m) = Some ?req"
    using req by (simp add: to_valid_utf8_id assms(6) content_utf8 [OF body])
  from request_done [OF assms(2,3,4) assms(9) [OF sent(1) \<open>handler_run run (PublishRequest kw) addr sid uid
      (HRegister rid # e1 @ [HSend]) h1 w1 = Some (hs, ws)\<close> m] this] obtain p where
    p: "p \<in> set (wk_procs s)" "wp_Req p = ?req" "done_event ?req \<in> set (wk_calls s)" .
  have rid: "proc_id p = rid" by (simp add: proc_id_def p(2))
  obtain tokens where "gen content (Inr tokens)" and "delivered rid (hub_ops evs) = reply_tokens rid tokens"
    using reply_streamed [OF assms(1,2) p(1) rid _ assms(10-19)] p(3) by (auto simp: p(2))
  with reply_complete [OF assms(5) reg rest assms(20-)] body show ?thesis by auto
qed

theorem posted_request_answered_witness:
  "\<exists>w1 h2 w2 rsp. handler_run ref_redis demo_publish ''api:1'' ''s1'' ''ann'' (HRegister ''r1'' # demo_streamed) demo_handler w1 =
       Some (h2, w2) \<and> sh_rsp h2 = Some rsp \<and> rsp_Body rsp = chunk_lines (reply_tokens ''r1'' [''a'', '' b''])"
proof -
  obtain wevs s p where w: "worker_ran (ref_kafka None) (\<lambda>q. q) demo_gen 1 wevs no_messages s"
    "wk_calls s = demo_reply" "ReqFetched (marshal_ChatRequest demo_request) \<in> set wevs" "wk_procs s = [p]"
    "wp_PC p = Releasing" "wk_loop s = WFetching"
    using demo_worker_ran by blast
  have idle: "worker_idle s" by (simp add: worker_idle_def w(4-6))
  have gen: "\<exists>tokens. r = Inr tokens" if "demo_gen content r" for content r
    using that by (simp add: demo_gen_def)
  have pl: "sw_payloads (serve demo_reply) = map km_Value (wk_kafka s topicStreamFE)"
    using keyed_values [OF worker_topics(1) [OF ref_kafka_documented w(1)]] w(2) by (simp add: sw_payloads_serve)
  obtain ss where ss: "sw_steps (\<lambda>x t. snd (stream_Execute toy_lib toy_getcb t x)) (serve demo_reply)
      (sw_New (NewStreamTokens ''key'', toy_start)) ss" "drained ss ''r1''"
    and ok: "fst (stream_run toy_lib toy_getcb (map event_of (sw_calls ss)) (NewStreamTokens ''key'', toy_start)) = Inr ()"
    and hub: "\<And>t. nv_addr toy_view (snd (sw_useCase ss)) t = Some (''api:'' @ ''r1'') \<Longrightarrow>
      delivered ''r1'' (hub_ops demo_streamed) = delivered ''r1'' (deliver_ops (nv_log toy_view (snd (sw_useCase ss)) t))"
    by (rule demo_served, rule that)
  obtain w1 where pre: "handler_run ref_redis demo_publish ''api:1'' ''s1'' ''ann'' [HClaim] (stream_start demo_post) demo_api =
      Some (demo_handler, w1)" and w1: "api_hub w1 = hub_New" "api_kafka w1 = no_messages"
    using demo_post_claimed by blast
  obtain h2 w2 rsp where run: "handler_run ref_redis demo_publish ''api:1'' ''s1'' ''ann'' (HRegister ''r1'' # demo_streamed)
      demo_handler w1 = Some (h2, w2)" "sh_pc h2 = SReturned" "sh_rsp h2 = Some rsp" "rsp_Status rsp = 200"
    using demo_post_run [OF w1] by blast
  have sent: "ReqFetched (km_Value m) \<in> set wevs"
    if "demo_streamed = e1 @ HSend # e2" and "handler_run ref_redis demo_publish ''api:1'' ''s1'' ''ann''
      (HRegister ''r1'' # e1 @ [HSend]) demo_handler w1 = Some (h, v)" and "m \<in> set (api_kafka v topicRequests)" for e1 e2 h v m
    using demo_post_sent [OF w1 that] w(3) by simp
  have inv: "hub_inv (api_hub w1)" by (simp add: w1)
  have len: "length (delivered ''r1'' (hub_ops demo_streamed)) \<le> 1000"
    by (simp add: demo_streamed_calm reply_tokens_def)
  have quiet: "\<And>ev. ev \<in> set demo_streamed \<Longrightarrow> quiet ''r1'' (hub_next (api_hub w1)) ev"
    using demo_streamed_calm(1) by (simp add: w1 demo_api_def)
  have r1: "valid_utf8 ''r1''" by (simp add: valid_utf8_ascii ascii_def byte_def)
  from posted_request_answered [where queue = "\<lambda>q. q", OF ref_kafka_documented w(1) idle gen inv r1 pre run(1) sent
      partitioned_refl pl toy_documented toy_lookup ss(1) serve_calm ss(2) ok hub quiet len demo_streamed_calm(2) run(2-4)]
  have "rsp_Body rsp = chunk_lines (reply_tokens ''r1'' [''a'', '' b''])"
    by (auto simp: demo_gen_def)
  with run show ?thesis by blast
qed

section \<open>Requests on their way to the worker\<close>

text \<open>
  The worker gets the request the handler sent: when \<open>SendMessageUseCase\<close> presents a request id, the
  topic of chat requests has one more message, keyed by the session, and that message decodes to the
  request with its id, session and content, invalid UTF-8 replaced.
\<close>

theorem request_reaches_worker:
  assumes "kafka_documented kw queue"
    and "send_Execute (PublishRequest kw) sid content rid out k = (out', k')" and "so_err out' = None" and "so_err out = None"
  shows "\<exists>m. queue k' topicRequests = queue k topicRequests @ [m] \<and> km_Key m = sid \<and> so_requestID out' = rid \<and>
    unmarshal_ChatRequest (km_Value m) =
      Some \<lparr>cr_RequestID = to_valid_utf8 rid, cr_SessionID = to_valid_utf8 sid, cr_Content = to_valid_utf8 content,
            cr_Timestamp = ''0''\<rparr>"
  using request_sent [OF assms] by metis

theorem request_reaches_worker_witness:
  "\<exists>out' k' m. send_Execute (PublishRequest (ref_kafka None)) ''s1'' ''hi'' ''r1'' new_streamOutputPort no_messages = (out', k') \<and>
     k' topicRequests = [m] \<and> unmarshal_ChatRequest (km_Value m) = Some demo_request"
proof -
  obtain out' k' where s: "send_Execute (PublishRequest (ref_kafka None)) ''s1'' ''hi'' ''r1'' new_streamOutputPort no_messages
      = (out', k')" "so_err out' = None"
    by (simp add: send_Execute_def PublishRequest_def publisher_write_def ref_kafka_def new_streamOutputPort_def Let_def)
  have "so_err new_streamOutputPort = None" by (simp add: new_streamOutputPort_def)
  from request_reaches_worker [OF ref_kafka_documented s this] s(1) show ?thesis
    by (auto simp: no_messages_def demo_request_def to_valid_utf8_ascii ascii_def byte_def)
qed


end
